(* ===== verification/Micro_Prelude.thy ===== *)
theory Micro_Prelude
  imports Main "HOL-Library.Word"
begin

text \<open>
  Shared vocabulary of the development: C integers at their width, faults of the machine,
  the error numbers of \<^verbatim>\<open>kernel/include/uapi/micro/errno.h\<close>, and generic lemmas on
  lists, options and bits that the component theories use.

  Addresses and sizes (\<^verbatim>\<open>uintptr_t\<close>, \<^verbatim>\<open>size_t\<close>) are naturals below \<open>2 ^ 64\<close>; every
  operation of the source that can wrap is written with \<open>add64\<close>, \<open>sub64\<close> or \<open>mul64\<close>.
  The address 0 is \<^verbatim>\<open>NULL\<close>. A routine of the kernel that can crash the machine
  returns a sum whose left side is the fault; a loop that may run forever is wrapped in
  \<open>option\<close>, where \<open>None\<close> means that it does not return.
\<close>

type_synonym addr = nat
type_synonym u8 = "8 word"
type_synonym u16 = "16 word"
type_synonym u32 = "32 word"
type_synonym u64 = "64 word"

datatype fault =
    BadAccess      \<comment> \<open>load or store through NULL or an address that holds no object\<close>
  | InvalidOpcode  \<comment> \<open>the \<^verbatim>\<open>ud2\<close> instruction\<close>
  | KernelPanic    \<comment> \<open>\<^verbatim>\<open>panic()\<close>\<close>
  | Overrun        \<comment> \<open>store past the end of a fixed-size array\<close>

type_synonym 'a res = "fault + 'a"
type_synonym 'a run = "(fault + 'a) option"

named_theorems keeps \<open>what an operation leaves as it was, as destruction rules\<close>

subsection \<open>64-bit arithmetic on naturals\<close>

definition add64 :: "nat \<Rightarrow> nat \<Rightarrow> nat" where
  "add64 a b = (a + b) mod 2 ^ 64"

definition sub64 :: "nat \<Rightarrow> nat \<Rightarrow> nat" where
  "sub64 a b = (a + 2 ^ 64 - b mod 2 ^ 64) mod 2 ^ 64"

definition mul64 :: "nat \<Rightarrow> nat \<Rightarrow> nat" where
  "mul64 a b = (a * b) mod 2 ^ 64"

definition add32 :: "nat \<Rightarrow> nat \<Rightarrow> nat" where
  "add32 a b = (a + b) mod 2 ^ 32"

text \<open>The signed reading of a 64-bit value (\<^verbatim>\<open>ssize_t\<close>, \<^verbatim>\<open>off_t\<close>) and back.\<close>

definition s64 :: "nat \<Rightarrow> int" where
  "s64 n = (if n mod 2 ^ 64 < 2 ^ 63 then int (n mod 2 ^ 64) else int (n mod 2 ^ 64) - 2 ^ 64)"

definition u64_of :: "int \<Rightarrow> nat" where
  "u64_of i = nat (i mod 2 ^ 64)"

lemma add64_small [simp]: "a + b < 2 ^ 64 \<Longrightarrow> add64 a b = a + b"
  by (simp add: add64_def)

lemma add64_less [simp]: "add64 a b < 2 ^ 64"
  by (simp add: add64_def)

lemma mul64_small: "a * b < 2 ^ 64 \<Longrightarrow> mul64 a b = a * b"
  by (simp add: mul64_def)

lemma sub64_small:
  assumes "b \<le> a" "a < 2 ^ 64"
  shows "sub64 a b = a - b"
proof -
  have b: "b mod 2 ^ 64 = b" using assms by simp
  have "a + 2 ^ 64 - b = (a - b) + 2 ^ 64" using assms by simp
  moreover have "a - b < 2 ^ 64" using assms by simp
  ultimately show ?thesis unfolding sub64_def b by (simp only: mod_add_self2 mod_less)
qed

lemma s64_small [simp]: "n < 2 ^ 63 \<Longrightarrow> s64 n = int n"
  by (simp add: s64_def)

lemma u64_of_nat [simp]: "n < 2 ^ 64 \<Longrightarrow> u64_of (int n) = n"
  by (simp add: u64_of_def nat_mod_as_int)

subsection \<open>Error and signal numbers\<close>

abbreviation (input) EPERM :: int where "EPERM \<equiv> 1"
abbreviation (input) ENOENT :: int where "ENOENT \<equiv> 2"
abbreviation (input) ESRCH :: int where "ESRCH \<equiv> 3"
abbreviation (input) EINTR :: int where "EINTR \<equiv> 4"
abbreviation (input) EIO :: int where "EIO \<equiv> 5"
abbreviation (input) ENXIO :: int where "ENXIO \<equiv> 6"
abbreviation (input) ENOEXEC :: int where "ENOEXEC \<equiv> 8"
abbreviation (input) EBADF :: int where "EBADF \<equiv> 9"
abbreviation (input) ECHILD :: int where "ECHILD \<equiv> 10"
abbreviation (input) EAGAIN :: int where "EAGAIN \<equiv> 11"
abbreviation (input) ENOMEM :: int where "ENOMEM \<equiv> 12"
abbreviation (input) EACCES :: int where "EACCES \<equiv> 13"
abbreviation (input) EFAULT :: int where "EFAULT \<equiv> 14"
abbreviation (input) EBUSY :: int where "EBUSY \<equiv> 16"
abbreviation (input) EEXIST :: int where "EEXIST \<equiv> 17"
abbreviation (input) ENODEV :: int where "ENODEV \<equiv> 19"
abbreviation (input) ENOTDIR :: int where "ENOTDIR \<equiv> 20"
abbreviation (input) EISDIR :: int where "EISDIR \<equiv> 21"
abbreviation (input) EINVAL :: int where "EINVAL \<equiv> 22"
abbreviation (input) EMFILE :: int where "EMFILE \<equiv> 24"
abbreviation (input) ENOTTY :: int where "ENOTTY \<equiv> 25"
abbreviation (input) ENOSPC :: int where "ENOSPC \<equiv> 28"
abbreviation (input) ESPIPE :: int where "ESPIPE \<equiv> 29"
abbreviation (input) EROFS :: int where "EROFS \<equiv> 30"
abbreviation (input) ERANGE :: int where "ERANGE \<equiv> 34"
abbreviation (input) ENOSYS :: int where "ENOSYS \<equiv> 38"
abbreviation (input) ELOOP :: int where "ELOOP \<equiv> 40"

abbreviation (input) SIGCHLD :: nat where "SIGCHLD \<equiv> 3"
abbreviation (input) SIGCONT :: nat where "SIGCONT \<equiv> 4"
abbreviation (input) SIGKILL :: nat where "SIGKILL \<equiv> 9"
abbreviation (input) SIGPIPE :: nat where "SIGPIPE \<equiv> 10"
abbreviation (input) SIGSEGV :: nat where "SIGSEGV \<equiv> 14"
abbreviation (input) SIGSTOP :: nat where "SIGSTOP \<equiv> 15"
abbreviation (input) SIGTRAP :: nat where "SIGTRAP \<equiv> 19"

subsection \<open>Sequencing faults\<close>

text \<open>
  \<open>bindS\<close> continues after a step that may fault, \<open>bindR\<close> after one that may fault or not
  return; \<open>load\<close> reads a store and faults where it holds nothing; \<open>lift\<close> makes a step that
  always returns from one that may fault.
\<close>

definition bindS :: "'a res \<Rightarrow> ('a \<Rightarrow> 'b res) \<Rightarrow> 'b res" where
  "bindS m f = (case m of Inl e \<Rightarrow> Inl e | Inr x \<Rightarrow> f x)"

definition bindR :: "'a run \<Rightarrow> ('a \<Rightarrow> 'b run) \<Rightarrow> 'b run" where
  "bindR m f = (case m of None \<Rightarrow> None | Some (Inl e) \<Rightarrow> Some (Inl e) | Some (Inr x) \<Rightarrow> f x)"

definition load :: "(addr \<rightharpoonup> 'a) \<Rightarrow> addr \<Rightarrow> 'a res" where
  "load S p = (case S p of None \<Rightarrow> Inl BadAccess | Some x \<Rightarrow> Inr x)"

abbreviation ret :: "'a \<Rightarrow> 'a run" where
  "ret x \<equiv> Some (Inr x)"

lemma bindS_simps [simp]:
  "bindS (Inl e) f = Inl e" "bindS (Inr x) f = f x"
  by (simp_all add: bindS_def)

lemma bindR_simps [simp]:
  "bindR None f = None" "bindR (Some (Inl e)) f = Some (Inl e)" "bindR (Some (Inr x)) f = f x"
  by (simp_all add: bindR_def)

lemma load_simps [simp]:
  "S p = None \<Longrightarrow> load S p = Inl BadAccess" "S p = Some x \<Longrightarrow> load S p = Inr x"
  by (simp_all add: load_def)

lemma bindS_Inr: "bindS m f = Inr y \<longleftrightarrow> (\<exists>x. m = Inr x \<and> f x = Inr y)"
  by (cases m) auto

lemma bindR_ret: "bindR m f = Some (Inr y) \<longleftrightarrow> (\<exists>x. m = Some (Inr x) \<and> f x = Some (Inr y))"
  by (auto simp: bindR_def split: option.splits sum.splits)

lemma load_Inr: "load S p = Inr x \<longleftrightarrow> S p = Some x"
  by (simp add: load_def split: option.splits)

subsection \<open>The interface of a memory allocator\<close>

text \<open>
  What the kernel's data structures rely on in \<^verbatim>\<open>kmalloc\<close> and \<^verbatim>\<open>kfree\<close>: a successful
  allocation returns a non-null address that is not in use and adds it to the addresses in
  use; freeing an address in use succeeds and removes it; an allocation that fails stops the
  machine.
\<close>

locale allocator =
  fixes alloc :: "'h \<Rightarrow> nat \<Rightarrow> (addr \<times> 'h) run"
    and dealloc :: "'h \<Rightarrow> addr \<Rightarrow> 'h run"
    and ptrs :: "'h \<Rightarrow> addr set"
    and inv :: "'h \<Rightarrow> bool"
  assumes alloc_fresh: "inv h \<Longrightarrow> 0 < n \<Longrightarrow> n \<le> 2 ^ 64 - 32 \<Longrightarrow> alloc h n = Some (Inr (p, h')) \<Longrightarrow>
      inv h' \<and> p \<noteq> 0 \<and> p \<notin> ptrs h \<and> ptrs h' = insert p (ptrs h)"
    and dealloc_ok: "inv h \<Longrightarrow> p \<in> ptrs h \<Longrightarrow>
      \<exists>h'. dealloc h p = Some (Inr h') \<and> inv h' \<and> ptrs h' = ptrs h - {p}"
    and alloc_total: "inv h \<Longrightarrow> 0 < n \<Longrightarrow> n \<le> 2 ^ 64 - 32 \<Longrightarrow>
      alloc h n = Some (Inl InvalidOpcode) \<or> (\<exists>p h'. alloc h n = Some (Inr (p, h')))"

subsection \<open>Little-endian fields\<close>

fun le_of :: "u8 list \<Rightarrow> nat" where
  "le_of [] = 0"
| "le_of (b # bs) = unat b + 256 * le_of bs"

fun le_bytes :: "nat \<Rightarrow> nat \<Rightarrow> u8 list" where
  "le_bytes 0 x = []"
| "le_bytes (Suc n) x = word_of_nat x # le_bytes n (x div 256)"

definition le_at :: "u8 list \<Rightarrow> nat \<Rightarrow> nat \<Rightarrow> nat" where
  "le_at bs p n = le_of (take n (drop p bs))"

text \<open>Bytes of \<open>buf\<close> from position \<open>p\<close> on replaced by \<open>xs\<close>.\<close>

definition overlay :: "u8 list \<Rightarrow> nat \<Rightarrow> u8 list \<Rightarrow> u8 list" where
  "overlay buf p xs = take p buf @ xs @ drop (p + length xs) buf"

lemma length_le_bytes [simp]: "length (le_bytes n x) = n"
  by (induction n arbitrary: x) simp_all

lemma le_of_le_bytes [simp]: "le_of (le_bytes n x) = x mod 256 ^ n"
proof (induction n arbitrary: x)
  case (Suc n)
  have "x mod 256 ^ Suc n = x mod 256 + 256 * (x div 256 mod 256 ^ n)"
    by (simp add: mod_mult2_eq)
  then show ?case
    by (simp add: Suc unsigned_of_nat take_bit_eq_mod)
qed simp

lemma le_of_bound: "le_of bs < 256 ^ length bs"
proof (induction bs)
  case (Cons b bs)
  have "unat b < 256"
    using unsigned_less[of b] by simp
  with Cons show ?case
    by (simp add: algebra_simps)
qed simp

lemma le_at_append1: "le_at (xs @ ys) p n = le_at xs p n" if "p + n \<le> length xs"
  using that by (simp add: le_at_def)

lemma le_at_append2: "le_at (xs @ ys) p n = le_at ys (p - length xs) n" if "length xs \<le> p"
  using that by (simp add: le_at_def)

lemma le_at_bytes: "le_at (le_bytes n x) 0 n = x mod 256 ^ n"
  by (simp add: le_at_def)

lemma le_at_bytes_append: "le_at (le_bytes n x @ ys) 0 n = x mod 256 ^ n"
  by (simp add: le_at_def)

lemmas le_at_simps = le_at_append1 le_at_append2 le_at_bytes le_at_bytes_append

lemma length_overlay [simp]: "length (overlay buf p xs) = length buf" if "p + length xs \<le> length buf"
  using that by (simp add: overlay_def)

lemma nth_overlay: "overlay buf p xs ! i = (if p \<le> i \<and> i < p + length xs then xs ! (i - p) else buf ! i)"
  if "p + length xs \<le> length buf" "i < length buf"
  using that by (auto simp: overlay_def nth_append min_def)

lemma overlay_append: "overlay (a @ b @ c) (length a) b' = a @ b' @ c" if "length b = length b'"
  using that by (simp add: overlay_def)

lemma le_bytes_0: "le_bytes n 0 = replicate n 0"
  by (induction n) simp_all

lemma le_bytes_le_of: "le_bytes (length bs) (le_of bs) = bs"
proof (induction bs)
  case (Cons b bs)
  have u: "unat b < 256"
    using unsigned_less[of b] by simp
  then have "(unat b + 256 * le_of bs) div 256 = le_of bs"
    by simp
  moreover have z: "(word_of_nat (256 * le_of bs) :: u8) = 0"
    by (simp only: word_of_nat_eq_0_iff) simp
  have "(word_of_nat (unat b + 256 * le_of bs) :: u8) = b"
    by (simp only: of_nat_add z) simp
  ultimately show ?case
    using Cons by simp
qed simp

lemma le_bytes_le_at: "le_bytes n (le_at bs p n) = take n (drop p bs)" if "p + n \<le> length bs"
  using le_bytes_le_of[of "take n (drop p bs)"] that by (simp add: le_at_def min_absorb2)

end
