(* ===== verification/Kheap.thy ===== *)
theory Kheap
  imports Micro_Prelude
begin

text \<open>
  The kernel heap, \<^verbatim>\<open>kernel/kern/heap.c\<close>: block headers linked in address order, first fit
  with splitting in \<open>kmalloc\<close>, coalescing with both neighbours in \<open>kfree\<close>.

  The headers live in a store from addresses to blocks. A header that \<open>combine\<close> swallows
  stays in the store, as its bytes stay in memory. The payload bytes are \<open>h_mem\<close>.
  The second half of the theory relates the linked headers to the list of the heap's
  segments and states the allocator's contract over it.
\<close>

subsection \<open>State\<close>

record block =
  blk_next :: addr
  blk_prev :: addr
  blk_used :: int
  blk_size :: nat

record kheap =
  h_blks :: "addr \<rightharpoonup> block"
  h_first :: addr
  h_last :: addr
  h_lock :: bool
  h_mem :: "addr \<Rightarrow> u8"

abbreviation (input) sizeof_block :: nat where "sizeof_block \<equiv> 32"

subsection \<open>Operations\<close>

definition combine :: "kheap \<Rightarrow> addr \<Rightarrow> addr \<Rightarrow> (addr \<times> kheap) res" where
  "combine h b1 b2 =
     (case (h_blks h b1, h_blks h b2) of
        (Some x1, Some x2) \<Rightarrow>
          (let x1' = x1\<lparr>blk_size := add64 (blk_size x1) (add64 (blk_size x2) sizeof_block),
                        blk_next := blk_next x2\<rparr>;
               B = (h_blks h)(b1 \<mapsto> x1')
           in if blk_next x1' \<noteq> 0 then
                (case B (blk_next x1') of
                   None \<Rightarrow> Inl BadAccess
                 | Some nx \<Rightarrow>
                     Inr (b1, h\<lparr>h_blks := B(blk_next x1' \<mapsto> nx\<lparr>blk_prev := b1\<rparr>)\<rparr>))
              else Inr (b1, h\<lparr>h_blks := B, h_last := b1\<rparr>))
      | _ \<Rightarrow> Inl BadAccess)"

definition split :: "kheap \<Rightarrow> addr \<Rightarrow> nat \<Rightarrow> (addr \<times> kheap) res" where
  "split h b n =
     (case h_blks h b of
        None \<Rightarrow> Inl BadAccess
      | Some x \<Rightarrow>
          (let new = add64 (add64 b sizeof_block) n;
               y = \<lparr>blk_next = blk_next x, blk_prev = b, blk_used = 0,
                    blk_size = sub64 (sub64 (blk_size x) n) sizeof_block\<rparr>;
               B = (h_blks h)(b \<mapsto> x\<lparr>blk_size := n, blk_next := new\<rparr>, new \<mapsto> y)
           in if blk_next y \<noteq> 0 then
                (case B (blk_next y) of
                   None \<Rightarrow> Inl BadAccess
                 | Some nx \<Rightarrow>
                     Inr (b, h\<lparr>h_blks := B(blk_next y \<mapsto> nx\<lparr>blk_prev := new\<rparr>)\<rparr>))
              else Inr (b, h\<lparr>h_blks := B, h_last := new\<rparr>)))"

definition set_used :: "kheap \<Rightarrow> addr \<Rightarrow> int \<Rightarrow> kheap res" where
  "set_used h b v =
     (case h_blks h b of
        None \<Rightarrow> Inl BadAccess
      | Some x \<Rightarrow> Inr (h\<lparr>h_blks := (h_blks h)(b \<mapsto> x\<lparr>blk_used := v\<rparr>)\<rparr>))"

text \<open>
  The search loop of \<open>kmalloc\<close>. Reaching the end of the list executes \<^verbatim>\<open>ud2\<close> with the
  lock still held. A cyclic list would be searched forever.
\<close>

partial_function (option) kmalloc_loop :: "kheap \<Rightarrow> nat \<Rightarrow> addr \<Rightarrow> (addr \<times> kheap) run" where
  "kmalloc_loop h n cur =
     (if cur = 0 then Some (Inl InvalidOpcode)
      else case h_blks h cur of
        None \<Rightarrow> Some (Inl BadAccess)
      | Some x \<Rightarrow>
          if blk_used x = 0 \<and> n < blk_size x then
            Some (case split h cur n of
                    Inl f \<Rightarrow> Inl f
                  | Inr (b, h') \<Rightarrow>
                      (case set_used h' b 1 of
                         Inl f \<Rightarrow> Inl f
                       | Inr h'' \<Rightarrow> Inr (add64 b sizeof_block, h''\<lparr>h_lock := False\<rparr>)))
          else if blk_used x = 0 \<and> blk_size x = n then
            Some (case set_used h cur 1 of
                    Inl f \<Rightarrow> Inl f
                  | Inr h' \<Rightarrow> Inr (add64 cur sizeof_block, h'\<lparr>h_lock := False\<rparr>))
          else kmalloc_loop h n (blk_next x))"

definition round32 :: "nat \<Rightarrow> nat" where
  "round32 n = (if n mod 32 \<noteq> 0 then add64 n (32 - n mod 32) else n)"

definition kmalloc :: "kheap \<Rightarrow> nat \<Rightarrow> (addr \<times> kheap) run" where
  "kmalloc h n =
     (if n = 0 then Some (Inr (0, h))
      else if h_lock h then None
      else kmalloc_loop (h\<lparr>h_lock := True\<rparr>) (round32 n) (h_first h))"

definition is_free :: "kheap \<Rightarrow> addr \<Rightarrow> bool res" where
  "is_free h p =
     (if p = 0 then Inr False
      else case h_blks h p of None \<Rightarrow> Inl BadAccess | Some x \<Rightarrow> Inr (blk_used x = 0))"

definition merge_prev :: "kheap \<Rightarrow> addr \<Rightarrow> (addr \<times> kheap) res" where
  "merge_prev h b =
     (case h_blks h b of
        None \<Rightarrow> Inl BadAccess
      | Some x \<Rightarrow>
          (case is_free h (blk_prev x) of
             Inl f \<Rightarrow> Inl f
           | Inr fr \<Rightarrow> if fr then combine h (blk_prev x) b else Inr (b, h)))"

definition merge_next :: "kheap \<Rightarrow> addr \<Rightarrow> (addr \<times> kheap) res" where
  "merge_next h b =
     (case h_blks h b of
        None \<Rightarrow> Inl BadAccess
      | Some x \<Rightarrow>
          (case is_free h (blk_next x) of
             Inl f \<Rightarrow> Inl f
           | Inr fr \<Rightarrow> if fr then combine h b (blk_next x) else Inr (b, h)))"

definition kfree :: "kheap \<Rightarrow> addr \<Rightarrow> kheap run" where
  "kfree h ptr =
     (if h_lock h then None
      else Some (case set_used (h\<lparr>h_lock := True\<rparr>) (sub64 ptr sizeof_block) 0 of
                   Inl f \<Rightarrow> Inl f
                 | Inr h' \<Rightarrow>
                     (case merge_prev h' (sub64 ptr sizeof_block) of
                        Inl f \<Rightarrow> Inl f
                      | Inr (b, h2) \<Rightarrow>
                          (case merge_next h2 b of
                             Inl f \<Rightarrow> Inl f
                           | Inr (_, h3) \<Rightarrow> Inr (h3\<lparr>h_lock := False\<rparr>)))))"

definition mem_set :: "(addr \<Rightarrow> u8) \<Rightarrow> addr \<Rightarrow> u8 \<Rightarrow> nat \<Rightarrow> (addr \<Rightarrow> u8)" where
  "mem_set m p c n = (\<lambda>a. if p \<le> a \<and> a < p + n then c else m a)"

definition kcalloc :: "kheap \<Rightarrow> nat \<Rightarrow> (addr \<times> kheap) run" where
  "kcalloc h n =
     (case kmalloc h n of
        None \<Rightarrow> None
      | Some (Inl f) \<Rightarrow> Some (Inl f)
      | Some (Inr (p, h')) \<Rightarrow> Some (Inr (p, h'\<lparr>h_mem := mem_set (h_mem h') p 0 n\<rparr>)))"

text \<open>
  \<open>heap_check\<close> is compiled in debug builds: it walks the headers and panics on a block whose
  neighbours lie below the heap region, whose used flag is not 0 or 1, or whose size is
  absurd.
\<close>

partial_function (option) heap_check_loop :: "kheap \<Rightarrow> addr \<Rightarrow> unit run" where
  "heap_check_loop h cur =
     (if cur = 0 then Some (Inr ())
      else case h_blks h cur of
        None \<Rightarrow> Some (Inl BadAccess)
      | Some x \<Rightarrow>
          if cur \<noteq> h_last h \<and> blk_next x < 0xffffffffc0000000 then Some (Inl KernelPanic)
          else if cur \<noteq> h_first h \<and> blk_prev x < 0xffffffffc0000000 then Some (Inl KernelPanic)
          else if (blk_used x \<noteq> 0 \<and> blk_used x \<noteq> 1) \<or> 0x10000000 < blk_size x
            then Some (Inl KernelPanic)
          else heap_check_loop h (blk_next x))"

definition heap_check :: "kheap \<Rightarrow> unit run" where
  "heap_check h = heap_check_loop h (h_first h)"

subsection \<open>The segment list a heap stands for\<close>

text \<open>
  A segment is a size and a used flag. Laid out from a base address, each segment is its
  header followed by its payload, and the next header follows at once.
\<close>

type_synonym seg = "nat \<times> bool"

fun segs_end :: "addr \<Rightarrow> seg list \<Rightarrow> addr" where
  "segs_end a [] = a"
| "segs_end a ((s, u) # xs) = segs_end (a + sizeof_block + s) xs"

fun segs_last :: "addr \<Rightarrow> addr \<Rightarrow> seg list \<Rightarrow> addr" where
  "segs_last d a [] = d"
| "segs_last d a ((s, u) # xs) = segs_last a (a + sizeof_block + s) xs"

definition seg_block :: "addr \<Rightarrow> addr \<Rightarrow> seg \<Rightarrow> block" where
  "seg_block pv nx x =
     \<lparr>blk_next = nx, blk_prev = pv, blk_used = (if snd x then 1 else 0), blk_size = fst x\<rparr>"

fun chain :: "(addr \<rightharpoonup> block) \<Rightarrow> addr \<Rightarrow> addr \<Rightarrow> seg list \<Rightarrow> addr \<Rightarrow> bool" where
  "chain B pv a [] nx = True"
| "chain B pv a ((s, u) # xs) nx =
     (B a = Some (seg_block pv (if xs = [] then nx else a + sizeof_block + s) (s, u))
      \<and> chain B a (a + sizeof_block + s) xs nx)"

text \<open>Well-formed segment lists: sizes are multiples of 32, no two free neighbours.\<close>

fun no_free_pair :: "seg list \<Rightarrow> bool" where
  "no_free_pair (x # y # xs) = ((snd x \<or> snd y) \<and> no_free_pair (y # xs))"
| "no_free_pair _ = True"

definition segs_wf :: "addr \<Rightarrow> seg list \<Rightarrow> bool" where
  "segs_wf base xs \<longleftrightarrow> 0 < base \<and> xs \<noteq> [] \<and> segs_end base xs < 2 ^ 64
     \<and> list_all (\<lambda>x. 32 dvd fst x) xs \<and> no_free_pair xs"

definition heap_rep :: "kheap \<Rightarrow> addr \<Rightarrow> seg list \<Rightarrow> bool" where
  "heap_rep h base xs \<longleftrightarrow> h_first h = base \<and> h_last h = segs_last 0 base xs
     \<and> chain (h_blks h) 0 base xs 0"

text \<open>The reference allocator on segment lists: first fit, and free with coalescing.\<close>

fun alloc_seg :: "nat \<Rightarrow> addr \<Rightarrow> seg list \<Rightarrow> (addr \<times> seg list) option" where
  "alloc_seg n a [] = None"
| "alloc_seg n a ((s, u) # xs) =
     (if \<not> u \<and> n < s then Some (a + sizeof_block, (n, True) # (s - n - sizeof_block, False) # xs)
      else if \<not> u \<and> s = n then Some (a + sizeof_block, (s, True) # xs)
      else map_option (\<lambda>(p, ys). (p, (s, u) # ys)) (alloc_seg n (a + sizeof_block + s) xs))"

fun merge_hd :: "seg list \<Rightarrow> seg list" where
  "merge_hd ((s, False) # (t, False) # xs) = (s + sizeof_block + t, False) # xs"
| "merge_hd xs = xs"

fun free_seg :: "addr \<Rightarrow> addr \<Rightarrow> seg list \<Rightarrow> seg list option" where
  "free_seg p a [] = None"
| "free_seg p a ((s, u) # xs) =
     (if p = a + sizeof_block then Some (merge_hd ((s, False) # xs))
      else map_option (\<lambda>ys. merge_hd ((s, u) # ys)) (free_seg p (a + sizeof_block + s) xs))"

text \<open>The used segments as pairs of payload address and payload size.\<close>

fun used_blocks :: "addr \<Rightarrow> seg list \<Rightarrow> (addr \<times> nat) list" where
  "used_blocks a [] = []"
| "used_blocks a ((s, u) # xs) =
     (if u then [(a + sizeof_block, s)] else []) @ used_blocks (a + sizeof_block + s) xs"

text \<open>The segment list after the used segment between \<open>xs\<close> and \<open>ys\<close> is freed.\<close>

definition freed :: "seg list \<Rightarrow> nat \<Rightarrow> seg list \<Rightarrow> seg list" where
  "freed xs s ys =
     (if xs \<noteq> [] \<and> \<not> snd (last xs)
      then butlast xs @ merge_hd (last xs # merge_hd ((s, False) # ys))
      else xs @ merge_hd ((s, False) # ys))"

text \<open>The heap invariant between calls, and the live blocks: payload address and size.\<close>

definition heap_inv :: "kheap \<Rightarrow> bool" where
  "heap_inv h \<longleftrightarrow> \<not> h_lock h \<and> (\<exists>base xs. heap_rep h base xs \<and> segs_wf base xs)"

definition live :: "kheap \<Rightarrow> (addr \<times> nat) set" where
  "live h = {b. \<exists>base xs. heap_rep h base xs \<and> segs_wf base xs \<and> b \<in> set (used_blocks base xs)}"

subsection \<open>Heap initialisation and reachable heaps\<close>

text \<open>The list set-up at the end of \<open>heap_init\<close>, over the pages mapped at \<open>start\<close>.\<close>

abbreviation (input) HEAP_PAGES :: nat where "HEAP_PAGES \<equiv> 10000"

definition heap_setup :: "kheap \<Rightarrow> addr \<Rightarrow> kheap" where
  "heap_setup h start =
     h\<lparr>h_first := start, h_last := start,
       h_blks := (h_blks h)(start \<mapsto> \<lparr>blk_next = 0, blk_prev = 0, blk_used = 0,
                                       blk_size = HEAP_PAGES * 4096\<rparr>)\<rparr>"

inductive heap_reach :: "kheap \<Rightarrow> kheap \<Rightarrow> bool" for h0 where
  start: "heap_reach h0 h0"
| malloc: "heap_reach h0 h \<Longrightarrow> 0 < n \<Longrightarrow> n \<le> 2 ^ 64 - 32 \<Longrightarrow> kmalloc h n = Some (Inr (p, h'))
    \<Longrightarrow> heap_reach h0 h'"
| free: "heap_reach h0 h \<Longrightarrow> (p, s) \<in> live h \<Longrightarrow> kfree h p = Some (Inr h') \<Longrightarrow> heap_reach h0 h'"

subsection \<open>The linked headers implement the segment list\<close>

lemma segs_end_append [simp]: "segs_end a (xs @ ys) = segs_end (segs_end a xs) ys"
  by (induction a xs rule: segs_end.induct) auto

lemma segs_last_append [simp]:
  "segs_last d a (xs @ ys) = segs_last (segs_last d a xs) (segs_end a xs) ys"
  by (induction d a xs rule: segs_last.induct) auto

lemma segs_end_ge: "a \<le> segs_end a xs"
proof (induction a xs rule: segs_end.induct)
  case (2 a s u xs)
  then show ?case by simp
qed simp

lemma segs_end_gt: "xs \<noteq> [] \<Longrightarrow> a + sizeof_block \<le> segs_end a xs"
proof (cases xs)
  case (Cons x ys)
  obtain s u where "x = (s, u)" by (cases x)
  then show ?thesis using Cons segs_end_ge [of "a + sizeof_block + s" ys] by simp
qed simp

lemma chain_append:
  "chain B pv a (xs @ ys) nx \<longleftrightarrow>
     chain B pv a xs (if ys = [] then nx else segs_end a xs)
     \<and> chain B (segs_last pv a xs) (segs_end a xs) ys nx"
  by (induction B pv a xs nx rule: chain.induct) auto

lemma chain_upd_out:
  "q < a \<or> segs_end a xs \<le> q \<Longrightarrow> chain (B(q := v)) pv a xs nx = chain B pv a xs nx"
proof (induction B pv a xs nx rule: chain.induct)
  case (2 B pv a s u xs nx)
  have "a + sizeof_block + s \<le> segs_end (a + sizeof_block + s) xs" by (rule segs_end_ge)
  with 2 have "q \<noteq> a" "q < a + sizeof_block + s \<or> segs_end (a + sizeof_block + s) xs \<le> q"
    by auto
  with "2.IH" show ?case by simp
qed simp

lemma chain_upd_prev:
  assumes "chain B pv a xs nx" "xs \<noteq> []" "B a = Some b"
  shows "chain (B(a \<mapsto> b\<lparr>blk_prev := pv'\<rparr>)) pv' a xs nx"
proof -
  obtain s u ys where xs: "xs = (s, u) # ys" using assms(2) by (cases xs) auto
  show ?thesis using assms(1,3) by (auto simp: xs seg_block_def chain_upd_out)
qed

lemma chain_at:
  assumes "chain B pv a (xs @ x # ys) nx"
  shows "B (segs_end a xs) =
    Some (seg_block (segs_last pv a xs) (if ys = [] then nx else segs_end a xs + sizeof_block + fst x) x)"
  using assms by (cases x) (auto simp: chain_append)

lemma chain_next_some:
  assumes "chain B pv a xs nx" "xs \<noteq> []"
  shows "\<exists>b. B a = Some b"
  using assms by (cases xs) auto

lemma split_refines:
  assumes rep: "heap_rep h base (xs @ (s, False) # ys)"
    and big: "segs_end base (xs @ (s, False) # ys) < 2 ^ 64"
    and n: "n + sizeof_block \<le> s"
  shows "\<exists>h'. split h (segs_end base xs) n = Inr (segs_end base xs, h')
     \<and> heap_rep h' base (xs @ (n, False) # (s - n - sizeof_block, False) # ys)
     \<and> h_lock h' = h_lock h \<and> h_mem h' = h_mem h"
proof -
  define b where "b = segs_end base xs"
  define pv where "pv = segs_last 0 base xs"
  define new where "new = b + sizeof_block + n"
  define nx where "nx = (if ys = [] then 0 else b + sizeof_block + s)"
  let ?B = "h_blks h"
  have ch: "chain ?B 0 base (xs @ (s, False) # ys) 0" using rep by (simp add: heap_rep_def)
  have left: "chain ?B 0 base xs b" and mid: "?B b = Some (seg_block pv nx (s, False))"
    and right: "chain ?B b (b + sizeof_block + s) ys 0"
    using ch by (auto simp: chain_append b_def pv_def nx_def)
  have bnd: "b + sizeof_block + s < 2 ^ 64"
    using big segs_end_ge [of "b + sizeof_block + s" ys] by (simp add: b_def)
  have new64: "add64 (add64 b sizeof_block) n = new"
    using bnd n by (simp add: new_def)
  have sz: "sub64 (sub64 s n) sizeof_block = s - n - sizeof_block"
    using bnd n by (simp add: sub64_small)
  let ?x = "(seg_block pv nx (s, False))\<lparr>blk_size := n, blk_next := new\<rparr>"
  let ?y = "\<lparr>blk_next = nx, blk_prev = b, blk_used = 0, blk_size = s - n - sizeof_block\<rparr>"
  let ?B1 = "?B(b \<mapsto> ?x, new \<mapsto> ?y)"
  have x: "?x = seg_block pv new (n, False)" and y: "?y = seg_block b nx (s - n - sizeof_block, False)"
    by (auto simp: seg_block_def)
  have l1: "chain ?B1 0 base xs b"
    using left by (simp add: chain_upd_out b_def new_def)
  have r1: "chain ?B1 b (b + sizeof_block + s) ys 0"
    using right n by (simp add: chain_upd_out new_def)
  show ?thesis
  proof (cases "ys = []")
    case True
    have "split h b n = Inr (b, h\<lparr>h_blks := ?B1, h_last := new\<rparr>)"
      using mid new64 sz True by (simp add: split_def Let_def nx_def seg_block_def)
    moreover have "heap_rep (h\<lparr>h_blks := ?B1, h_last := new\<rparr>) base
        (xs @ (n, False) # (s - n - sizeof_block, False) # ys)"
      using rep l1 x y True by (simp add: heap_rep_def chain_append b_def pv_def nx_def new_def)
    ultimately show ?thesis by (auto simp: b_def)
  next
    case False
    obtain nb where nb: "?B (b + sizeof_block + s) = Some nb"
      using chain_next_some [OF right False] by blast
    have B1nx: "?B1 nx = Some nb" and ne: "nx \<noteq> b" "nx \<noteq> new" "nx \<noteq> 0"
      using nb n False by (auto simp: nx_def new_def)
    let ?B2 = "?B1(nx \<mapsto> nb\<lparr>blk_prev := new\<rparr>)"
    have sp: "split h b n = Inr (b, h\<lparr>h_blks := ?B2\<rparr>)"
      using mid new64 sz B1nx ne by (simp add: split_def Let_def seg_block_def)
    have l2: "chain ?B2 0 base xs b"
      using l1 False by (subst chain_upd_out) (auto simp: nx_def b_def)
    have r2: "chain ?B2 new (b + sizeof_block + s) ys 0"
      using chain_upd_prev [OF r1 False] B1nx False by (simp add: nx_def)
    have lst: "h_last h = segs_last b (b + sizeof_block + s) ys"
      using rep by (simp add: heap_rep_def b_def)
    have lst2: "segs_last d a ys = segs_last d' a ys" for d d' a
      using False by (cases ys) auto
    have mid2: "?B2 b = Some ?x" and new2: "?B2 new = Some ?y" using ne by (auto simp: new_def)
    have "chain ?B2 0 base (xs @ (n, False) # (s - n - sizeof_block, False) # ys) 0"
      unfolding chain_append
      using l2 r2 mid2 new2 n False unfolding x y
      by (auto simp: b_def [symmetric] pv_def [symmetric] new_def [symmetric] nx_def)
         (auto simp: new_def algebra_simps)
    moreover have "h_last h = segs_last 0 base (xs @ (n, False) # (s - n - sizeof_block, False) # ys)"
      using lst lst2 [of b "b + sizeof_block + s" new] n
      by (simp add: b_def [symmetric] new_def ac_simps)
    moreover have "h_first h = base" using rep by (simp add: heap_rep_def)
    ultimately show ?thesis using sp by (auto simp: heap_rep_def b_def)
  qed
qed


lemma heap_rep_lock [simp]: "heap_rep (h\<lparr>h_lock := l\<rparr>) base xs = heap_rep h base xs"
  by (simp add: heap_rep_def)

lemma set_used_refines:
  assumes rep: "heap_rep h base (xs @ (s, u) # ys)"
  shows "\<exists>h'. set_used h (segs_end base xs) (if v then 1 else 0) = Inr h'
     \<and> heap_rep h' base (xs @ (s, v) # ys) \<and> h_lock h' = h_lock h \<and> h_mem h' = h_mem h"
proof -
  let ?b = "segs_end base xs" and ?B = "h_blks h"
  have ch: "chain ?B 0 base (xs @ (s, u) # ys) 0" using rep by (simp add: heap_rep_def)
  obtain nx where mid: "?B ?b = Some (seg_block (segs_last 0 base xs) nx (s, u))"
    and nx: "nx = (if ys = [] then 0 else ?b + sizeof_block + s)"
    using chain_at [OF ch] by simp
  let ?x = "seg_block (segs_last 0 base xs) nx (s, v)"
  have "set_used h ?b (if v then 1 else 0) = Inr (h\<lparr>h_blks := ?B(?b \<mapsto> ?x)\<rparr>)"
    using mid by (simp add: set_used_def seg_block_def)
  moreover have "chain (?B(?b \<mapsto> ?x)) 0 base (xs @ (s, v) # ys) 0"
    using ch nx by (simp add: chain_append chain_upd_out)
  ultimately show ?thesis using rep by (auto simp: heap_rep_def)
qed

lemma kmalloc_loop_refines:
  assumes "heap_rep h base (xs @ ys)" "segs_end base (xs @ ys) < 2 ^ 64" "0 < base"
    and "list_all (\<lambda>x. 32 dvd fst x) ys" "32 dvd n"
  shows "case alloc_seg n (segs_end base xs) ys of
      None \<Rightarrow> kmalloc_loop h n (if ys = [] then 0 else segs_end base xs) = Some (Inl InvalidOpcode)
    | Some (p, ys') \<Rightarrow>
        \<exists>h'. kmalloc_loop h n (if ys = [] then 0 else segs_end base xs) = Some (Inr (p, h'))
           \<and> heap_rep h' base (xs @ ys') \<and> \<not> h_lock h' \<and> h_mem h' = h_mem h"
  using assms
proof (induction ys arbitrary: xs)
  case Nil
  then show ?case by (simp add: kmalloc_loop.simps)
next
  case (Cons x ys)
  obtain s u where x: "x = (s, u)" by (cases x)
  let ?b = "segs_end base xs"
  note rep = Cons.prems(1) [unfolded x]
  have ch: "chain (h_blks h) 0 base (xs @ (s, u) # ys) 0" using rep by (simp add: heap_rep_def)
  define nx where "nx = (if ys = [] then 0 else ?b + sizeof_block + s)"
  have mid: "h_blks h ?b = Some (seg_block (segs_last 0 base xs) nx (s, u))"
    using chain_at [OF ch] by (simp add: nx_def)
  have b0: "?b \<noteq> 0" using Cons.prems(3) segs_end_ge [of base xs] by simp
  have b64: "add64 ?b sizeof_block = ?b + sizeof_block"
    using Cons.prems(2) segs_end_ge [of "?b + sizeof_block + s" ys] by (simp add: x)
  have dvd: "32 dvd s" using Cons.prems(4) x by simp
  consider (split) "\<not> u" "n < s" | (fit) "\<not> u" "s = n" | (skip) "u \<or> s < n" by fastforce
  then show ?case
  proof cases
    case split
    have "n + sizeof_block \<le> s"
      using split dvd Cons.prems(5) by (auto elim!: dvdE)
    from split_refines [OF _ _ this, of h base xs ys] rep split Cons.prems(2) x
    obtain h1 where h1: "split h ?b n = Inr (?b, h1)"
        "heap_rep h1 base (xs @ (n, False) # (s - n - sizeof_block, False) # ys)"
        "h_mem h1 = h_mem h" by auto
    from set_used_refines [OF h1(2), of True]
    obtain h2 where h2: "set_used h1 ?b 1 = Inr h2" "h_mem h2 = h_mem h"
        "heap_rep h2 base (xs @ (n, True) # (s - n - sizeof_block, False) # ys)"
      using h1(3) by auto
    have "kmalloc_loop h n ?b = Some (Inr (?b + sizeof_block, h2\<lparr>h_lock := False\<rparr>))"
      using mid b0 split h1(1) h2(1) b64
      by (subst kmalloc_loop.simps) (simp add: seg_block_def)
    then show ?thesis using h2 split x by simp
  next
    case fit
    from set_used_refines [OF rep, of True]
    obtain h2 where h2: "set_used h ?b 1 = Inr h2" "h_mem h2 = h_mem h"
        "heap_rep h2 base (xs @ (s, True) # ys)" by auto
    have "kmalloc_loop h n ?b = Some (Inr (?b + sizeof_block, h2\<lparr>h_lock := False\<rparr>))"
      using mid b0 fit h2(1) b64
      by (subst kmalloc_loop.simps) (simp add: seg_block_def)
    then show ?thesis using h2 fit x by simp
  next
    case skip
    have step: "kmalloc_loop h n ?b = kmalloc_loop h n nx"
      using mid b0 skip by (subst kmalloc_loop.simps) (auto simp: seg_block_def)
    have nx': "nx = (if ys = [] then 0 else segs_end base (xs @ [(s, u)]))" by (simp add: nx_def)
    have al: "alloc_seg n ?b ((s, u) # ys) =
        map_option (\<lambda>(p, ys). (p, (s, u) # ys)) (alloc_seg n (segs_end base (xs @ [(s, u)])) ys)"
      using skip by auto
    from Cons.IH [of "xs @ [(s, u)]"] Cons.prems
    show ?thesis unfolding x al step
      by (auto simp: x step nx' split: option.splits)
  qed
qed


lemma combine_refines:
  assumes rep: "heap_rep h base (xs @ (s, u) # (t, v) # ys)"
    and big: "segs_end base (xs @ (s, u) # (t, v) # ys) < 2 ^ 64" and base: "0 < base"
  shows "\<exists>h'. combine h (segs_end base xs) (segs_end base xs + sizeof_block + s) = Inr (segs_end base xs, h')
     \<and> heap_rep h' base (xs @ (s + sizeof_block + t, u) # ys) \<and> h_lock h' = h_lock h \<and> h_mem h' = h_mem h"
proof -
  define b where "b = segs_end base xs"
  define b2 where "b2 = b + sizeof_block + s"
  define e where "e = b2 + sizeof_block + t"
  define pv where "pv = segs_last 0 base xs"
  define nx where "nx = (if ys = [] then 0 else e)"
  let ?B = "h_blks h" and ?x = "seg_block pv nx (s + sizeof_block + t, u)"
  have ch: "chain ?B 0 base (xs @ (s, u) # (t, v) # ys) 0" using rep by (simp add: heap_rep_def)
  have left: "chain ?B 0 base xs b" and m1: "?B b = Some (seg_block pv b2 (s, u))"
    and m2: "?B b2 = Some (seg_block b nx (t, v))" and right: "chain ?B b2 e ys 0"
    using ch by (auto simp: chain_append b_def b2_def e_def pv_def nx_def)
  have "e < 2 ^ 64" using big segs_end_ge [of e ys] by (simp add: b_def b2_def e_def)
  then have sz: "add64 s (add64 t sizeof_block) = s + sizeof_block + t" by (simp add: e_def b2_def)
  have l1: "chain (?B(b \<mapsto> ?x)) 0 base xs b" using left by (simp add: chain_upd_out b_def)
  have r1: "chain (?B(b \<mapsto> ?x)) b2 e ys 0" using right by (simp add: chain_upd_out e_def b2_def)
  have eb: "e = b + sizeof_block + (s + sizeof_block + t)" by (simp add: e_def b2_def)
  show ?thesis
  proof (cases "ys = []")
    case True
    have "combine h b b2 = Inr (b, h\<lparr>h_blks := ?B(b \<mapsto> ?x), h_last := b\<rparr>)"
      using m1 m2 sz True by (simp add: combine_def Let_def seg_block_def nx_def)
    moreover have "heap_rep (h\<lparr>h_blks := ?B(b \<mapsto> ?x), h_last := b\<rparr>) base (xs @ (s + sizeof_block + t, u) # ys)"
      using rep l1 True by (simp add: heap_rep_def chain_append b_def pv_def nx_def)
    ultimately show ?thesis by (auto simp: b_def b2_def)
  next
    case False
    obtain nb where nb: "?B e = Some nb" using chain_next_some [OF right False] by blast
    have ne: "e \<noteq> b" "e \<noteq> 0" by (auto simp: e_def b2_def)
    let ?B2 = "?B(b \<mapsto> ?x, e \<mapsto> nb\<lparr>blk_prev := b\<rparr>)"
    have c: "combine h b b2 = Inr (b, h\<lparr>h_blks := ?B2\<rparr>)"
      using m1 m2 sz False nb ne by (simp add: combine_def Let_def seg_block_def nx_def)
    have l2: "chain ?B2 0 base xs b"
      using l1 by (subst chain_upd_out) (auto simp: e_def b2_def b_def)
    have r2: "chain ?B2 b e ys 0" using chain_upd_prev [OF r1 False, of nb b] nb ne by simp
    have mid: "?B2 b = Some ?x" using ne by simp
    have chn: "chain ?B2 0 base (xs @ (s + sizeof_block + t, u) # ys) 0"
      unfolding chain_append using l2 r2 mid False
      by (simp add: b_def [symmetric] pv_def [symmetric] nx_def eb)
    have "segs_last d a ys = segs_last d' a ys" for d d' a using False by (cases ys) auto
    then have "h_last h = segs_last 0 base (xs @ (s + sizeof_block + t, u) # ys)"
      using rep by (simp add: heap_rep_def b_def [symmetric] ac_simps)
    with chn rep have "heap_rep (h\<lparr>h_blks := ?B2\<rparr>) base (xs @ (s + sizeof_block + t, u) # ys)"
      by (simp add: heap_rep_def)
    with c show ?thesis by (auto simp: b_def b2_def)
  qed
qed

lemma segs_last_nonzero: "0 < base \<Longrightarrow> xs \<noteq> [] \<Longrightarrow> segs_last 0 base xs = segs_end base (butlast xs)"
proof (induction xs rule: rev_induct)
  case (snoc x xs)
  then show ?case by (cases x) simp
qed simp

lemma is_free_prev:
  assumes rep: "heap_rep h base (xs @ (s, u) # ys)" and base: "0 < base"
  shows "is_free h (segs_last 0 base xs) = Inr (xs \<noteq> [] \<and> \<not> snd (last xs))"
proof (cases "xs = []")
  case False
  have xs: "xs @ (s, u) # ys = butlast xs @ last xs # (s, u) # ys" using False by simp
  have ch: "chain (h_blks h) 0 base (butlast xs @ last xs # (s, u) # ys) 0"
    using rep unfolding xs by (simp add: heap_rep_def)
  have "segs_end base (butlast xs) \<noteq> 0" using base segs_end_ge [of base "butlast xs"] by simp
  then show ?thesis
    using chain_at [OF ch] False base by (simp add: is_free_def segs_last_nonzero seg_block_def)
qed (simp add: is_free_def)

lemma is_free_next:
  assumes rep: "heap_rep h base (xs @ (s, u) # ys)" and base: "0 < base"
  shows "is_free h (if ys = [] then 0 else segs_end base xs + sizeof_block + s)
     = Inr (ys \<noteq> [] \<and> \<not> snd (hd ys))"
proof (cases ys)
  case (Cons y zs)
  have ch: "chain (h_blks h) 0 base ((xs @ [(s, u)]) @ y # zs) 0"
    using rep Cons by (simp add: heap_rep_def)
  show ?thesis using chain_at [OF ch] Cons by (simp add: is_free_def seg_block_def)
qed (simp add: is_free_def)

lemma merge_hd_used [simp]: "snd x \<Longrightarrow> merge_hd (x # ys) = x # ys"
  by (cases x) simp

lemma merge_hd_next_used: "ys = [] \<or> snd (hd ys) \<Longrightarrow> merge_hd (x # ys) = x # ys"
  by (cases x; cases ys) auto

lemma merge_prev_refines:
  assumes rep: "heap_rep h base (xs @ (s, u) # ys)" and base: "0 < base"
    and big: "segs_end base (xs @ (s, u) # ys) < 2 ^ 64"
  shows "\<exists>h' zs t v. merge_prev h (segs_end base xs) = Inr (segs_end base zs, h')
     \<and> heap_rep h' base (zs @ (t, v) # ys) \<and> h_lock h' = h_lock h \<and> h_mem h' = h_mem h
     \<and> (if xs \<noteq> [] \<and> \<not> snd (last xs)
        then zs = butlast xs \<and> t = fst (last xs) + sizeof_block + s \<and> v = False
        else zs = xs \<and> t = s \<and> v = u)"
proof -
  have ch: "chain (h_blks h) 0 base (xs @ (s, u) # ys) 0" using rep by (simp add: heap_rep_def)
  note mid = chain_at [OF ch] and fr = is_free_prev [OF rep base]
  show ?thesis
  proof (cases "xs \<noteq> [] \<and> \<not> snd (last xs)")
    case True
    obtain r where r: "last xs = (r, False)" using True by (cases "last xs") auto
    have xs: "xs = butlast xs @ [(r, False)]" using True r by (metis append_butlast_last_id)
    have "heap_rep h base (butlast xs @ (r, False) # (s, u) # ys)"
      using rep by (subst (asm) xs) simp
    moreover have "segs_end base (butlast xs @ (r, False) # (s, u) # ys) < 2 ^ 64"
      using big by (subst (asm) xs) simp
    ultimately obtain h' where h': "combine h (segs_end base (butlast xs))
        (segs_end base (butlast xs) + sizeof_block + r) = Inr (segs_end base (butlast xs), h')"
      "heap_rep h' base (butlast xs @ (r + sizeof_block + s, False) # ys)"
      "h_lock h' = h_lock h" "h_mem h' = h_mem h"
      using combine_refines [of h base "butlast xs" r False s u ys] base by blast
    have e: "segs_end base xs = segs_end base (butlast xs) + sizeof_block + r"
      by (subst xs) simp
    have "merge_prev h (segs_end base xs) = Inr (segs_end base (butlast xs), h')"
      using mid fr True h'(1) base by (simp add: merge_prev_def seg_block_def e [symmetric] segs_last_nonzero)
    with h' True r show ?thesis by auto
  next
    case False
    then have "merge_prev h (segs_end base xs) = Inr (segs_end base xs, h)"
      using mid fr by (auto simp: merge_prev_def seg_block_def)
    with rep False show ?thesis by auto
  qed
qed

lemma merge_next_refines:
  assumes rep: "heap_rep h base (xs @ (s, False) # ys)" and base: "0 < base"
    and big: "segs_end base (xs @ (s, False) # ys) < 2 ^ 64"
  shows "\<exists>h' b. merge_next h (segs_end base xs) = Inr (b, h')
     \<and> heap_rep h' base (xs @ merge_hd ((s, False) # ys)) \<and> h_lock h' = h_lock h \<and> h_mem h' = h_mem h"
proof -
  have ch: "chain (h_blks h) 0 base (xs @ (s, False) # ys) 0" using rep by (simp add: heap_rep_def)
  note mid = chain_at [OF ch] and fr = is_free_next [OF rep base]
  show ?thesis
  proof (cases "ys \<noteq> [] \<and> \<not> snd (hd ys)")
    case True
    then obtain t zs where ys: "ys = (t, False) # zs" by (cases ys) auto
    obtain h' where "combine h (segs_end base xs) (segs_end base xs + sizeof_block + s) = Inr (segs_end base xs, h')"
      "heap_rep h' base (xs @ (s + sizeof_block + t, False) # zs)" "h_lock h' = h_lock h" "h_mem h' = h_mem h"
      using combine_refines [of h base xs s False t False zs] rep big base ys by auto
    then show ?thesis using mid fr True ys by (auto simp: merge_next_def seg_block_def)
  next
    case False
    then have "merge_next h (segs_end base xs) = Inr (segs_end base xs, h)"
      using mid fr by (auto simp: merge_next_def seg_block_def)
    moreover have "merge_hd ((s, False) # ys) = (s, False) # ys"
      by (rule merge_hd_next_used) (use False in auto)
    ultimately show ?thesis using rep by auto
  qed
qed


lemma merge_hd_assoc:
  "merge_hd ((r, False) # merge_hd ((s, False) # ys)) = merge_hd ((r + sizeof_block + s, False) # ys)"
proof (cases ys)
  case (Cons y zs)
  then show ?thesis by (cases y; cases "snd y") auto
qed simp

lemma no_free_pair_append:
  "no_free_pair (xs @ ys) \<longleftrightarrow> no_free_pair xs \<and> no_free_pair ys
     \<and> (xs = [] \<or> ys = [] \<or> snd (last xs) \<or> snd (hd ys))"
proof (induction xs)
  case (Cons x xs)
  then show ?case by (cases xs; cases ys) auto
qed simp

lemma no_free_pair_Cons:
  "no_free_pair (x # ys) \<longleftrightarrow> no_free_pair ys \<and> (ys = [] \<or> snd x \<or> snd (hd ys))"
  by (cases ys) auto

lemma no_free_pair_merge_hd:
  "no_free_pair ys \<Longrightarrow> no_free_pair (merge_hd ((s, False) # ys))"
proof (cases ys)
  case (Cons y zs)
  moreover assume "no_free_pair ys"
  ultimately show ?thesis by (cases y; cases "snd y") (auto simp: no_free_pair_Cons)
qed simp

lemma hd_merge_hd [simp]: "snd (hd (merge_hd ((s, u) # ys))) = u"
  by (cases "(s, u) # ys" rule: merge_hd.cases) auto

lemma free_seg_freed:
  assumes "no_free_pair (xs @ (s, True) # ys)"
  shows "free_seg (segs_end a xs + sizeof_block) a (xs @ (s, True) # ys) = Some (freed xs s ys)"
  using assms
proof (induction xs arbitrary: a)
  case Nil
  then show ?case by (simp add: freed_def)
next
  case (Cons x xs)
  obtain r u where x: "x = (r, u)" by (cases x)
  have ne: "segs_end (a + sizeof_block + r) xs \<noteq> a"
    using segs_end_ge [of "a + sizeof_block + r" xs] by simp
  have IH: "free_seg (segs_end (a + sizeof_block + r) xs + sizeof_block) (a + sizeof_block + r)
      (xs @ (s, True) # ys) = Some (freed xs s ys)"
    using Cons.prems x by (intro Cons.IH) (auto simp: no_free_pair_append no_free_pair_Cons)
  have "merge_hd (x # freed xs s ys) = freed (x # xs) s ys"
  proof (cases "xs = []")
    case True
    then show ?thesis by (auto simp: freed_def)
  next
    case False
    have "snd x \<or> snd (hd (freed xs s ys))"
    proof (cases "snd x")
      case False
      then have h: "snd (hd xs)" using Cons.prems \<open>xs \<noteq> []\<close>
        by (cases xs) (auto simp: no_free_pair_Cons no_free_pair_append)
      have "butlast xs \<noteq> [] \<or> snd (last xs)"
        using h \<open>xs \<noteq> []\<close> by (cases xs rule: rev_cases) auto
      then show ?thesis using h \<open>xs \<noteq> []\<close>
        by (cases xs) (auto simp: freed_def)
    qed simp
    moreover have "freed (x # xs) s ys = x # freed xs s ys" using False by (simp add: freed_def)
    moreover have "freed xs s ys \<noteq> []" using False by (cases xs) (auto simp: freed_def elim: merge_hd.elims)
    ultimately show ?thesis by (auto simp: merge_hd_next_used)
  qed
  then show ?case using IH ne by (simp add: x)
qed

lemma kfree_refines_at:
  assumes rep: "heap_rep h base (xs @ (s, True) # ys)" and wf: "segs_wf base (xs @ (s, True) # ys)"
    and lock: "\<not> h_lock h"
  shows "\<exists>h'. kfree h (segs_end base xs + sizeof_block) = Some (Inr h')
     \<and> heap_rep h' base (freed xs s ys) \<and> \<not> h_lock h' \<and> h_mem h' = h_mem h"
proof -
  let ?b = "segs_end base xs"
  have base: "0 < base" and big: "segs_end base (xs @ (s, True) # ys) < 2 ^ 64"
    using wf by (auto simp: segs_wf_def)
  have b: "sub64 (?b + sizeof_block) sizeof_block = ?b"
    using big segs_end_ge [of "?b + sizeof_block + s" ys] by (subst sub64_small) auto
  have rep0: "heap_rep (h\<lparr>h_lock := True\<rparr>) base (xs @ (s, True) # ys)" using rep by simp
  obtain h1 where h1: "set_used (h\<lparr>h_lock := True\<rparr>) ?b 0 = Inr h1" "h_mem h1 = h_mem h"
      "heap_rep h1 base (xs @ (s, False) # ys)"
    using set_used_refines [OF rep0, of False] by auto
  have big1: "segs_end base (xs @ (s, False) # ys) < 2 ^ 64" using big by simp
  obtain h2 zs t where h2: "merge_prev h1 ?b = Inr (segs_end base zs, h2)"
      "heap_rep h2 base (zs @ (t, False) # ys)" "h_mem h2 = h_mem h1"
    and zt: "if xs \<noteq> [] \<and> \<not> snd (last xs) then zs = butlast xs \<and> t = fst (last xs) + sizeof_block + s
       else zs = xs \<and> t = s"
    using merge_prev_refines [OF h1(3) base big1] by (auto split: if_splits)
  have "segs_end base (zs @ (t, False) # ys) = segs_end base (xs @ (s, False) # ys)"
  proof (cases "xs \<noteq> [] \<and> \<not> snd (last xs)")
    case True
    then have "xs = butlast xs @ [(fst (last xs), snd (last xs))]"
      by (metis append_butlast_last_id prod.collapse)
    then have "segs_end base xs = segs_end base (butlast xs) + sizeof_block + fst (last xs)"
      by (metis segs_end_append segs_end.simps)
    then show ?thesis using zt True by (simp add: ac_simps)
  qed (use zt in auto)
  with big1 have big2: "segs_end base (zs @ (t, False) # ys) < 2 ^ 64" by simp
  obtain h3 b3 where h3: "merge_next h2 (segs_end base zs) = Inr (b3, h3)"
      "heap_rep h3 base (zs @ merge_hd ((t, False) # ys))" "h_mem h3 = h_mem h2"
    using merge_next_refines [OF h2(2) base big2] by auto
  have "zs @ merge_hd ((t, False) # ys) = freed xs s ys"
  proof (cases "xs \<noteq> [] \<and> \<not> snd (last xs)")
    case True
    then obtain r where "last xs = (r, False)" by (cases "last xs") auto
    then show ?thesis using zt True by (simp add: freed_def merge_hd_assoc)
  qed (use zt in \<open>auto simp: freed_def\<close>)
  moreover have "kfree h (?b + sizeof_block) = Some (Inr (h3\<lparr>h_lock := False\<rparr>))"
    using lock b h1(1) h2(1) h3(1) by (simp add: kfree_def)
  ultimately show ?thesis using h3 h2(3) h1(2) by auto
qed


lemma used_blocks_append [simp]:
  "used_blocks a (xs @ ys) = used_blocks a xs @ used_blocks (segs_end a xs) ys"
  by (induction a xs rule: used_blocks.induct) auto

lemma used_blocks_bounds:
  "(q, t) \<in> set (used_blocks a xs) \<Longrightarrow> a + sizeof_block \<le> q \<and> q + t \<le> segs_end a xs"
proof (induction a xs rule: used_blocks.induct)
  case (2 a s u xs)
  then show ?case using segs_end_ge [of "a + sizeof_block + s" xs] by (auto split: if_splits)
qed simp

lemma used_blocks_split:
  "(p, s) \<in> set (used_blocks a xs) \<Longrightarrow>
     \<exists>l r. xs = l @ (s, True) # r \<and> p = segs_end a l + sizeof_block"
proof (induction a xs rule: used_blocks.induct)
  case (2 a t u xs)
  show ?case
  proof (cases "u \<and> (p, s) = (a + sizeof_block, t)")
    case True
    then show ?thesis by (intro exI [of _ "[]"] exI [of _ xs]) auto
  next
    case False
    with "2.prems" have "(p, s) \<in> set (used_blocks (a + sizeof_block + t) xs)" by (auto split: if_splits)
    with "2.IH" obtain l r where "xs = l @ (s, True) # r" "p = segs_end (a + sizeof_block + t) l + sizeof_block"
      by blast
    then show ?thesis by (intro exI [of _ "(t, u) # l"] exI [of _ r]) auto
  qed
qed simp

lemma used_blocks_merge_hd [simp]: "used_blocks a (merge_hd xs) = used_blocks a xs"
  by (cases xs rule: merge_hd.cases) (auto simp: ac_simps)

lemma segs_end_merge_hd [simp]: "segs_end a (merge_hd xs) = segs_end a xs"
  by (cases xs rule: merge_hd.cases) (auto simp: ac_simps)

lemma dvd_merge_hd:
  "list_all (\<lambda>x. 32 dvd fst x) xs \<Longrightarrow> list_all (\<lambda>x. 32 dvd fst x) (merge_hd xs)"
  by (cases xs rule: merge_hd.cases) auto

lemma merge_hd_Nil [simp]: "merge_hd xs = [] \<longleftrightarrow> xs = []"
  by (cases xs rule: merge_hd.cases) auto

lemma alloc_seg_split:
  assumes "alloc_seg n a xs = Some (p, ys)"
  shows "\<exists>l s r. xs = l @ (s, False) # r \<and> p = segs_end a l + sizeof_block
     \<and> (\<forall>(t, u) \<in> set l. u \<or> t < n)
     \<and> (n < s \<and> ys = l @ (n, True) # (s - n - sizeof_block, False) # r
        \<or> s = n \<and> ys = l @ (s, True) # r)"
  using assms
proof (induction n a xs arbitrary: ys rule: alloc_seg.induct)
  case (2 n a t u xs)
  consider (split) "\<not> u" "n < t" | (fit) "\<not> u" "t = n" | (skip) "u \<or> t < n" by fastforce
  then show ?case
  proof cases
    case split
    then show ?thesis using "2.prems" by (intro exI [of _ "[]"] exI [of _ t] exI [of _ xs]) simp
  next
    case fit
    then show ?thesis using "2.prems" by (intro exI [of _ "[]"] exI [of _ t] exI [of _ xs]) simp
  next
    case skip
    have c: "\<not> (\<not> u \<and> n < t)" "\<not> (\<not> u \<and> t = n)" using skip by auto
    from "2.prems" c obtain zs where zs: "alloc_seg n (a + sizeof_block + t) xs = Some (p, zs)"
        "ys = (t, u) # zs"
      unfolding alloc_seg.simps by (simp only: if_False) (auto simp: map_option_case split: option.splits)
    from "2.IH" [OF c zs(1)] obtain l s r where
      "xs = l @ (s, False) # r" "p = segs_end (a + sizeof_block + t) l + sizeof_block"
      "\<forall>(t, u) \<in> set l. u \<or> t < n"
      "n < s \<and> zs = l @ (n, True) # (s - n - sizeof_block, False) # r \<or> s = n \<and> zs = l @ (s, True) # r"
      by blast
    then show ?thesis using skip zs(2)
      by (intro exI [of _ "(t, u) # l"] exI [of _ s] exI [of _ r]) simp
  qed
qed simp

lemma dvd_gap: "32 dvd (n::nat) \<Longrightarrow> 32 dvd s \<Longrightarrow> n < s \<Longrightarrow> n + 32 \<le> s"
  by (auto elim!: dvdE)

lemma alloc_seg_end:
  assumes wf: "segs_wf base xs" and n: "32 dvd n" and al: "alloc_seg n base xs = Some (p, ys)"
  shows "segs_end base ys = segs_end base xs"
proof -
  obtain l s r where xs: "xs = l @ (s, False) # r" and ys:
    "n < s \<and> ys = l @ (n, True) # (s - n - sizeof_block, False) # r \<or> s = n \<and> ys = l @ (s, True) # r"
    using alloc_seg_split [OF al] by blast
  have "32 dvd s" using wf xs by (simp add: segs_wf_def)
  then have gap: "n < s \<Longrightarrow> n + 32 \<le> s" using dvd_gap n by blast
  from ys show ?thesis
  proof
    assume a: "n < s \<and> ys = l @ (n, True) # (s - n - sizeof_block, False) # r"
    then have "segs_end base l + sizeof_block + n + sizeof_block + (s - n - sizeof_block)
        = segs_end base l + sizeof_block + s" using gap by simp
    with a show ?thesis by (simp add: xs ac_simps)
  qed (simp add: xs)
qed

lemma alloc_seg_wf:
  assumes wf: "segs_wf base xs" and n: "32 dvd n" and al: "alloc_seg n base xs = Some (p, ys)"
  shows "segs_wf base ys"
proof -
  obtain l s r where xs: "xs = l @ (s, False) # r" and ys:
    "n < s \<and> ys = l @ (n, True) # (s - n - sizeof_block, False) # r \<or> s = n \<and> ys = l @ (s, True) # r"
    using alloc_seg_split [OF al] by blast
  have ends: "segs_end base ys = segs_end base xs" by (rule alloc_seg_end [OF wf n al])
  have "32 dvd s" using wf xs by (simp add: segs_wf_def)
  then have "n < s \<Longrightarrow> 32 dvd s - n - sizeof_block" using \<open>32 dvd s\<close> n by simp
  note dvd = this
  from ys show ?thesis
  proof
    assume a: "n < s \<and> ys = l @ (n, True) # (s - n - sizeof_block, False) # r"
    with wf n dvd ends show ?thesis
      by (simp add: xs segs_wf_def no_free_pair_append no_free_pair_Cons)
  next
    assume "s = n \<and> ys = l @ (s, True) # r"
    with wf show ?thesis by (simp add: xs segs_wf_def no_free_pair_append no_free_pair_Cons)
  qed
qed

lemma alloc_seg_used:
  assumes wf: "segs_wf base xs" and n: "32 dvd n" and al: "alloc_seg n base xs = Some (p, ys)"
  shows "set (used_blocks base ys) = insert (p, n) (set (used_blocks base xs))"
    and "\<And>q t. (q, t) \<in> set (used_blocks base xs) \<Longrightarrow> q + t + sizeof_block \<le> p \<or> p + n + sizeof_block \<le> q"
    and "base + sizeof_block \<le> p \<and> p + n \<le> segs_end base xs"
proof -
  obtain l s r where xs: "xs = l @ (s, False) # r" and p: "p = segs_end base l + sizeof_block" and ys:
    "n < s \<and> ys = l @ (n, True) # (s - n - sizeof_block, False) # r \<or> s = n \<and> ys = l @ (s, True) # r"
    using alloc_seg_split [OF al] by blast
  have "32 dvd s" using wf xs by (simp add: segs_wf_def)
  then have gap: "n < s \<Longrightarrow> n + 32 \<le> s" using dvd_gap n by blast
  have nle: "n \<le> s" using ys by auto
  show "set (used_blocks base ys) = insert (p, n) (set (used_blocks base xs))"
    using ys
  proof
    assume a: "n < s \<and> ys = l @ (n, True) # (s - n - sizeof_block, False) # r"
    then have "segs_end base l + sizeof_block + n + sizeof_block + (s - n - sizeof_block)
        = segs_end base l + sizeof_block + s" using gap by simp
    with a show ?thesis by (simp add: xs p ac_simps)
  next
    assume "s = n \<and> ys = l @ (s, True) # r"
    then show ?thesis by (simp add: xs p)
  qed
  show "q + t + sizeof_block \<le> p \<or> p + n + sizeof_block \<le> q" if "(q, t) \<in> set (used_blocks base xs)" for q t
  proof -
    from that xs consider "(q, t) \<in> set (used_blocks base l)"
      | "(q, t) \<in> set (used_blocks (segs_end base l + sizeof_block + s) r)" by auto
    then show ?thesis
    proof cases
      case 1
      from used_blocks_bounds [OF this] show ?thesis by (simp add: p)
    next
      case 2
      from used_blocks_bounds [OF this] nle show ?thesis by (simp add: p)
    qed
  qed
  show "base + sizeof_block \<le> p \<and> p + n \<le> segs_end base xs"
    using segs_end_ge [of base l] segs_end_ge [of "segs_end base l + sizeof_block + s" r] ys
    by (auto simp: p xs)
qed


lemma used_blocks_freed [simp]:
  "used_blocks a (freed xs s ys) = used_blocks a (xs @ (s, False) # ys)"
proof (cases "xs \<noteq> [] \<and> \<not> snd (last xs)")
  case True
  then have "used_blocks a (freed xs s ys) = used_blocks a (butlast xs @ last xs # (s, False) # ys)"
    by (cases "last xs") (simp add: freed_def)
  moreover have "xs @ (s, False) # ys = butlast xs @ last xs # (s, False) # ys" using True by simp
  ultimately show ?thesis by (simp only:)
next
  case False
  then have "freed xs s ys = xs @ merge_hd ((s, False) # ys)" by (auto simp: freed_def)
  then show ?thesis by simp
qed

lemma segs_end_freed [simp]: "segs_end a (freed xs s ys) = segs_end a (xs @ (s, False) # ys)"
proof (cases "xs \<noteq> [] \<and> \<not> snd (last xs)")
  case True
  then have "segs_end a (freed xs s ys) = segs_end a (butlast xs @ last xs # (s, False) # ys)"
    by (cases "last xs") (simp add: freed_def)
  moreover have "xs @ (s, False) # ys = butlast xs @ last xs # (s, False) # ys" using True by simp
  ultimately show ?thesis by (simp only:)
next
  case False
  then have "freed xs s ys = xs @ merge_hd ((s, False) # ys)" by (auto simp: freed_def)
  then show ?thesis by simp
qed

lemma freed_wf:
  assumes "segs_wf base (xs @ (s, u) # ys)"
  shows "segs_wf base (freed xs s ys)"
proof -
  have m: "no_free_pair (merge_hd ((s, False) # ys))" and ends: "segs_end base (freed xs s ys) < 2 ^ 64"
    and d: "list_all (\<lambda>x. 32 dvd fst x) xs" "list_all (\<lambda>x. 32 dvd fst x) ((s, False) # ys)"
    and nx: "no_free_pair xs" and b: "0 < base"
    using assms by (auto simp: segs_wf_def no_free_pair_append no_free_pair_Cons intro: no_free_pair_merge_hd)
  note dm = dvd_merge_hd [OF d(2)]
  show ?thesis
  proof (cases "xs \<noteq> [] \<and> \<not> snd (last xs)")
    case True
    then obtain r where r: "last xs = (r, False)" by (cases "last xs") auto
    have xs: "xs = butlast xs @ [(r, False)]" using True r by (metis append_butlast_last_id)
    have f: "freed xs s ys = butlast xs @ merge_hd ((r + sizeof_block + s, False) # ys)"
      using True r by (simp add: freed_def merge_hd_assoc)
    have nb: "no_free_pair (butlast xs)" "butlast xs = [] \<or> snd (last (butlast xs))"
      using nx by (subst (asm) xs, simp add: no_free_pair_append)+
    have db: "list_all (\<lambda>x. 32 dvd fst x) (butlast xs)" "32 dvd r"
      using d(1) by (subst (asm) xs, simp)+
    have "no_free_pair (merge_hd ((r + sizeof_block + s, False) # ys))"
      using assms by (intro no_free_pair_merge_hd) (auto simp: segs_wf_def no_free_pair_append no_free_pair_Cons)
    moreover have "list_all (\<lambda>x. 32 dvd fst x) (merge_hd ((r + sizeof_block + s, False) # ys))"
      using d db by (intro dvd_merge_hd) simp
    ultimately show ?thesis using b nb db ends unfolding segs_wf_def f
      by (simp add: no_free_pair_append)
  next
    case False
    then have f: "freed xs s ys = xs @ merge_hd ((s, False) # ys)" by (auto simp: freed_def)
    show ?thesis using b m dm d nx ends False unfolding segs_wf_def f
      by (auto simp: no_free_pair_append)
  qed
qed

subsection \<open>The allocator's contract\<close>

lemma chain_unique:
  "chain B pv a xs 0 \<Longrightarrow> chain B pv a ys 0 \<Longrightarrow> xs \<noteq> [] \<Longrightarrow> ys \<noteq> [] \<Longrightarrow> xs = ys"
proof (induction xs arbitrary: pv a ys)
  case (Cons x xs)
  obtain s u where x: "x = (s, u)" by (cases x)
  obtain t v zs where ys: "ys = (t, v) # zs" using Cons.prems(4) by (cases ys) auto
  have eq: "seg_block pv (if xs = [] then 0 else a + sizeof_block + s) (s, u)
      = seg_block pv (if zs = [] then 0 else a + sizeof_block + t) (t, v)"
    using Cons.prems by (simp add: x ys)
  then have st: "s = t" "u = v" "xs = [] \<longleftrightarrow> zs = []"
    by (auto simp: seg_block_def split: if_splits)
  show ?case
  proof (cases "xs = []")
    case True
    then show ?thesis using st by (simp add: x ys)
  next
    case False
    have "xs = zs"
      by (rule Cons.IH [of a "a + sizeof_block + s"]) (use Cons.prems st False in \<open>simp_all add: x ys\<close>)
    then show ?thesis using st by (simp add: x ys)
  qed
qed simp

lemma heap_rep_unique:
  "heap_rep h base xs \<Longrightarrow> segs_wf base xs \<Longrightarrow> heap_rep h base' ys \<Longrightarrow> segs_wf base' ys
     \<Longrightarrow> base' = base \<and> ys = xs"
  by (auto simp: heap_rep_def segs_wf_def intro: chain_unique)

lemma live_eq: "heap_rep h base xs \<Longrightarrow> segs_wf base xs \<Longrightarrow> live h = set (used_blocks base xs)"
  unfolding live_def by (auto dest: heap_rep_unique)

lemma round32_props:
  assumes "0 < n" "n \<le> 2 ^ 64 - 32"
  shows "32 dvd round32 n" "n \<le> round32 n" "round32 n < n + 32"
proof -
  have m: "n mod 32 < 32" by simp
  have "n + (32 - n mod 32) = 32 * (n div 32) + 32"
    using mult_div_mod_eq [of 32 n] m by linarith
  moreover have "n + (32 - n mod 32) < 2 ^ 64" if "n mod 32 \<noteq> 0"
    using assms that by linarith
  ultimately have r: "round32 n = (if n mod 32 = 0 then n else 32 * (n div 32) + 32)"
    by (auto simp: round32_def)
  show "32 dvd round32 n" unfolding r by (auto simp: mod_eq_0_iff_dvd)
  have "round32 n = n \<or> round32 n = 32 * (n div 32) + 32 \<and> 0 < n mod 32" by (simp add: r)
  then show "n \<le> round32 n" "round32 n < n + 32"
    using mult_div_mod_eq [of 32 n] m by linarith+
qed

lemma kmalloc_refines:
  assumes rep: "heap_rep h base xs" and wf: "segs_wf base xs" and lock: "\<not> h_lock h"
    and n: "0 < n" "n \<le> 2 ^ 64 - 32"
  shows "case alloc_seg (round32 n) base xs of
      None \<Rightarrow> kmalloc h n = Some (Inl InvalidOpcode)
    | Some (p, ys) \<Rightarrow> \<exists>h'. kmalloc h n = Some (Inr (p, h')) \<and> heap_rep h' base ys
        \<and> \<not> h_lock h' \<and> h_mem h' = h_mem h"
proof -
  have r: "heap_rep (h\<lparr>h_lock := True\<rparr>) base ([] @ xs)" using rep by simp
  have w: "segs_end base ([] @ xs) < 2 ^ 64" "0 < base" "list_all (\<lambda>x. 32 dvd fst x) xs" "xs \<noteq> []"
    using wf by (simp_all add: segs_wf_def)
  from kmalloc_loop_refines [OF r w(1-3) round32_props(1) [OF n]] w(4)
  have "case alloc_seg (round32 n) base xs of
      None \<Rightarrow> kmalloc_loop (h\<lparr>h_lock := True\<rparr>) (round32 n) base = Some (Inl InvalidOpcode)
    | Some (p, ys) \<Rightarrow> \<exists>h'. kmalloc_loop (h\<lparr>h_lock := True\<rparr>) (round32 n) base = Some (Inr (p, h'))
        \<and> heap_rep h' base ys \<and> \<not> h_lock h' \<and> h_mem h' = h_mem h"
    by (cases "alloc_seg (round32 n) base xs") (simp_all split: prod.splits)
  moreover have "kmalloc h n = kmalloc_loop (h\<lparr>h_lock := True\<rparr>) (round32 n) base"
    using n lock rep by (simp add: kmalloc_def heap_rep_def)
  ultimately show ?thesis
    by (cases "alloc_seg (round32 n) base xs") (simp_all split: prod.splits)
qed

lemma kfree_refines:
  assumes rep: "heap_rep h base xs" and wf: "segs_wf base xs" and lock: "\<not> h_lock h"
    and p: "(p, s) \<in> set (used_blocks base xs)"
  shows "\<exists>h' ys. kfree h p = Some (Inr h') \<and> free_seg p base xs = Some ys
     \<and> heap_rep h' base ys \<and> segs_wf base ys \<and> segs_end base ys = segs_end base xs
     \<and> set (used_blocks base ys) = set (used_blocks base xs) - {(p, s)}
     \<and> p \<notin> fst ` set (used_blocks base ys) \<and> \<not> h_lock h' \<and> h_mem h' = h_mem h"
proof -
  obtain l r where xs: "xs = l @ (s, True) # r" and pl: "p = segs_end base l + sizeof_block"
    using used_blocks_split [OF p] by blast
  obtain h' where h': "kfree h p = Some (Inr h')" "heap_rep h' base (freed l s r)"
      "\<not> h_lock h'" "h_mem h' = h_mem h"
    using kfree_refines_at [of h base l s r] rep wf lock unfolding xs pl by blast
  have fr: "free_seg p base xs = Some (freed l s r)"
    unfolding xs pl using wf by (intro free_seg_freed) (simp add: segs_wf_def xs)
  have wf': "segs_wf base (freed l s r)" using wf unfolding xs by (rule freed_wf)
  have nin: "p \<notin> fst ` set (used_blocks base l)" "p \<notin> fst ` set (used_blocks (segs_end base l + sizeof_block + s) r)"
    using used_blocks_bounds unfolding pl by fastforce+
  then have "set (used_blocks base (freed l s r)) = set (used_blocks base xs) - {(p, s)}"
    unfolding xs by (auto simp: pl image_iff)
  moreover have "p \<notin> fst ` set (used_blocks base (freed l s r))" using nin by (auto simp: image_Un)
  moreover have "segs_end base (freed l s r) = segs_end base xs" by (simp add: xs)
  ultimately show ?thesis using h' fr wf' by blast
qed


lemma kmalloc_sound:
  assumes inv: "heap_inv h" and n: "0 < n" "n \<le> 2 ^ 64 - 32"
    and ret: "kmalloc h n = Some (Inr (p, h'))"
  shows "heap_inv h'" "live h' = insert (p, round32 n) (live h)" "h_mem h' = h_mem h" "0 < p"
    and "\<And>q t. (q, t) \<in> live h \<Longrightarrow> q + t \<le> p \<or> p + round32 n \<le> q"
    and "p \<notin> fst ` live h"
proof -
  obtain base xs where rep: "heap_rep h base xs" and wf: "segs_wf base xs" and lock: "\<not> h_lock h"
    using inv by (auto simp: heap_inv_def)
  note live = live_eq [OF rep wf] and d = round32_props(1) [OF n]
  obtain ys where al: "alloc_seg (round32 n) base xs = Some (p, ys)"
    and h': "heap_rep h' base ys" "\<not> h_lock h'" "h_mem h' = h_mem h"
    using kmalloc_refines [OF rep wf lock n] ret
    by (cases "alloc_seg (round32 n) base xs") (auto split: prod.splits)
  note wf' = alloc_seg_wf [OF wf d al] and used = alloc_seg_used [OF wf d al]
  show "heap_inv h'" using h' wf' by (auto simp: heap_inv_def)
  show "live h' = insert (p, round32 n) (live h)"
    using used(1) by (simp add: live live_eq [OF h'(1) wf'])
  show "h_mem h' = h_mem h" by (rule h'(3))
  show "0 < p" using used(3) by linarith
  show sep: "q + t \<le> p \<or> p + round32 n \<le> q" if "(q, t) \<in> live h" for q t
    using used(2) [of q t] that by (auto simp: live)
  show "p \<notin> fst ` live h"
  proof
    assume "p \<in> fst ` live h"
    then obtain t where "(p, t) \<in> live h" by auto
    with used(2) [of p t] show False by (simp add: live)
  qed
qed

lemma kfree_sound:
  assumes inv: "heap_inv h" and p: "(p, s) \<in> live h"
  shows "\<exists>h'. kfree h p = Some (Inr h') \<and> heap_inv h' \<and> live h' = live h - {(p, s)}
     \<and> p \<notin> fst ` live h' \<and> h_mem h' = h_mem h"
proof -
  obtain base xs where rep: "heap_rep h base xs" and wf: "segs_wf base xs" and lock: "\<not> h_lock h"
    using inv by (auto simp: heap_inv_def)
  note live = live_eq [OF rep wf]
  obtain h' ys where h': "kfree h p = Some (Inr h')" "heap_rep h' base ys" "segs_wf base ys"
      "set (used_blocks base ys) = set (used_blocks base xs) - {(p, s)}"
      "p \<notin> fst ` set (used_blocks base ys)" "\<not> h_lock h'" "h_mem h' = h_mem h"
    using kfree_refines [OF rep wf lock] p live by blast
  then show ?thesis using live live_eq [OF h'(2,3)] by (auto simp: heap_inv_def)
qed

lemma kmalloc_total:
  assumes inv: "heap_inv h" and n: "0 < n" "n \<le> 2 ^ 64 - 32"
  shows "kmalloc h n = Some (Inl InvalidOpcode) \<or> (\<exists>p h'. kmalloc h n = Some (Inr (p, h')))"
proof -
  obtain base xs where rep: "heap_rep h base xs" and wf: "segs_wf base xs" and lock: "\<not> h_lock h"
    using inv by (auto simp: heap_inv_def)
  show ?thesis using kmalloc_refines [OF rep wf lock n]
    by (cases "alloc_seg (round32 n) base xs") (auto split: prod.splits)
qed

lemma heap_check_loop_ok:
  assumes "heap_rep h base (xs @ ys)" "0xffffffffc0000000 \<le> base"
    and "list_all (\<lambda>x. fst x \<le> 0x10000000) ys"
  shows "heap_check_loop h (if ys = [] then 0 else segs_end base xs) = Some (Inr ())"
  using assms
proof (induction ys arbitrary: xs)
  case Nil
  then show ?case by (simp add: heap_check_loop.simps)
next
  case (Cons y ys)
  obtain s u where y: "y = (s, u)" by (cases y)
  let ?b = "segs_end base xs"
  have b: "base \<le> ?b" by (rule segs_end_ge)
  have ch: "chain (h_blks h) 0 base (xs @ (s, u) # ys) 0"
    using Cons.prems(1) by (simp add: heap_rep_def y)
  have lst: "ys = [] \<Longrightarrow> h_last h = ?b" and fst: "h_first h = base"
    using Cons.prems(1) by (auto simp: heap_rep_def y)
  have pv: "?b \<noteq> base \<Longrightarrow> base \<le> segs_last 0 base xs"
    using Cons.prems(2) segs_end_ge [of base "butlast xs"] by (cases "xs = []") (simp_all add: segs_last_nonzero)
  have IH: "heap_check_loop h (if ys = [] then 0 else ?b + sizeof_block + s) = Some (Inr ())"
    using Cons.IH [of "xs @ [y]"] Cons.prems by (simp add: y split: if_splits)
  show ?case using chain_at [OF ch] b lst fst pv IH Cons.prems(2,3)
    by (subst heap_check_loop.simps) (auto simp: seg_block_def y)
qed

lemma heap_setup_rep:
  assumes "0 < start"
  shows "heap_rep (heap_setup h start) start [(HEAP_PAGES * 4096, False)]"
  using assms by (simp add: heap_rep_def heap_setup_def seg_block_def)


lemma seg_size_le: "x \<in> set xs \<Longrightarrow> a + sizeof_block + fst x \<le> segs_end a xs"
proof (induction a xs rule: segs_end.induct)
  case (2 a s u xs)
  then show ?case using segs_end_ge [of "a + sizeof_block + s" xs] by auto
qed simp

lemma heap_reach_rep:
  assumes st: "0xffffffffc0000000 \<le> start" "start + sizeof_block + HEAP_PAGES * 4096 < 2 ^ 64"
    and lock: "\<not> h_lock h0" and reach: "heap_reach (heap_setup h0 start) h"
  shows "\<not> h_lock h \<and> (\<exists>xs. heap_rep h start xs \<and> segs_wf start xs
     \<and> segs_end start xs = start + sizeof_block + HEAP_PAGES * 4096)"
  using reach
proof (induction rule: heap_reach.induct)
  case start
  have "heap_rep (heap_setup h0 start) start [(HEAP_PAGES * 4096, False)]"
    using st by (intro heap_setup_rep) simp
  then show ?case using st lock
    by (intro conjI exI [of _ "[(HEAP_PAGES * 4096, False)]"]) (simp_all add: segs_wf_def heap_setup_def)
next
  case (malloc h n p h')
  then obtain xs where xs: "heap_rep h start xs" "segs_wf start xs" "\<not> h_lock h"
    "segs_end start xs = start + sizeof_block + HEAP_PAGES * 4096" by blast
  note d = round32_props(1) [OF malloc.hyps(2,3)]
  obtain ys where al: "alloc_seg (round32 n) start xs = Some (p, ys)"
    and h': "heap_rep h' start ys" "\<not> h_lock h'"
    using kmalloc_refines [OF xs(1-3) malloc.hyps(2,3)] malloc.hyps(4)
    by (cases "alloc_seg (round32 n) start xs") (auto split: prod.splits)
  then show ?case using alloc_seg_wf [OF xs(2) d al] alloc_seg_end [OF xs(2) d al] xs(4) by auto
next
  case (free h p s h')
  then obtain xs where xs: "heap_rep h start xs" "segs_wf start xs" "\<not> h_lock h"
    "segs_end start xs = start + sizeof_block + HEAP_PAGES * 4096" by blast
  have "(p, s) \<in> set (used_blocks start xs)" using free.hyps(2) live_eq [OF xs(1,2)] by simp
  from kfree_refines [OF xs(1-3) this] free.hyps(3) xs(4) show ?case by auto
qed

subsection \<open>Properties of the kernel heap\<close>

text \<open>The statics of \<^verbatim>\<open>heap.c\<close> before \<open>heap_init\<close> runs, and the heap right after it.\<close>

definition boot_heap :: kheap where
  "boot_heap = heap_setup \<lparr>h_blks = Map.empty, h_first = 0, h_last = 0, h_lock = False, h_mem = (\<lambda>_. 0)\<rparr>
     0xffffffffc0000000"

lemma boot_heap_rep: "heap_rep boot_heap 0xffffffffc0000000 [(HEAP_PAGES * 4096, False)]"
  unfolding boot_heap_def by (rule heap_setup_rep) simp

lemma boot_heap_wf: "segs_wf 0xffffffffc0000000 [(HEAP_PAGES * 4096, False)]"
  by (simp add: segs_wf_def)

lemma boot_heap_lock: "\<not> h_lock boot_heap"
  by (simp add: boot_heap_def heap_setup_def)

lemma boot_heap_inv: "heap_inv boot_heap"
  using boot_heap_rep boot_heap_wf boot_heap_lock by (auto simp: heap_inv_def)


lemma boot_heap_kmalloc: "\<exists>h'. kmalloc boot_heap 40 = Some (Inr (0xffffffffc0000020, h'))"
proof -
  have "round32 40 = 64" by (simp add: round32_def)
  then show ?thesis using kmalloc_refines [OF boot_heap_rep boot_heap_wf boot_heap_lock, of 40] by auto
qed

text \<open>
  C1: \<open>kmalloc\<close> on a well-formed heap is first fit on the list of segments: it takes the first
  free segment that is large enough for the request rounded up to 32 bytes, splits it when it
  is larger, returns the payload address with the lock released, and executes \<^verbatim>\<open>ud2\<close>
  exactly when no segment fits.
\<close>

theorem kmalloc_first_fit:
  assumes "heap_rep h base xs" and "segs_wf base xs" and "\<not> h_lock h"
    and "0 < n" and "n \<le> 2 ^ 64 - 32"
  shows "case alloc_seg (round32 n) base xs of
      None \<Rightarrow> kmalloc h n = Some (Inl InvalidOpcode)
    | Some (p, ys) \<Rightarrow> \<exists>h'. kmalloc h n = Some (Inr (p, h')) \<and> heap_rep h' base ys
        \<and> \<not> h_lock h' \<and> h_mem h' = h_mem h"
  using assms by (rule kmalloc_refines)

theorem kmalloc_first_fit_witness:
  "\<exists>h'. kmalloc boot_heap 100 = Some (Inr (0xffffffffc0000020, h'))
     \<and> heap_rep h' 0xffffffffc0000000 [(128, True), (HEAP_PAGES * 4096 - 160, False)]"
proof -
  have "round32 100 = 128" by (simp add: round32_def)
  then show ?thesis
    using kmalloc_first_fit [OF boot_heap_rep boot_heap_wf boot_heap_lock, of 100] by auto
qed



text \<open>
  C6: freeing a live block never faults: it marks the segment free and merges it with a free
  left and a free right neighbour, after which no two neighbours are free, every other live
  block is untouched and the lock is released.
\<close>

theorem kfree_coalesces:
  assumes "heap_rep h base xs" and "segs_wf base xs" and "\<not> h_lock h"
    and "(p, s) \<in> set (used_blocks base xs)"
  shows "\<exists>h' ys. kfree h p = Some (Inr h') \<and> free_seg p base xs = Some ys
     \<and> heap_rep h' base ys \<and> segs_wf base ys
     \<and> set (used_blocks base ys) = set (used_blocks base xs) - {(p, s)} \<and> \<not> h_lock h'"
  using kfree_refines [OF assms] by blast

theorem kfree_coalesces_witness:
  "\<exists>h h'. kmalloc boot_heap 40 = Some (Inr (0xffffffffc0000020, h))
     \<and> kfree h 0xffffffffc0000020 = Some (Inr h')
     \<and> heap_rep h' 0xffffffffc0000000 [(HEAP_PAGES * 4096, False)]"
proof -
  have "round32 40 = 64" by (simp add: round32_def)
  then obtain h where h: "kmalloc boot_heap 40 = Some (Inr (0xffffffffc0000020, h))" "\<not> h_lock h"
      "heap_rep h 0xffffffffc0000000 [(64, True), (HEAP_PAGES * 4096 - 96, False)]"
    using kmalloc_refines [OF boot_heap_rep boot_heap_wf boot_heap_lock, of 40] by auto
  have "segs_wf 0xffffffffc0000000 [(64, True), (HEAP_PAGES * 4096 - 96, False)]"
    by (simp add: segs_wf_def)
  from kfree_coalesces [OF h(3) this h(2), of "0xffffffffc0000020" 64] h(1)
  show ?thesis by auto
qed

text \<open>
  freeing the block that \<open>kmalloc\<close> has just returned gives back the very same list of
  segments: splitting and coalescing are inverse.
\<close>

theorem kmalloc_kfree_roundtrip:
  assumes rep: "heap_rep h base xs" and wf: "segs_wf base xs" and "\<not> h_lock h"
    and n: "0 < n" "n \<le> 2 ^ 64 - 32" and ret: "kmalloc h n = Some (Inr (p, h1))"
  shows "\<exists>h2. kfree h1 p = Some (Inr h2) \<and> heap_rep h2 base xs"
proof -
  note d = round32_props(1) [OF n]
  obtain ys where al: "alloc_seg (round32 n) base xs = Some (p, ys)"
    and h1: "heap_rep h1 base ys" "\<not> h_lock h1"
    using kmalloc_refines [OF rep wf assms(3) n] ret
    by (cases "alloc_seg (round32 n) base xs") (auto split: prod.splits)
  note wf' = alloc_seg_wf [OF wf d al]
  obtain l s r where xs: "xs = l @ (s, False) # r" and p: "p = segs_end base l + sizeof_block" and ys:
    "round32 n < s \<and> ys = l @ (round32 n, True) # (s - round32 n - sizeof_block, False) # r
     \<or> s = round32 n \<and> ys = l @ (s, True) # r"
    using alloc_seg_split [OF al] by blast
  have l: "l = [] \<or> snd (last l)" and r: "r = [] \<or> snd (hd r)"
    using wf by (auto simp: xs segs_wf_def no_free_pair_append no_free_pair_Cons)
  from ys show ?thesis
  proof
    assume y: "round32 n < s \<and> ys = l @ (round32 n, True) # (s - round32 n - sizeof_block, False) # r"
    have "32 dvd s" using wf xs by (simp add: segs_wf_def)
    then have "round32 n + 32 \<le> s" using y d dvd_gap by blast
    then have "freed l (round32 n) ((s - round32 n - sizeof_block, False) # r) = xs"
      using l by (auto simp: freed_def xs)
    then show ?thesis
      using kfree_refines_at [of h1 base l "round32 n" "(s - round32 n - sizeof_block, False) # r"]
        h1 wf' y p by auto
  next
    assume y: "s = round32 n \<and> ys = l @ (s, True) # r"
    have "freed l s r = xs" using l merge_hd_next_used [OF r, of "(s, False)"] by (auto simp: freed_def xs)
    then show ?thesis using kfree_refines_at [of h1 base l s r] h1 wf' y p by auto
  qed
qed

theorem kmalloc_kfree_roundtrip_witness:
  "\<exists>h1 h2. kmalloc boot_heap 40 = Some (Inr (0xffffffffc0000020, h1))
     \<and> kfree h1 0xffffffffc0000020 = Some (Inr h2)
     \<and> heap_rep h2 0xffffffffc0000000 [(HEAP_PAGES * 4096, False)]"
proof -
  obtain h1 where h1: "kmalloc boot_heap 40 = Some (Inr (0xffffffffc0000020, h1))"
    using boot_heap_kmalloc by blast
  show ?thesis
    using kmalloc_kfree_roundtrip [OF boot_heap_rep boot_heap_wf boot_heap_lock _ _ h1] h1 by auto
qed

text \<open>
  C3: every heap that the boot heap reaches through successful allocations and frees of live
  blocks satisfies the invariant, and the debug walk \<open>heap_check\<close> accepts it.
\<close>

theorem heap_reachable_consistent:
  assumes "0xffffffffc0000000 \<le> start" and "start + sizeof_block + HEAP_PAGES * 4096 < 2 ^ 64"
    and "\<not> h_lock h0" and "heap_reach (heap_setup h0 start) h"
  shows "heap_inv h \<and> heap_check h = Some (Inr ())"
proof -
  obtain xs where xs: "heap_rep h start xs" "segs_wf start xs" "\<not> h_lock h"
      "segs_end start xs = start + sizeof_block + HEAP_PAGES * 4096"
    using heap_reach_rep [OF assms] by blast
  have "fst x \<le> 0x10000000" if "x \<in> set xs" for x
    using seg_size_le [OF that, of start] xs(4) by simp
  then have "list_all (\<lambda>x. fst x \<le> 0x10000000) xs" by (simp add: list_all_iff)
  with heap_check_loop_ok [of h start "[]" xs] xs assms(1)
  have "heap_check h = Some (Inr ())" by (simp add: heap_check_def heap_rep_def segs_wf_def)
  then show ?thesis using xs by (auto simp: heap_inv_def)
qed

theorem heap_reachable_consistent_witness:
  "\<exists>h. kmalloc boot_heap 40 = Some (Inr (0xffffffffc0000020, h)) \<and> heap_check h = Some (Inr ())"
proof -
  obtain h where h: "kmalloc boot_heap 40 = Some (Inr (0xffffffffc0000020, h))"
    using boot_heap_kmalloc by blast
  have "heap_reach boot_heap h" by (rule heap_reach.malloc [OF heap_reach.start _ _ h]) simp_all
  from heap_reachable_consistent [OF _ _ _ this [unfolded boot_heap_def]] h show ?thesis by simp
qed

text \<open>
  \<open>kcalloc\<close> clears exactly the bytes asked for: the new block reads as zero and the
  contents of every block that was in use are unchanged.
\<close>

theorem kcalloc_zeroes:
  assumes "heap_inv h" and "0 < n" and "n \<le> 2 ^ 64 - 32" and "kcalloc h n = Some (Inr (p, h'))"
  shows "(\<forall>i < n. h_mem h' (p + i) = 0)
     \<and> (\<forall>(q, t) \<in> live h. \<forall>i < t. h_mem h' (q + i) = h_mem h (q + i))"
proof -
  obtain h1 where h1: "kmalloc h n = Some (Inr (p, h1))" and h': "h' = h1\<lparr>h_mem := mem_set (h_mem h1) p 0 n\<rparr>"
    using assms(4) by (auto simp: kcalloc_def split: option.splits sum.splits)
  note s = kmalloc_sound [OF assms(1-3) h1]
  have "h_mem h' (q + i) = h_mem h (q + i)" if "(q, t) \<in> live h" "i < t" for q t i
    using s(5) [OF that(1)] that(2) round32_props(2) [OF assms(2,3)] s(3) by (auto simp: h' mem_set_def)
  moreover have "h_mem h' (p + i) = 0" if "i < n" for i using that by (simp add: h' mem_set_def)
  ultimately show ?thesis by blast
qed

theorem kcalloc_zeroes_witness:
  "\<exists>h'. kcalloc boot_heap 40 = Some (Inr (0xffffffffc0000020, h')) \<and> h_mem h' 0xffffffffc0000020 = 0"
proof -
  obtain h where h: "kmalloc boot_heap 40 = Some (Inr (0xffffffffc0000020, h))"
    using boot_heap_kmalloc by blast
  then obtain h' where h': "kcalloc boot_heap 40 = Some (Inr (0xffffffffc0000020, h'))"
    by (simp add: kcalloc_def)
  from kcalloc_zeroes [OF boot_heap_inv _ _ h'] have "\<forall>i<40. h_mem h' (0xffffffffc0000020 + i) = 0"
    by simp
  from this [rule_format, of 0] h' show ?thesis by auto
qed

text \<open>
  The first block is given the size of all mapped pages although its header occupies the
  first 32 of those bytes, so a request for that many bytes succeeds and the block it returns
  ends 32 bytes past the last mapped page.
\<close>

theorem heap_init_overruns_pages:
  assumes "0 < start" and "start + sizeof_block + HEAP_PAGES * 4096 < 2 ^ 64" and "\<not> h_lock h0"
  shows "\<exists>h'. kmalloc (heap_setup h0 start) (HEAP_PAGES * 4096) = Some (Inr (start + sizeof_block, h'))
     \<and> (start + sizeof_block, HEAP_PAGES * 4096) \<in> live h'
     \<and> (start + sizeof_block) + HEAP_PAGES * 4096 = (start + HEAP_PAGES * 4096) + 32"
proof -
  have r: "round32 (HEAP_PAGES * 4096) = HEAP_PAGES * 4096" by (simp add: round32_def)
  have wf: "segs_wf start [(HEAP_PAGES * 4096, False)]" and wf': "segs_wf start [(HEAP_PAGES * 4096, True)]"
    using assms by (simp_all add: segs_wf_def)
  have lock: "\<not> h_lock (heap_setup h0 start)" using assms by (simp add: heap_setup_def)
  from kmalloc_refines [OF heap_setup_rep [OF assms(1)] wf lock, of "HEAP_PAGES * 4096"] r
  obtain h' where h': "kmalloc (heap_setup h0 start) (HEAP_PAGES * 4096) = Some (Inr (start + sizeof_block, h'))"
      "heap_rep h' start [(HEAP_PAGES * 4096, True)]" by auto
  with live_eq [OF h'(2) wf'] show ?thesis by auto
qed

theorem heap_init_overruns_pages_witness:
  "\<exists>h'. kmalloc boot_heap 40960000 = Some (Inr (0xffffffffc0000020, h'))
     \<and> (0xffffffffc0000020, 40960000) \<in> live h'"
  using heap_init_overruns_pages [of "0xffffffffc0000000"
      "\<lparr>h_blks = Map.empty, h_first = 0, h_last = 0, h_lock = False, h_mem = (\<lambda>_. 0)\<rparr>"]
  by (auto simp: boot_heap_def)

subsection \<open>The heap is an allocator\<close>

interpretation kernel_heap: allocator kmalloc kfree "\<lambda>h. fst ` live h" heap_inv
proof unfold_locales
  fix h n p h'
  assume a: "heap_inv h" "0 < n" "n \<le> 2 ^ 64 - 32" "kmalloc h n = Some (Inr (p, h'))"
  note s = kmalloc_sound [OF a]
  show "heap_inv h' \<and> p \<noteq> 0 \<and> p \<notin> fst ` live h \<and> fst ` live h' = insert p (fst ` live h)"
    using s by auto
next
  fix h p
  assume a: "heap_inv h" "p \<in> fst ` live h"
  then obtain s where "(p, s) \<in> live h" by auto
  from kfree_sound [OF a(1) this] obtain h' where h': "kfree h p = Some (Inr h')" "heap_inv h'"
    "live h' = live h - {(p, s)}" "p \<notin> fst ` live h'" by blast
  then have "fst ` live h' = fst ` live h - {p}" by force
  with h' show "\<exists>h'. kfree h p = Some (Inr h') \<and> heap_inv h' \<and> fst ` live h' = fst ` live h - {p}" by blast
next
  fix h :: kheap and n :: nat
  assume "heap_inv h" "0 < n" "n \<le> 2 ^ 64 - 32"
  then show "kmalloc h n = Some (Inl InvalidOpcode) \<or> (\<exists>p h'. kmalloc h n = Some (Inr (p, h')))"
    by (rule kmalloc_total)
qed

text \<open>A free block of at least \<open>s\<close> bytes: enough for an allocation to succeed.\<close>

definition roomy :: "kheap \<Rightarrow> nat \<Rightarrow> bool" where
  "roomy h s \<longleftrightarrow> \<not> h_lock h \<and> (\<exists>base xs t. heap_rep h base xs \<and> segs_wf base xs
     \<and> (t, False) \<in> set xs \<and> s \<le> t)"

lemma alloc_seg_fits: "(t, False) \<in> set xs \<Longrightarrow> n < t \<Longrightarrow> alloc_seg n a xs \<noteq> None"
  by (induction n a xs rule: alloc_seg.induct) auto

lemma roomy_kmalloc:
  assumes "roomy h s" "0 < n" "n + 64 \<le> s" "n \<le> 2 ^ 32"
  shows "\<exists>p h'. kmalloc h n = ret (p, h') \<and> roomy h' (s - n - 64) \<and> h_mem h' = h_mem h"
proof -
  obtain base xs t where h: "\<not> h_lock h" "heap_rep h base xs" "segs_wf base xs"
      "(t, False) \<in> set xs" "s \<le> t"
    using assms(1) unfolding roomy_def by blast
  have n: "n \<le> 2 ^ 64 - 32" using assms(4) by simp
  note r = round32_props [OF assms(2) n]
  obtain p ys where al: "alloc_seg (round32 n) base xs = Some (p, ys)"
    using alloc_seg_fits [OF h(4), of "round32 n" base] r assms(3) h(5) by fastforce
  obtain h' where h': "kmalloc h n = ret (p, h')" "heap_rep h' base ys" "\<not> h_lock h'" "h_mem h' = h_mem h"
    using kmalloc_refines [OF h(2,3,1) assms(2) n] al by auto
  obtain l u v where xs: "xs = l @ (u, False) # v" and ys:
      "round32 n < u \<and> ys = l @ (round32 n, True) # (u - round32 n - sizeof_block, False) # v
       \<or> u = round32 n \<and> ys = l @ (u, True) # v"
    using alloc_seg_split [OF al] by blast
  have "\<exists>t'. (t', False) \<in> set ys \<and> s - n - 64 \<le> t'"
  proof (cases "t = u")
    case True
    then have "ys = l @ (round32 n, True) # (u - round32 n - sizeof_block, False) # v"
      using ys r assms(3) h(5) by auto
    then show ?thesis using True r(3) h(5)
      by (intro exI [of _ "u - round32 n - sizeof_block"]) simp
  next
    case False
    then have "(t, False) \<in> set ys" using h(4) xs ys by auto
    then show ?thesis using h(5) by (intro exI [of _ t]) simp
  qed
  then show ?thesis
    using h' alloc_seg_wf [OF h(3) r(1) al] unfolding roomy_def by blast
qed

lemma roomy_kcalloc:
  assumes "roomy h s" "0 < n" "n + 64 \<le> s" "n \<le> 2 ^ 32"
  shows "\<exists>p h'. kcalloc h n = ret (p, h') \<and> roomy h' (s - n - 64)"
proof -
  obtain p h' where "kmalloc h n = ret (p, h')" "roomy h' (s - n - 64)"
    using roomy_kmalloc [OF assms] by blast
  then show ?thesis by (auto simp: kcalloc_def roomy_def heap_rep_def)
qed

lemma roomy_mono: "roomy h s \<Longrightarrow> t \<le> s \<Longrightarrow> roomy h t"
  unfolding roomy_def by (meson le_trans)

lemma boot_heap_roomy: "roomy boot_heap 40960000"
  using boot_heap_lock boot_heap_rep boot_heap_wf unfolding roomy_def
  by (intro conjI exI[of _ "0xffffffffc0000000"] exI[of _ "[(HEAP_PAGES * 4096, False)]"] exI[of _ "HEAP_PAGES * 4096"]) auto

lemma roomy_inv: "roomy h s \<Longrightarrow> heap_inv h"
  by (auto simp: roomy_def heap_inv_def)

lemma kmalloc_first:
  assumes inv: "heap_inv h" and n: "0 < n" "n \<le> 2 ^ 64 - 32"
  shows "kmalloc h n = Some (Inl InvalidOpcode) \<or>
    (\<exists>p h'. kmalloc h n = ret (p, h') \<and> p \<noteq> 0 \<and> heap_inv h' \<and> h_first h' = h_first h)"
proof -
  obtain base xs where rep: "heap_rep h base xs" and wf: "segs_wf base xs" and lock: "\<not> h_lock h"
    using inv by (auto simp: heap_inv_def)
  from kmalloc_refines [OF rep wf lock n] show ?thesis
  proof (cases "alloc_seg (round32 n) base xs")
    case (Some r)
    obtain p ys where r: "r = (p, ys)" by (cases r)
    then obtain h' where h': "kmalloc h n = ret (p, h')" "heap_rep h' base ys"
      using kmalloc_refines [OF rep wf lock n] Some by auto
    then have "h_first h' = h_first h" using rep by (simp add: heap_rep_def)
    then show ?thesis using h'(1) kmalloc_sound(1,4) [OF inv n h'(1)] by blast
  qed simp
qed

text \<open>A request larger than the address range above the start of the heap stops the machine.\<close>

lemma kmalloc_huge:
  assumes inv: "heap_inv h" and n: "0 < n" "n \<le> 2 ^ 64 - 32" and big: "2 ^ 64 \<le> h_first h + n"
  shows "kmalloc h n = Some (Inl InvalidOpcode)"
proof -
  obtain base xs where rep: "heap_rep h base xs" and wf: "segs_wf base xs" and lock: "\<not> h_lock h"
    using inv by (auto simp: heap_inv_def)
  have b: "h_first h = base" using rep by (simp add: heap_rep_def)
  have "alloc_seg (round32 n) base xs = None"
  proof (rule ccontr)
    assume "alloc_seg (round32 n) base xs \<noteq> None"
    then obtain p ys where "alloc_seg (round32 n) base xs = Some (p, ys)" by auto
    then have "base + sizeof_block \<le> p \<and> p + round32 n \<le> segs_end base xs"
      by (rule alloc_seg_used(3) [OF wf round32_props(1) [OF n]])
    then show False using round32_props(2) [OF n] big wf unfolding b segs_wf_def by linarith
  qed
  then show ?thesis using kmalloc_refines [OF rep wf lock n] by simp
qed

lemma boot_heap_first: "h_first boot_heap = 0xffffffffc0000000"
  using boot_heap_rep by (simp add: heap_rep_def)

end
