(* ===== verification/Klist.thy ===== *)
theory Klist
  imports Kheap
begin

text \<open>
  The kernel's doubly linked list, \<^verbatim>\<open>kernel/kern/list.c\<close> and \<^verbatim>\<open>kernel/kern/tree.c\<close>.

  The nodes live in a store next to the heap they are allocated from. The operations take
  the allocator they call as their first argument; \<^theory_text>\<open>context allocator\<close> proves them
  against its contract, and the interpretation of \<open>Kheap\<close> on \<open>kmalloc\<close> and \<open>kfree\<close> gives
  the kernel's instance.

  \<open>'d klist\<close> is the abstract view the other components use: the items in order, and the
  \<^verbatim>\<open>size\<close> field kept apart from them, because \<open>list_remove\<close>, \<open>list_insert_after\<close> and
  \<open>list_insert_before\<close> do not update it.
\<close>

subsection \<open>State\<close>

record 'd lnode =
  ln_next :: addr
  ln_prev :: addr
  ln_data :: 'd

record klst =
  l_head :: addr
  l_tail :: addr
  l_size :: nat

record ('h, 'd) lstate =
  ls_heap :: 'h
  ls_nodes :: "addr \<rightharpoonup> 'd lnode"

type_synonym 'h kmalloc_fn = "'h \<Rightarrow> nat \<Rightarrow> (addr \<times> 'h) run"
type_synonym 'h kfree_fn = "'h \<Rightarrow> addr \<Rightarrow> 'h run"

abbreviation (input) sizeof_lnode :: nat where "sizeof_lnode \<equiv> 24"

subsection \<open>Operations\<close>

definition list_create :: klst where
  "list_create = \<lparr>l_head = 0, l_tail = 0, l_size = 0\<rparr>"

definition set_next :: "(addr \<rightharpoonup> 'd lnode) \<Rightarrow> addr \<Rightarrow> addr \<Rightarrow> (addr \<rightharpoonup> 'd lnode) res" where
  "set_next N p v = bindS (load N p) (\<lambda>x. Inr (N(p \<mapsto> x\<lparr>ln_next := v\<rparr>)))"

definition set_prev :: "(addr \<rightharpoonup> 'd lnode) \<Rightarrow> addr \<Rightarrow> addr \<Rightarrow> (addr \<rightharpoonup> 'd lnode) res" where
  "set_prev N p v = bindS (load N p) (\<lambda>x. Inr (N(p \<mapsto> x\<lparr>ln_prev := v\<rparr>)))"

definition alloc_node :: "'h kmalloc_fn \<Rightarrow> ('h, 'd) lstate \<Rightarrow> (addr \<times> ('h, 'd) lstate) run" where
  "alloc_node km st =
     bindR (km (ls_heap st) sizeof_lnode) (\<lambda>(p, h).
       if p = 0 then Some (Inl BadAccess) else ret (p, st\<lparr>ls_heap := h\<rparr>))"

definition free_node :: "'h kfree_fn \<Rightarrow> ('h, 'd) lstate \<Rightarrow> addr \<Rightarrow> ('h, 'd) lstate run" where
  "free_node kf st p =
     bindR (kf (ls_heap st) p) (\<lambda>h. ret (st\<lparr>ls_heap := h, ls_nodes := (ls_nodes st)(p := None)\<rparr>))"

definition list_enqueue ::
  "'h kmalloc_fn \<Rightarrow> ('h, 'd) lstate \<Rightarrow> klst \<Rightarrow> 'd \<Rightarrow> (klst \<times> ('h, 'd) lstate) run" where
  "list_enqueue km st l d =
     bindR (alloc_node km st) (\<lambda>(p, st).
     let N = (ls_nodes st)(p \<mapsto> \<lparr>ln_next = 0, ln_prev = l_tail l, ln_data = d\<rparr>) in
     bindR (if l_tail l \<noteq> 0
            then bindR (Some (set_next N (l_tail l) p)) (\<lambda>N. ret (N, l))
            else ret (N, l\<lparr>l_head := p\<rparr>)) (\<lambda>(N, l).
       ret (l\<lparr>l_tail := p, l_size := add64 (l_size l) 1\<rparr>, st\<lparr>ls_nodes := N\<rparr>)))"

definition list_dequeue ::
  "'h kfree_fn \<Rightarrow> ('h, 'd) lstate \<Rightarrow> klst \<Rightarrow> ('d option \<times> klst \<times> ('h, 'd) lstate) run" where
  "list_dequeue kf st l =
     (if l_head l = 0 then ret (None, l, st)
      else
        let old = l_head l in
        bindR (Some (load (ls_nodes st) old)) (\<lambda>x.
        let l = l\<lparr>l_head := ln_next x\<rparr> in
        bindR (if ln_next x \<noteq> 0
               then bindR (Some (set_prev (ls_nodes st) (ln_next x) 0)) (\<lambda>N. ret (N, l))
               else ret (ls_nodes st, l\<lparr>l_tail := 0\<rparr>)) (\<lambda>(N, l).
        bindR (Some (load N old)) (\<lambda>x.
        bindR (free_node kf (st\<lparr>ls_nodes := N\<rparr>) old) (\<lambda>st.
          ret (Some (ln_data x), l\<lparr>l_size := sub64 (l_size l) 1\<rparr>, st))))))"

definition list_pop_back ::
  "'h kfree_fn \<Rightarrow> ('h, 'd) lstate \<Rightarrow> klst \<Rightarrow> ('d option \<times> klst \<times> ('h, 'd) lstate) run" where
  "list_pop_back kf st l =
     (if l_tail l = 0 then ret (None, l, st)
      else
        let old = l_tail l in
        bindR (Some (load (ls_nodes st) old)) (\<lambda>x.
        let l = l\<lparr>l_tail := ln_prev x\<rparr> in
        bindR (if ln_prev x \<noteq> 0
               then bindR (Some (set_next (ls_nodes st) (ln_prev x) 0)) (\<lambda>N. ret (N, l))
               else ret (ls_nodes st, l\<lparr>l_head := 0\<rparr>)) (\<lambda>(N, l).
        bindR (Some (load N old)) (\<lambda>x.
        bindR (free_node kf (st\<lparr>ls_nodes := N\<rparr>) old) (\<lambda>st.
          ret (Some (ln_data x), l\<lparr>l_size := sub64 (l_size l) 1\<rparr>, st))))))"

text \<open>\<open>list_clear\<close> dequeues while the size field is not zero; it trusts the field.\<close>

partial_function (option) list_clear ::
  "'h kfree_fn \<Rightarrow> ('h, 'd) lstate \<Rightarrow> klst \<Rightarrow> (klst \<times> ('h, 'd) lstate) run" where
  "list_clear kf st l =
     (if l_size l = 0 then ret (l, st)
      else case list_dequeue kf st l of
        None \<Rightarrow> None
      | Some (Inl f) \<Rightarrow> Some (Inl f)
      | Some (Inr (_, l', st')) \<Rightarrow> list_clear kf st' l')"

definition list_free :: "'h kfree_fn \<Rightarrow> ('h, 'd) lstate \<Rightarrow> klst \<Rightarrow> (klst \<times> ('h, 'd) lstate) run" where
  "list_free kf st l = list_clear kf st l"

fun list_walk :: "(addr \<rightharpoonup> 'd lnode) \<Rightarrow> addr \<Rightarrow> nat \<Rightarrow> addr res" where
  "list_walk N node 0 = Inr node"
| "list_walk N node (Suc i) = bindS (load N node) (\<lambda>x. list_walk N (ln_next x) i)"

definition list_get_impl :: "('h, 'd) lstate \<Rightarrow> klst \<Rightarrow> nat \<Rightarrow> addr res" where
  "list_get_impl st l i = list_walk (ls_nodes st) (l_head l) i"

definition list_get :: "('h, 'd) lstate \<Rightarrow> klst \<Rightarrow> nat \<Rightarrow> 'd res" where
  "list_get st l i =
     bindS (list_get_impl st l i) (\<lambda>p. bindS (load (ls_nodes st) p) (\<lambda>x. Inr (ln_data x)))"

definition list_set :: "('h, 'd) lstate \<Rightarrow> klst \<Rightarrow> nat \<Rightarrow> 'd \<Rightarrow> ('h, 'd) lstate res" where
  "list_set st l i d =
     bindS (list_get_impl st l i) (\<lambda>p.
     bindS (load (ls_nodes st) p) (\<lambda>x.
       Inr (st\<lparr>ls_nodes := (ls_nodes st)(p \<mapsto> x\<lparr>ln_data := d\<rparr>)\<rparr>)))"

definition list_remove ::
  "'h kfree_fn \<Rightarrow> ('h, 'd) lstate \<Rightarrow> klst \<Rightarrow> nat \<Rightarrow> ('d \<times> klst \<times> ('h, 'd) lstate) run" where
  "list_remove kf st l i =
     bindR (Some (list_get_impl st l i)) (\<lambda>p.
     bindR (Some (load (ls_nodes st) p)) (\<lambda>x.
     bindR (if ln_next x \<noteq> 0
            then bindR (Some (set_prev (ls_nodes st) (ln_next x) (ln_prev x))) (\<lambda>N. ret (N, l))
            else ret (ls_nodes st, l\<lparr>l_tail := ln_prev x\<rparr>)) (\<lambda>(N, l).
     bindR (if ln_prev x \<noteq> 0
            then bindR (Some (set_next N (ln_prev x) (ln_next x))) (\<lambda>N. ret (N, l))
            else ret (N, l\<lparr>l_head := ln_next x\<rparr>)) (\<lambda>(N, l).
     bindR (free_node kf (st\<lparr>ls_nodes := N\<rparr>) p) (\<lambda>st.
       ret (ln_data x, l, st))))))"

definition list_back :: "('h, 'd) lstate \<Rightarrow> klst \<Rightarrow> 'd res" where
  "list_back st l = bindS (load (ls_nodes st) (l_tail l)) (\<lambda>x. Inr (ln_data x))"

definition list_insert_after ::
  "'h kmalloc_fn \<Rightarrow> ('h, 'd) lstate \<Rightarrow> klst \<Rightarrow> nat \<Rightarrow> 'd \<Rightarrow> (klst \<times> ('h, 'd) lstate) run" where
  "list_insert_after km st l i d =
     bindR (Some (list_walk (ls_nodes st) (l_head l) i)) (\<lambda>node.
     bindR (alloc_node km st) (\<lambda>(new, st).
     bindR (Some (load (ls_nodes st) node)) (\<lambda>x.
     let N = (ls_nodes st)(new \<mapsto> \<lparr>ln_next = ln_next x, ln_prev = node, ln_data = d\<rparr>) in
     bindR (if ln_next x \<noteq> 0
            then bindR (Some (set_prev N (ln_next x) new)) (\<lambda>N. ret (N, l))
            else ret (N, l\<lparr>l_tail := new\<rparr>)) (\<lambda>(N, l).
     bindR (if node \<noteq> 0
            then bindR (Some (set_next N node new)) (\<lambda>N. ret (N, l))
            else ret (N, l\<lparr>l_head := new\<rparr>)) (\<lambda>(N, l).
       ret (l, st\<lparr>ls_nodes := N\<rparr>))))))"

definition list_insert_before ::
  "'h kmalloc_fn \<Rightarrow> ('h, 'd) lstate \<Rightarrow> klst \<Rightarrow> nat \<Rightarrow> 'd \<Rightarrow> (klst \<times> ('h, 'd) lstate) run" where
  "list_insert_before km st l i d =
     bindR (Some (list_walk (ls_nodes st) (l_head l) i)) (\<lambda>node.
     bindR (alloc_node km st) (\<lambda>(new, st).
     bindR (Some (load (ls_nodes st) node)) (\<lambda>x.
     let N = (ls_nodes st)(new \<mapsto> \<lparr>ln_next = node, ln_prev = ln_prev x, ln_data = d\<rparr>) in
     bindR (if ln_prev x \<noteq> 0
            then bindR (Some (set_next N (ln_prev x) new)) (\<lambda>N. ret (N, l))
            else ret (N, l\<lparr>l_head := new\<rparr>)) (\<lambda>(N, l).
     bindR (if node \<noteq> 0
            then bindR (Some (set_prev N node new)) (\<lambda>N. ret (N, l))
            else ret (N, l\<lparr>l_tail := new\<rparr>)) (\<lambda>(N, l).
       ret (l, st\<lparr>ls_nodes := N\<rparr>))))))"

subsection \<open>The abstract list\<close>

record 'd klist =
  kl_items :: "'d list"
  kl_size :: nat

definition kl_create :: "'d klist" where
  "kl_create = \<lparr>kl_items = [], kl_size = 0\<rparr>"

definition kl_enqueue :: "'d klist \<Rightarrow> 'd \<Rightarrow> 'd klist" where
  "kl_enqueue k d = \<lparr>kl_items = kl_items k @ [d], kl_size = add64 (kl_size k) 1\<rparr>"

definition kl_dequeue :: "'d klist \<Rightarrow> 'd option \<times> 'd klist" where
  "kl_dequeue k =
     (case kl_items k of
        [] \<Rightarrow> (None, k)
      | x # xs \<Rightarrow> (Some x, \<lparr>kl_items = xs, kl_size = sub64 (kl_size k) 1\<rparr>))"

definition kl_pop_back :: "'d klist \<Rightarrow> 'd option \<times> 'd klist" where
  "kl_pop_back k =
     (if kl_items k = [] then (None, k)
      else (Some (last (kl_items k)),
            \<lparr>kl_items = butlast (kl_items k), kl_size = sub64 (kl_size k) 1\<rparr>))"

definition kl_clear :: "'d klist \<Rightarrow> 'd klist option" where
  "kl_clear k =
     (if kl_size k \<le> length (kl_items k)
      then Some \<lparr>kl_items = drop (kl_size k) (kl_items k), kl_size = 0\<rparr> else None)"

definition kl_get :: "'d klist \<Rightarrow> nat \<Rightarrow> 'd res" where
  "kl_get k i = (if i < length (kl_items k) then Inr (kl_items k ! i) else Inl BadAccess)"

definition kl_remove :: "'d klist \<Rightarrow> nat \<Rightarrow> ('d \<times> 'd klist) res" where
  "kl_remove k i =
     (if i < length (kl_items k)
      then Inr (kl_items k ! i, k\<lparr>kl_items := take i (kl_items k) @ drop (Suc i) (kl_items k)\<rparr>)
      else Inl BadAccess)"

definition kl_back :: "'d klist \<Rightarrow> 'd res" where
  "kl_back k = (if kl_items k = [] then Inl BadAccess else Inr (last (kl_items k)))"

definition kl_insert_before :: "'d klist \<Rightarrow> nat \<Rightarrow> 'd \<Rightarrow> 'd klist res" where
  "kl_insert_before k i d =
     (if i < length (kl_items k)
      then Inr (k\<lparr>kl_items := take i (kl_items k) @ d # drop i (kl_items k)\<rparr>)
      else Inl BadAccess)"

definition kl_insert_after :: "'d klist \<Rightarrow> nat \<Rightarrow> 'd \<Rightarrow> 'd klist res" where
  "kl_insert_after k i d =
     (if i < length (kl_items k)
      then Inr (k\<lparr>kl_items := take (Suc i) (kl_items k) @ d # drop (Suc i) (kl_items k)\<rparr>)
      else Inl BadAccess)"

subsection \<open>Representation\<close>

type_synonym 'd cells = "(addr \<times> 'd) list"

definition first_addr :: "'d cells \<Rightarrow> addr \<Rightarrow> addr" where
  "first_addr xs d = (if xs = [] then d else fst (hd xs))"

definition last_addr :: "'d cells \<Rightarrow> addr \<Rightarrow> addr" where
  "last_addr xs d = (if xs = [] then d else fst (last xs))"

fun dll :: "(addr \<rightharpoonup> 'd lnode) \<Rightarrow> addr \<Rightarrow> 'd cells \<Rightarrow> addr \<Rightarrow> bool" where
  "dll N pv [] nx = True"
| "dll N pv ((a, d) # xs) nx =
     (N a = Some \<lparr>ln_next = first_addr xs nx, ln_prev = pv, ln_data = d\<rparr> \<and> dll N a xs nx)"

definition cells_ok :: "addr set \<Rightarrow> 'd cells \<Rightarrow> bool" where
  "cells_ok A xs \<longleftrightarrow> distinct (map fst xs) \<and> 0 \<notin> fst ` set xs \<and> fst ` set xs \<subseteq> A"

definition lrep :: "(addr \<rightharpoonup> 'd lnode) \<Rightarrow> addr set \<Rightarrow> klst \<Rightarrow> 'd cells \<Rightarrow> bool" where
  "lrep N A l xs \<longleftrightarrow> N 0 = None \<and> dll N 0 xs 0 \<and> l_head l = first_addr xs 0 \<and> l_tail l = last_addr xs 0
     \<and> cells_ok A xs"

definition klist_of :: "klst \<Rightarrow> 'd cells \<Rightarrow> 'd klist" where
  "klist_of l xs = \<lparr>kl_items = map snd xs, kl_size = l_size l\<rparr>"

subsection \<open>Chains of nodes\<close>

lemma first_addr_simps [simp]:
  "first_addr [] d = d" "first_addr (x # xs) d = fst x"
  "first_addr (xs @ ys) d = first_addr xs (first_addr ys d)"
  by (simp_all add: first_addr_def)

lemma last_addr_simps [simp]:
  "last_addr [] d = d" "last_addr (x # xs) d = last_addr xs (fst x)"
  "last_addr (xs @ ys) d = last_addr ys (last_addr xs d)"
  by (simp_all add: last_addr_def)

lemma first_addr_in: "xs \<noteq> [] \<Longrightarrow> first_addr xs d \<in> fst ` set xs"
  by (cases xs) auto

lemma last_addr_in: "xs \<noteq> [] \<Longrightarrow> last_addr xs d \<in> fst ` set xs"
  by (cases xs rule: rev_cases) auto

lemma first_addr_0: "0 \<notin> fst ` set xs \<Longrightarrow> first_addr xs 0 = 0 \<longleftrightarrow> xs = []"
  by (metis first_addr_in first_addr_simps(1))

lemma last_addr_0: "0 \<notin> fst ` set xs \<Longrightarrow> last_addr xs 0 = 0 \<longleftrightarrow> xs = []"
  by (metis last_addr_in last_addr_simps(1))

lemma dll_append [simp]:
  "dll N pv (xs @ ys) nx \<longleftrightarrow> dll N pv xs (first_addr ys nx) \<and> dll N (last_addr xs pv) ys nx"
  by (induction N pv xs nx rule: dll.induct) auto

lemma dll_frame: "dll N pv xs nx \<Longrightarrow> (\<And>a. a \<in> fst ` set xs \<Longrightarrow> N' a = N a) \<Longrightarrow> dll N' pv xs nx"
  by (induction N pv xs nx rule: dll.induct) auto

lemma dll_upd [simp]: "a \<notin> fst ` set xs \<Longrightarrow> dll (N(a := v)) pv xs nx = dll N pv xs nx"
  by (induction N pv xs nx rule: dll.induct) auto

lemma dll_set_next:
  assumes "dll N pv (xs @ [(a, d)]) nx" "a \<notin> fst ` set xs"
  shows "\<exists>N'. set_next N a v = Inr N' \<and> dll N' pv (xs @ [(a, d)]) v \<and> (\<forall>b. b \<noteq> a \<longrightarrow> N' b = N b)"
  using assms by (simp add: set_next_def)

lemma dll_set_prev:
  assumes "dll N pv ((a, d) # xs) nx" "a \<notin> fst ` set xs"
  shows "\<exists>N'. set_prev N a v = Inr N' \<and> dll N' v ((a, d) # xs) nx \<and> (\<forall>b. b \<noteq> a \<longrightarrow> N' b = N b)"
  using assms by (simp add: set_prev_def)

lemma list_walk_ok: "dll N pv (xs @ ys) nx \<Longrightarrow> list_walk N (first_addr (xs @ ys) nx) (length xs) = Inr (first_addr ys nx)"
proof (induction xs arbitrary: pv)
  case (Cons x xs)
  then show ?case by (cases x) auto
qed simp

lemma list_walk_past:
  "dll N pv xs 0 \<Longrightarrow> N 0 = None \<Longrightarrow> length xs < i \<Longrightarrow> list_walk N (first_addr xs 0) i = Inl BadAccess"
proof (induction xs arbitrary: pv i)
  case Nil
  then show ?case by (cases i) auto
next
  case (Cons x xs)
  then show ?case by (cases x, cases i) auto
qed

lemma list_walk_off:
  assumes "dll N pv xs 0" "N 0 = None" "length xs \<le> i"
  shows "bindS (list_walk N (first_addr xs 0) i) (\<lambda>p. bindS (load N p) f) = Inl BadAccess"
proof (cases "length xs = i")
  case True
  then show ?thesis using list_walk_ok[of N pv xs "[]" 0] assms by auto
next
  case False
  then show ?thesis using list_walk_past[of N pv xs i] assms by simp
qed

subsection \<open>Splicing\<close>

lemma cells_ok_append:
  "cells_ok A (xs @ ys) \<longleftrightarrow> cells_ok A xs \<and> cells_ok A ys \<and> fst ` set xs \<inter> fst ` set ys = {}"
  by (auto simp: cells_ok_def)

lemma cells_ok_Cons:
  "cells_ok A (x # xs) \<longleftrightarrow> fst x \<noteq> 0 \<and> fst x \<in> A \<and> fst x \<notin> fst ` set xs \<and> cells_ok A xs"
  by (auto simp: cells_ok_def)

lemma cells_ok_Nil [simp]: "cells_ok A []"
  by (simp add: cells_ok_def)

lemma cells_ok_mono: "cells_ok A xs \<Longrightarrow> A \<subseteq> B \<Longrightarrow> cells_ok B xs"
  by (auto simp: cells_ok_def)

lemma cells_ok_0: "cells_ok A xs \<Longrightarrow> first_addr xs 0 = 0 \<longleftrightarrow> xs = []"
  "cells_ok A xs \<Longrightarrow> last_addr xs 0 = 0 \<longleftrightarrow> xs = []"
  by (auto simp: cells_ok_def first_addr_0 last_addr_0)

lemma cells_ok_minus: "cells_ok A xs \<Longrightarrow> p \<notin> fst ` set xs \<Longrightarrow> cells_ok (A - {p}) xs"
  by (auto simp: cells_ok_def)

lemmas cells_simps = cells_ok_append cells_ok_Cons

text \<open>Pointing the last node of a chain, or the first, at another neighbour.\<close>

lemma relink_next:
  assumes "dll N pv xs nx" "distinct (map fst xs)" "xs \<noteq> []"
  shows "\<exists>N'. set_next N (last_addr xs pv) v = Inr N' \<and> dll N' pv xs v \<and>
      (\<forall>b. b \<noteq> last_addr xs pv \<longrightarrow> N' b = N b)"
proof -
  obtain ys a d where "xs = ys @ [(a, d)]"
    using assms(3) by (metis append_butlast_last_id surj_pair)
  then show ?thesis using dll_set_next[of N pv ys a d nx v] assms by auto
qed

lemma relink_prev:
  assumes "dll N pv xs nx" "distinct (map fst xs)" "xs \<noteq> []"
  shows "\<exists>N'. set_prev N (first_addr xs nx) v = Inr N' \<and> dll N' v xs nx \<and>
      (\<forall>b. b \<noteq> first_addr xs nx \<longrightarrow> N' b = N b)"
proof -
  obtain ys a d where "xs = (a, d) # ys"
    using assms(3) by (metis list.exhaust surj_pair)
  then show ?thesis using dll_set_prev[of N pv a d ys nx v] assms by auto
qed

lemma step_prev:
  assumes "dll N pv ys 0" "cells_ok A ys"
  shows "\<exists>N'. (if first_addr ys 0 \<noteq> 0
      then bindR (Some (set_prev N (first_addr ys 0) v)) (\<lambda>N. ret (N, l))
      else ret (N, l\<lparr>l_tail := t\<rparr>)) = ret (N', if ys = [] then l\<lparr>l_tail := t\<rparr> else l) \<and>
    dll N' v ys 0 \<and> (\<forall>b. b \<notin> fst ` set ys \<longrightarrow> N' b = N b)"
proof (cases "ys = []")
  case False
  obtain N' where n: "set_prev N (first_addr ys 0) v = Inr N'" "dll N' v ys 0"
    "\<And>b. b \<noteq> first_addr ys 0 \<Longrightarrow> N' b = N b"
    using relink_prev[of N pv ys 0 v] False assms by (auto simp: cells_ok_def)
  have "\<And>b. b \<notin> fst ` set ys \<Longrightarrow> N' b = N b"
    using n(3) first_addr_in[OF False, of 0] by metis
  then show ?thesis using n False cells_ok_0(1)[OF assms(2)] by auto
qed simp

lemma step_next:
  assumes "dll N 0 xs nx" "cells_ok A xs"
  shows "\<exists>N'. (if last_addr xs 0 \<noteq> 0
      then bindR (Some (set_next N (last_addr xs 0) v)) (\<lambda>N. ret (N, l))
      else ret (N, l\<lparr>l_head := t\<rparr>)) = ret (N', if xs = [] then l\<lparr>l_head := t\<rparr> else l) \<and>
    dll N' 0 xs v \<and> (\<forall>b. b \<notin> fst ` set xs \<longrightarrow> N' b = N b)"
proof (cases "xs = []")
  case False
  obtain N' where n: "set_next N (last_addr xs 0) v = Inr N'" "dll N' 0 xs v"
    "\<And>b. b \<noteq> last_addr xs 0 \<Longrightarrow> N' b = N b"
    using relink_next[of N 0 xs nx v] False assms by (auto simp: cells_ok_def)
  have "\<And>b. b \<notin> fst ` set xs \<Longrightarrow> N' b = N b"
    using n(3) last_addr_in[OF False, of 0] by metis
  then show ?thesis using n False cells_ok_0(2)[OF assms(2)] by auto
qed simp

lemma last_addr_nonempty: "xs \<noteq> [] \<Longrightarrow> last_addr xs a = last_addr xs b"
  by (simp add: last_addr_def)

lemma first_addr_nonempty: "xs \<noteq> [] \<Longrightarrow> first_addr xs a = first_addr xs b"
  by (simp add: first_addr_def)

lemma list_clear_returns:
  assumes "list_clear kf st l = Some r"
  shows "l_head l \<noteq> 0 \<or> l_size l = 0"
  by (rule list_clear.raw_induct[where P = "\<lambda>kf st l r. l_head l \<noteq> 0 \<or> l_size l = 0", OF _ assms])
    (fastforce simp: list_dequeue_def split: if_splits)

context allocator
begin

abbreviation rep :: "('h, 'd) lstate \<Rightarrow> klst \<Rightarrow> 'd cells \<Rightarrow> bool" where
  "rep st l xs \<equiv> inv (ls_heap st) \<and> lrep (ls_nodes st) (ptrs (ls_heap st)) l xs"

abbreviation frame :: "('h, 'd) lstate \<Rightarrow> ('h, 'd) lstate \<Rightarrow> addr set \<Rightarrow> bool" where
  "frame st st' A \<equiv> (\<forall>b. b \<notin> A \<longrightarrow> ls_nodes st' b = ls_nodes st b)"

lemma alloc_node_ok:
  assumes "inv (ls_heap st)" "alloc_node alloc st = Some (Inr (p, st'))"
  shows "inv (ls_heap st')" "p \<noteq> 0" "p \<notin> ptrs (ls_heap st)" "ptrs (ls_heap st') = insert p (ptrs (ls_heap st))"
    "ls_nodes st' = ls_nodes st"
  using assms alloc_fresh[of "ls_heap st" sizeof_lnode]
  by (auto simp: alloc_node_def bindR_ret split: if_splits)

lemma free_node_ok:
  assumes "inv (ls_heap st)" "p \<in> ptrs (ls_heap st)"
  shows "\<exists>st'. free_node dealloc st p = ret st' \<and> inv (ls_heap st') \<and>
    ptrs (ls_heap st') = ptrs (ls_heap st) - {p} \<and> ls_nodes st' = (ls_nodes st)(p := None)"
  using dealloc_ok[OF assms] by (auto simp: free_node_def)

lemma list_enqueue_refines:
  assumes rep: "rep st l xs" and run: "list_enqueue alloc st l d = ret (l', st')"
  shows "\<exists>p. p \<notin> ptrs (ls_heap st) \<and> rep st' l' (xs @ [(p, d)]) \<and> l_size l' = add64 (l_size l) 1 \<and>
    frame st st' (insert p (fst ` set xs)) \<and> ptrs (ls_heap st') = insert p (ptrs (ls_heap st))"
proof -
  obtain p st1 where al: "alloc_node alloc st = ret (p, st1)"
    using run by (auto simp: list_enqueue_def bindR_ret)
  note ok = alloc_node_ok[OF _ al]
  have fresh: "p \<notin> fst ` set xs" using rep ok by (auto simp: lrep_def cells_ok_def)
  define N where "N = (ls_nodes st)(p \<mapsto> \<lparr>ln_next = 0, ln_prev = l_tail l, ln_data = d\<rparr>)"
  have dN: "dll N 0 xs 0" using rep fresh by (simp add: N_def lrep_def)
  obtain N' where N': "(if last_addr xs 0 \<noteq> 0
      then bindR (Some (set_next N (last_addr xs 0) p)) (\<lambda>N. ret (N, l))
      else ret (N, l\<lparr>l_head := p\<rparr>)) = ret (N', if xs = [] then l\<lparr>l_head := p\<rparr> else l)"
    "dll N' 0 xs p" "\<And>b. b \<notin> fst ` set xs \<Longrightarrow> N' b = N b"
    using step_next[OF dN, of "ptrs (ls_heap st)" p l p] rep by (auto simp: lrep_def)
  have tl: "l_tail l = last_addr xs 0" and co: "cells_ok (ptrs (ls_heap st)) xs" and n0: "ls_nodes st 0 = None"
    and hd: "l_head l = first_addr xs 0"
    using rep by (auto simp: lrep_def)
  have r: "l' = (if xs = [] then l\<lparr>l_head := p\<rparr> else l)\<lparr>l_tail := p, l_size := add64 (l_size l) 1\<rparr>"
    "st' = st1\<lparr>ls_nodes := N'\<rparr>"
    using run N'(1) al ok rep tl unfolding list_enqueue_def by (auto simp: N_def Let_def split: if_splits)
  have "N' 0 = None" "N' p = N p" using N'(3) n0 ok rep co fresh by (auto simp: N_def cells_ok_def)
  then have "lrep N' (insert p (ptrs (ls_heap st))) l' (xs @ [(p, d)])"
    using N' r co fresh ok rep hd tl
    by (auto simp: lrep_def cells_simps N_def first_addr_nonempty[of xs 0 p] intro: cells_ok_mono)
  then show ?thesis using ok rep r N'(3) by (auto simp: N_def intro!: exI[of _ p])
qed

lemma list_dequeue_refines:
  assumes rep: "rep st l ((p, d) # xs)"
  shows "\<exists>l' st'. list_dequeue dealloc st l = ret (Some d, l', st') \<and> rep st' l' xs \<and>
    l_size l' = sub64 (l_size l) 1 \<and> frame st st' (insert p (fst ` set xs)) \<and>
    ptrs (ls_heap st') = ptrs (ls_heap st) - {p}"
proof -
  let ?x = "\<lparr>ln_next = first_addr xs 0, ln_prev = 0, ln_data = d\<rparr>"
  let ?l = "l\<lparr>l_head := first_addr xs 0\<rparr>"
  have l: "l_head l = p" "l_tail l = last_addr xs p" "ls_nodes st 0 = None"
    and co: "cells_ok (ptrs (ls_heap st)) xs" "p \<noteq> 0" "p \<notin> fst ` set xs" "p \<in> ptrs (ls_heap st)"
    and dN: "dll (ls_nodes st) p xs 0" "ls_nodes st p = Some ?x"
    using rep by (auto simp: lrep_def cells_simps)
  obtain N where N: "(if first_addr xs 0 \<noteq> 0
      then bindR (Some (set_prev (ls_nodes st) (first_addr xs 0) 0)) (\<lambda>N. ret (N, ?l))
      else ret (ls_nodes st, ?l\<lparr>l_tail := 0\<rparr>)) = ret (N, if xs = [] then ?l\<lparr>l_tail := 0\<rparr> else ?l)"
    "dll N 0 xs 0" "\<And>b. b \<notin> fst ` set xs \<Longrightarrow> N b = ls_nodes st b"
    using step_prev[OF dN(1) co(1), of 0 ?l 0] by auto
  obtain st' where st': "free_node dealloc (st\<lparr>ls_nodes := N\<rparr>) p = ret st'" "inv (ls_heap st')"
    "ptrs (ls_heap st') = ptrs (ls_heap st) - {p}" "ls_nodes st' = N(p := None)"
    using free_node_ok[of "st\<lparr>ls_nodes := N\<rparr>" p] rep co by auto
  let ?l' = "(if xs = [] then ?l\<lparr>l_tail := 0\<rparr> else ?l)\<lparr>l_size := sub64 (l_size l) 1\<rparr>"
  have "list_dequeue dealloc st l = ret (Some d, ?l', st')"
    by (simp only: list_dequeue_def Let_def l(1,2) co(2) dN(2) load_simps bindR_simps lnode.select_convs N(1)
        if_False case_prod_conv) (simp add: st' N(3)[OF co(3)] dN(2))
  moreover have "N 0 = None" using N(3) l co by (auto simp: cells_ok_def)
  then have "lrep (ls_nodes st') (ptrs (ls_heap st')) ?l' xs"
    using N(2) st' co l cells_ok_minus[OF co(1,3)] last_addr_nonempty[of xs p 0] by (simp add: lrep_def)
  ultimately show ?thesis using st' N(3) by auto
qed

lemma list_pop_back_refines:
  assumes rep: "rep st l (xs @ [(p, d)])"
  shows "\<exists>l' st'. list_pop_back dealloc st l = ret (Some d, l', st') \<and> rep st' l' xs \<and>
    l_size l' = sub64 (l_size l) 1 \<and> frame st st' (insert p (fst ` set xs)) \<and>
    ptrs (ls_heap st') = ptrs (ls_heap st) - {p}"
proof -
  let ?x = "\<lparr>ln_next = 0, ln_prev = last_addr xs 0, ln_data = d\<rparr>"
  let ?l = "l\<lparr>l_tail := last_addr xs 0\<rparr>"
  have l: "l_head l = first_addr xs p" "l_tail l = p" "ls_nodes st 0 = None"
    and co: "cells_ok (ptrs (ls_heap st)) xs" "p \<noteq> 0" "p \<notin> fst ` set xs" "p \<in> ptrs (ls_heap st)"
    and dN: "dll (ls_nodes st) 0 xs p" "ls_nodes st p = Some ?x"
    using rep by (auto simp: lrep_def cells_simps)
  obtain N where N: "(if last_addr xs 0 \<noteq> 0
      then bindR (Some (set_next (ls_nodes st) (last_addr xs 0) 0)) (\<lambda>N. ret (N, ?l))
      else ret (ls_nodes st, ?l\<lparr>l_head := 0\<rparr>)) = ret (N, if xs = [] then ?l\<lparr>l_head := 0\<rparr> else ?l)"
    "dll N 0 xs 0" "\<And>b. b \<notin> fst ` set xs \<Longrightarrow> N b = ls_nodes st b"
    using step_next[OF dN(1) co(1), of 0 ?l 0] by auto
  obtain st' where st': "free_node dealloc (st\<lparr>ls_nodes := N\<rparr>) p = ret st'" "inv (ls_heap st')"
    "ptrs (ls_heap st') = ptrs (ls_heap st) - {p}" "ls_nodes st' = N(p := None)"
    using free_node_ok[of "st\<lparr>ls_nodes := N\<rparr>" p] rep co by auto
  let ?l' = "(if xs = [] then ?l\<lparr>l_head := 0\<rparr> else ?l)\<lparr>l_size := sub64 (l_size l) 1\<rparr>"
  have "list_pop_back dealloc st l = ret (Some d, ?l', st')"
    by (simp only: list_pop_back_def Let_def l(1,2) co(2) dN(2) load_simps bindR_simps lnode.select_convs N(1)
        if_False case_prod_conv) (simp add: st' N(3)[OF co(3)] dN(2))
  moreover have "N 0 = None" using N(3) l co by (auto simp: cells_ok_def)
  then have "lrep (ls_nodes st') (ptrs (ls_heap st')) ?l' xs"
    using N(2) st' co l cells_ok_minus[OF co(1,3)] first_addr_nonempty[of xs p 0] by (simp add: lrep_def)
  ultimately show ?thesis using st' N(3) by auto
qed

lemma list_remove_refines:
  assumes rep: "rep st l (xs @ (p, d) # ys)"
  shows "\<exists>l' st'. list_remove dealloc st l (length xs) = ret (d, l', st') \<and> rep st' l' (xs @ ys) \<and>
    l_size l' = l_size l \<and> frame st st' (insert p (fst ` set (xs @ ys))) \<and>
    ptrs (ls_heap st') = ptrs (ls_heap st) - {p}"
proof -
  let ?x = "\<lparr>ln_next = first_addr ys 0, ln_prev = last_addr xs 0, ln_data = d\<rparr>"
  have l: "l_head l = first_addr xs p" "l_tail l = last_addr ys p" "ls_nodes st 0 = None"
    and co: "cells_ok (ptrs (ls_heap st)) xs" "cells_ok (ptrs (ls_heap st)) ys"
      "p \<noteq> 0" "p \<notin> fst ` set xs" "p \<notin> fst ` set ys" "p \<in> ptrs (ls_heap st)" "fst ` set xs \<inter> fst ` set ys = {}"
    and dN: "dll (ls_nodes st) 0 xs p" "ls_nodes st p = Some ?x" "dll (ls_nodes st) p ys 0"
    using rep by (auto simp: lrep_def cells_simps)
  have walk: "list_get_impl st l (length xs) = Inr p"
    using list_walk_ok[of "ls_nodes st" 0 xs "(p, d) # ys" 0] dN l by (simp add: list_get_impl_def)
  let ?l1 = "if ys = [] then l\<lparr>l_tail := last_addr xs 0\<rparr> else l"
  let ?l2 = "if xs = [] then ?l1\<lparr>l_head := first_addr ys 0\<rparr> else ?l1"
  obtain N where N: "(if first_addr ys 0 \<noteq> 0
      then bindR (Some (set_prev (ls_nodes st) (first_addr ys 0) (last_addr xs 0))) (\<lambda>N. ret (N, l))
      else ret (ls_nodes st, l\<lparr>l_tail := last_addr xs 0\<rparr>)) = ret (N, ?l1)"
    "dll N (last_addr xs 0) ys 0" "\<And>b. b \<notin> fst ` set ys \<Longrightarrow> N b = ls_nodes st b"
    using step_prev[OF dN(3) co(2), of "last_addr xs 0" l "last_addr xs 0"] by auto
  have dx: "dll N 0 xs p" using dN(1) N(3) co(7) by (auto intro!: dll_frame[OF dN(1)])
  obtain N' where N': "(if last_addr xs 0 \<noteq> 0
      then bindR (Some (set_next N (last_addr xs 0) (first_addr ys 0))) (\<lambda>N. ret (N, ?l1))
      else ret (N, ?l1\<lparr>l_head := first_addr ys 0\<rparr>)) = ret (N', ?l2)"
    "dll N' 0 xs (first_addr ys 0)" "\<And>b. b \<notin> fst ` set xs \<Longrightarrow> N' b = N b"
    using step_next[OF dx co(1), of "first_addr ys 0" ?l1 "first_addr ys 0"] by auto
  have dy: "dll N' (last_addr xs 0) ys 0" using N'(3) co(7) by (auto intro!: dll_frame[OF N(2)])
  obtain st' where st': "free_node dealloc (st\<lparr>ls_nodes := N'\<rparr>) p = ret st'" "inv (ls_heap st')"
    "ptrs (ls_heap st') = ptrs (ls_heap st) - {p}" "ls_nodes st' = N'(p := None)"
    using free_node_ok[of "st\<lparr>ls_nodes := N'\<rparr>" p] rep co by auto
  have "list_remove dealloc st l (length xs) = ret (d, ?l2, st')"
    by (simp only: list_remove_def walk dN(2) load_simps bindR_simps lnode.select_convs N(1) N'(1)
        case_prod_conv st'(1))
  moreover have n0: "N' 0 = None" using N(3) N'(3) l co by (auto simp: cells_ok_def)
  have "lrep (ls_nodes st') (ptrs (ls_heap st')) ?l2 (xs @ ys)"
    using N'(2) dy st' co l n0 cells_ok_minus[OF co(1,4)] cells_ok_minus[OF co(2,5)]
      first_addr_nonempty[of xs p "first_addr ys 0"] last_addr_nonempty[of ys p "last_addr xs 0"]
    by (simp add: lrep_def cells_simps)
  moreover have "frame st st' (insert p (fst ` set (xs @ ys)))" using st'(4) N(3) N'(3) by (auto simp: image_Un)
  moreover have "l_size ?l2 = l_size l" by simp
  ultimately show ?thesis using st'(2,3) by blast
qed

lemma list_insert_refines:
  assumes rep: "rep st l (xs @ ys)" and al: "alloc_node alloc st = ret (q, st1)"
    and l: "lh = (if xs = [] then l\<lparr>l_head := q\<rparr> else l)" "l' = (if ys = [] then lh\<lparr>l_tail := q\<rparr> else lh)"
    and dx: "dll N 0 xs q" and dy: "dll N q ys 0"
    and q: "N q = Some \<lparr>ln_next = first_addr ys 0, ln_prev = last_addr xs 0, ln_data = e\<rparr>"
    and fr: "\<And>b. b \<notin> insert q (fst ` set (xs @ ys)) \<Longrightarrow> N b = ls_nodes st b"
  shows "rep (st1\<lparr>ls_nodes := N\<rparr>) l' (xs @ (q, e) # ys) \<and> l_size l' = l_size l"
proof -
  note ok = alloc_node_ok[OF _ al]
  have co: "cells_ok (ptrs (ls_heap st)) (xs @ ys)" "q \<notin> ptrs (ls_heap st)" "q \<noteq> 0" "N 0 = None"
    using rep ok fr[of 0] by (auto simp: lrep_def cells_ok_def)
  then have "cells_ok (insert q (ptrs (ls_heap st))) (xs @ (q, e) # ys)"
    by (auto simp: cells_ok_def)
  moreover have "l_head l' = first_addr xs q" "l_tail l' = last_addr ys q"
    using rep l first_addr_nonempty[of xs q "first_addr ys 0"] last_addr_nonempty[of ys q "last_addr xs 0"]
    by (auto simp: lrep_def)
  ultimately show ?thesis using ok rep dx dy q co l by (simp add: lrep_def)
qed

lemma list_insert_after_refines:
  assumes rep: "rep st l (xs @ (p, d) # ys)" and run: "list_insert_after alloc st l (length xs) e = ret (l', st')"
  shows "\<exists>q. q \<notin> ptrs (ls_heap st) \<and> rep st' l' (xs @ (p, d) # (q, e) # ys) \<and> l_size l' = l_size l \<and>
    frame st st' (insert q (fst ` set (xs @ (p, d) # ys)))"
proof -
  let ?xs = "xs @ [(p, d)]"
  have co: "cells_ok (ptrs (ls_heap st)) ?xs" "cells_ok (ptrs (ls_heap st)) ys"
      "p \<noteq> 0" "fst ` set ?xs \<inter> fst ` set ys = {}" "p \<in> ptrs (ls_heap st)"
    and dN: "dll (ls_nodes st) 0 ?xs (first_addr ys 0)" "dll (ls_nodes st) p ys 0"
      "ls_nodes st p = Some \<lparr>ln_next = first_addr ys 0, ln_prev = last_addr xs 0, ln_data = d\<rparr>"
    using rep by (auto simp: lrep_def cells_simps)
  have walk: "list_walk (ls_nodes st) (l_head l) (length xs) = Inr p"
    using list_walk_ok[of "ls_nodes st" 0 xs "(p, d) # ys" 0] rep by (simp add: lrep_def)
  obtain q st1 where al: "alloc_node alloc st = ret (q, st1)"
    using run walk by (auto simp: list_insert_after_def bindR_ret)
  note ok = alloc_node_ok[OF conjunct1[OF rep] al]
  have fresh: "q \<notin> fst ` set ?xs" "q \<notin> fst ` set ys" using co ok by (auto simp: cells_ok_def)
  define N where "N = (ls_nodes st)(q \<mapsto> \<lparr>ln_next = first_addr ys 0, ln_prev = p, ln_data = e\<rparr>)"
  have d1: "dll N p ys 0" using dN fresh by (simp add: N_def)
  let ?l1 = "if ys = [] then l\<lparr>l_tail := q\<rparr> else l"
  obtain N1 where N1: "(if first_addr ys 0 \<noteq> 0
      then bindR (Some (set_prev N (first_addr ys 0) q)) (\<lambda>N. ret (N, l))
      else ret (N, l\<lparr>l_tail := q\<rparr>)) = ret (N1, ?l1)"
    "dll N1 q ys 0" "\<And>b. b \<notin> fst ` set ys \<Longrightarrow> N1 b = N b"
    using step_prev[OF d1 co(2), of q l q] by auto
  have "dll N 0 ?xs (first_addr ys 0)" using dN(1) fresh(1) by (simp add: N_def)
  then have d2: "dll N1 0 ?xs (first_addr ys 0)"
    by (rule dll_frame) (use N1(3) co(4) in blast)
  obtain N2 where N2: "set_next N1 p q = Inr N2" "dll N2 0 ?xs q" "\<And>b. b \<notin> fst ` set ?xs \<Longrightarrow> N2 b = N1 b"
    using step_next[OF d2 co(1), of q l q] co(3) by (auto simp: bindR_ret)
  have d3: "dll N2 q ys 0" by (rule dll_frame[OF N1(2)]) (use N2(3) co(4) in blast)
  have q: "N2 q = Some \<lparr>ln_next = first_addr ys 0, ln_prev = last_addr ?xs 0, ln_data = e\<rparr>"
    using N2(3)[OF fresh(1)] N1(3)[OF fresh(2)] by (simp add: N_def)
  have fr: "N2 b = ls_nodes st b" if "b \<notin> insert q (fst ` set (?xs @ ys))" for b
    using that N2(3)[of b] N1(3)[of b] by (simp add: N_def image_Un)
  have "list_insert_after alloc st l (length xs) e = ret (?l1, st1\<lparr>ls_nodes := N2\<rparr>)"
    by (simp only: list_insert_after_def walk al ok(5) dN(3) load_simps bindR_simps Let_def lnode.select_convs
        N_def[symmetric] N1(1) case_prod_conv co(3) N2(1) not_False_eq_True if_True)
  then have r: "l' = ?l1" "st' = st1\<lparr>ls_nodes := N2\<rparr>" using run by auto
  have "rep st' l' (?xs @ (q, e) # ys) \<and> l_size l' = l_size l"
    unfolding r(2) using rep by (intro list_insert_refines[OF _ al _ _ N2(2) d3 q fr, of l "l"]) (auto simp: r)
  then show ?thesis using ok fr r by (auto intro!: exI[of _ q])
qed

lemma list_insert_before_refines:
  assumes rep: "rep st l (xs @ (p, d) # ys)" and run: "list_insert_before alloc st l (length xs) e = ret (l', st')"
  shows "\<exists>q. q \<notin> ptrs (ls_heap st) \<and> rep st' l' (xs @ (q, e) # (p, d) # ys) \<and> l_size l' = l_size l \<and>
    frame st st' (insert q (fst ` set (xs @ (p, d) # ys)))"
proof -
  let ?ys = "(p, d) # ys"
  have co: "cells_ok (ptrs (ls_heap st)) xs" "cells_ok (ptrs (ls_heap st)) ?ys"
      "p \<noteq> 0" "fst ` set xs \<inter> fst ` set ?ys = {}" "p \<in> ptrs (ls_heap st)"
    and dN: "dll (ls_nodes st) 0 xs p" "dll (ls_nodes st) (last_addr xs 0) ?ys 0"
      "ls_nodes st p = Some \<lparr>ln_next = first_addr ys 0, ln_prev = last_addr xs 0, ln_data = d\<rparr>"
    using rep by (auto simp: lrep_def cells_simps)
  have walk: "list_walk (ls_nodes st) (l_head l) (length xs) = Inr p"
    using list_walk_ok[of "ls_nodes st" 0 xs "(p, d) # ys" 0] rep by (simp add: lrep_def)
  obtain q st1 where al: "alloc_node alloc st = ret (q, st1)"
    using run walk by (auto simp: list_insert_before_def bindR_ret)
  note ok = alloc_node_ok[OF conjunct1[OF rep] al]
  have fresh: "q \<notin> fst ` set xs" "q \<notin> fst ` set ?ys" using co ok by (auto simp: cells_ok_def)
  define N where "N = (ls_nodes st)(q \<mapsto> \<lparr>ln_next = p, ln_prev = last_addr xs 0, ln_data = e\<rparr>)"
  have d1: "dll N 0 xs p" using dN fresh by (simp add: N_def)
  let ?l1 = "if xs = [] then l\<lparr>l_head := q\<rparr> else l"
  obtain N1 where N1: "(if last_addr xs 0 \<noteq> 0
      then bindR (Some (set_next N (last_addr xs 0) q)) (\<lambda>N. ret (N, l))
      else ret (N, l\<lparr>l_head := q\<rparr>)) = ret (N1, ?l1)"
    "dll N1 0 xs q" "\<And>b. b \<notin> fst ` set xs \<Longrightarrow> N1 b = N b"
    using step_next[OF d1 co(1), of q l q] by auto
  have "dll N (last_addr xs 0) ?ys 0" using dN(2) fresh(2) by (simp add: N_def)
  then have d2: "dll N1 (last_addr xs 0) ?ys 0"
    by (rule dll_frame) (use N1(3) co(4) in blast)
  obtain N2 where N2: "set_prev N1 p q = Inr N2" "dll N2 q ?ys 0" "\<And>b. b \<notin> fst ` set ?ys \<Longrightarrow> N2 b = N1 b"
    using step_prev[OF d2 co(2), of q l q] co(3) by (auto simp: bindR_ret)
  have d3: "dll N2 0 xs q" by (rule dll_frame[OF N1(2)]) (use N2(3) co(4) in blast)
  have q: "N2 q = Some \<lparr>ln_next = first_addr ?ys 0, ln_prev = last_addr xs 0, ln_data = e\<rparr>"
    using N2(3)[OF fresh(2)] N1(3)[OF fresh(1)] by (simp add: N_def)
  have fr: "N2 b = ls_nodes st b" if "b \<notin> insert q (fst ` set (xs @ ?ys))" for b
    using that N2(3)[of b] N1(3)[of b] by (simp add: N_def image_Un)
  have "list_insert_before alloc st l (length xs) e = ret (?l1, st1\<lparr>ls_nodes := N2\<rparr>)"
    by (simp only: list_insert_before_def walk al ok(5) dN(3) load_simps bindR_simps Let_def lnode.select_convs
        N_def[symmetric] N1(1) case_prod_conv co(3) N2(1) not_False_eq_True if_True)
  then have r: "l' = ?l1" "st' = st1\<lparr>ls_nodes := N2\<rparr>" using run by auto
  have "rep st' l' (xs @ (q, e) # ?ys) \<and> l_size l' = l_size l"
    unfolding r(2) using rep by (intro list_insert_refines[OF _ al _ _ d3 N2(2) q fr, of l "?l1"]) (auto simp: r)
  then show ?thesis using ok fr r by (auto intro!: exI[of _ q])
qed

lemma list_get_refines:
  assumes "rep st l xs"
  shows "list_get st l i = kl_get (klist_of l xs) i"
proof (cases "i < length xs")
  case True
  then obtain ys a d zs where xs: "xs = ys @ (a, d) # zs" "length ys = i"
    by (metis id_take_nth_drop length_take less_imp_le min.absorb2 surj_pair)
  then show ?thesis
    using assms list_walk_ok[of "ls_nodes st" 0 ys "(a, d) # zs" 0]
    by (auto simp: list_get_def list_get_impl_def kl_get_def klist_of_def lrep_def nth_append)
next
  case False
  then show ?thesis
    using assms list_walk_off[of "ls_nodes st" 0 xs i]
    by (simp add: list_get_def list_get_impl_def kl_get_def klist_of_def lrep_def)
qed

lemma list_set_refines:
  assumes "rep st l (xs @ (p, d) # ys)"
  shows "\<exists>st'. list_set st l (length xs) e = Inr st' \<and> rep st' l (xs @ (p, e) # ys)"
  using assms list_walk_ok[of "ls_nodes st" 0 xs "(p, d) # ys" 0]
  by (auto simp: list_set_def list_get_impl_def lrep_def cells_simps)

lemma list_back_refines: "rep st l xs \<Longrightarrow> list_back st l = kl_back (klist_of l xs)"
  by (cases xs rule: rev_cases) (auto simp: list_back_def kl_back_def klist_of_def lrep_def)

lemma list_enqueue_total:
  assumes rep: "rep st l xs"
  shows "list_enqueue alloc st l d = Some (Inl InvalidOpcode) \<or> (\<exists>l' st'. list_enqueue alloc st l d = ret (l', st'))"
proof (cases "alloc (ls_heap st) sizeof_lnode = Some (Inl InvalidOpcode)")
  case True
  then show ?thesis by (simp add: list_enqueue_def alloc_node_def)
next
  case False
  then obtain p h where al: "alloc (ls_heap st) sizeof_lnode = ret (p, h)"
    using alloc_total[of "ls_heap st" sizeof_lnode] rep by auto
  with rep have "p \<noteq> 0" "p \<notin> ptrs (ls_heap st)" using alloc_fresh[of "ls_heap st" sizeof_lnode p h] by auto
  moreover have "last_addr xs 0 = 0 \<or> ls_nodes st (last_addr xs 0) \<noteq> None"
    using rep by (cases xs rule: rev_cases) (auto simp: lrep_def)
  ultimately show ?thesis
    using rep al by (cases "last_addr xs 0 = p") (auto simp: list_enqueue_def alloc_node_def Let_def set_next_def lrep_def)
qed

lemma list_dequeue_empty: "rep st l [] \<Longrightarrow> list_dequeue dealloc st l = ret (None, l, st)"
  by (simp add: list_dequeue_def lrep_def)

lemma list_clear_refines:
  assumes "rep st l xs" "l_size l \<le> length xs" "l_size l < 2 ^ 64"
  shows "\<exists>l' st'. list_clear dealloc st l = ret (l', st') \<and> rep st' l' (drop (l_size l) xs) \<and> l_size l' = 0"
  using assms
proof (induction "l_size l" arbitrary: st l xs)
  case 0
  then show ?case by (simp add: list_clear.simps)
next
  case (Suc n)
  obtain p d ys where xs: "xs = (p, d) # ys" using Suc by (metis Suc_le_length_iff surj_pair)
  obtain l' st' where dq: "list_dequeue dealloc st l = ret (Some d, l', st')" "rep st' l' ys"
    "l_size l' = sub64 (l_size l) 1"
    using list_dequeue_refines[of st l p d ys] Suc.prems xs by auto
  have sz: "l_size l = Suc n" using Suc.hyps(2) by simp
  then have "l_size l' = n" using dq(3) Suc.prems(3) by (simp add: sub64_small)
  then show ?case
    using Suc.hyps(1)[of l' st' ys] dq(1,2) Suc.prems sz xs
    by (simp add: list_clear.simps[of dealloc st l])
qed

lemma list_clear_diverges:
  assumes "rep st l xs" "length xs < l_size l" "l_size l < 2 ^ 64"
  shows "list_clear dealloc st l = None"
  using assms
proof (induction xs arbitrary: st l)
  case Nil
  then show ?case using list_clear_returns[of dealloc st l] by (cases "list_clear dealloc st l") (auto simp: lrep_def)
next
  case (Cons x xs)
  obtain l' st' where dq: "list_dequeue dealloc st l = ret (Some (snd x), l', st')" "rep st' l' xs"
    "l_size l' = sub64 (l_size l) 1"
    using list_dequeue_refines[of st l "fst x" "snd x" xs] Cons.prems by auto
  then have "l_size l' = l_size l - 1" using Cons.prems by (simp add: sub64_small)
  then have "list_clear dealloc st' l' = None"
    using Cons.prems dq by (intro Cons.IH) auto
  then show ?case using dq Cons.prems by (simp add: list_clear.simps[of dealloc st l])
qed

end

subsection \<open>The lists of the kernel\<close>

text \<open>\<open>krep st l xs\<close>: the heap invariant holds and \<open>l\<close> is a list of live nodes with the cells \<open>xs\<close>.\<close>

definition krep :: "(kheap, 'd) lstate \<Rightarrow> klst \<Rightarrow> 'd cells \<Rightarrow> bool" where
  "krep st l xs \<longleftrightarrow> heap_inv (ls_heap st) \<and> lrep (ls_nodes st) (fst ` live (ls_heap st)) l xs"

lemma drop_map_snd: "map snd (drop n xs) = drop n (map snd xs)"
  by (simp add: drop_map)

lemma lrep_frame:
  assumes "lrep N A m ys" "\<And>b. b \<in> fst ` set ys \<Longrightarrow> N' b = N b" "N' 0 = None" "fst ` set ys \<subseteq> B"
  shows "lrep N' B m ys"
  using assms dll_frame[of N 0 ys 0 N'] by (auto simp: lrep_def cells_ok_def)

definition boot_lstate :: "(kheap, nat) lstate" where
  "boot_lstate = \<lparr>ls_heap = boot_heap, ls_nodes = Map.empty\<rparr>"

lemma boot_krep: "krep boot_lstate list_create []"
  by (simp add: krep_def boot_lstate_def lrep_def list_create_def boot_heap_inv)

lemma boot_enqueue: "\<exists>l' st'. list_enqueue kmalloc boot_lstate list_create d = ret (l', st')"
proof -
  have "round32 24 = 32" by (simp add: round32_def)
  then obtain h' where "kmalloc boot_heap 24 = ret (0xffffffffc0000020, h')"
    using kmalloc_refines [OF boot_heap_rep boot_heap_wf boot_heap_lock, of 24] by auto
  then show ?thesis
    by (simp add: list_enqueue_def alloc_node_def boot_lstate_def list_create_def Let_def)
qed

lemma boot_single: "\<exists>l st p. krep st l [(p, d :: nat)] \<and> l_size l = 1"
proof -
  obtain l st where e: "list_enqueue kmalloc boot_lstate list_create d = ret (l, st)"
    using boot_enqueue by blast
  show ?thesis
    using kernel_heap.list_enqueue_refines[of boot_lstate list_create "[]" d l st] boot_krep e
    by (auto simp: krep_def list_create_def)
qed

text \<open>
  C31: \<open>list_enqueue\<close> on the kernel heap appends one node that was not live before, counts it in
  \<^verbatim>\<open>size\<close>, leaves every other list over the same nodes as it was, and fails only where
  \<open>kmalloc\<close> executes \<^verbatim>\<open>ud2\<close>.
\<close>

theorem list_enqueue_appends:
  assumes "krep st l xs" and "krep st m ys" and "fst ` set xs \<inter> fst ` set ys = {}"
  shows "list_enqueue kmalloc st l d = Some (Inl InvalidOpcode) \<or>
    (\<exists>l' st' p. list_enqueue kmalloc st l d = ret (l', st') \<and> krep st' l' (xs @ [(p, d)]) \<and>
       p \<notin> fst ` live (ls_heap st) \<and>
       klist_of l' (xs @ [(p, d)]) = kl_enqueue (klist_of l xs) d \<and> krep st' m ys)"
proof (cases "list_enqueue kmalloc st l d = Some (Inl InvalidOpcode)")
  case False
  then obtain l' st' where e: "list_enqueue kmalloc st l d = ret (l', st')"
    using kernel_heap.list_enqueue_total[of st l xs d] assms by (auto simp: krep_def)
  obtain p where p: "p \<notin> fst ` live (ls_heap st)" "krep st' l' (xs @ [(p, d)])"
    "l_size l' = add64 (l_size l) 1" "\<And>b. b \<noteq> p \<Longrightarrow> b \<notin> fst ` set xs \<Longrightarrow> ls_nodes st' b = ls_nodes st b"
    "fst ` live (ls_heap st') = insert p (fst ` live (ls_heap st))"
    using kernel_heap.list_enqueue_refines[OF _ e, of xs] assms by (auto simp: krep_def)
  have sub: "fst ` set ys \<subseteq> fst ` live (ls_heap st)" using assms by (simp add: krep_def lrep_def cells_ok_def)
  have same: "ls_nodes st' b = ls_nodes st b" if "b \<in> fst ` set ys" for b
    using that p(1) sub assms(3) by (intro p(4)) blast+
  have "lrep (ls_nodes st') (fst ` live (ls_heap st')) m ys"
  proof (rule lrep_frame)
    show "lrep (ls_nodes st) (fst ` live (ls_heap st)) m ys" using assms(2) by (simp add: krep_def)
    show "ls_nodes st' 0 = None" using p(2) by (simp add: krep_def lrep_def)
    show "fst ` set ys \<subseteq> fst ` live (ls_heap st')" using sub p(5) by blast
  qed (rule same)
  then have "krep st' m ys" using p(2) by (simp add: krep_def)
  then show ?thesis using e p by (auto simp: klist_of_def kl_enqueue_def)
qed simp

theorem list_enqueue_appends_witness:
  "\<exists>l st p. list_enqueue kmalloc boot_lstate list_create 7 = ret (l, st) \<and> krep st l [(p, 7)]"
proof -
  obtain l st where e: "list_enqueue kmalloc boot_lstate list_create 7 = ret (l, st)"
    using boot_enqueue by blast
  show ?thesis using list_enqueue_appends[OF boot_krep boot_krep, of 7] e by auto
qed

text \<open>
  \<open>list_dequeue\<close> takes the oldest item and \<open>list_pop_back\<close> the newest: each frees exactly the
  node it unlinks, and the abstract list loses exactly that item.
\<close>

theorem list_dequeue_pop_back:
  assumes "krep st l xs" and "xs \<noteq> []"
  shows "(\<exists>l' st'. list_dequeue kfree st l = ret (Some (snd (hd xs)), l', st') \<and> krep st' l' (tl xs) \<and>
       kl_dequeue (klist_of l xs) = (Some (snd (hd xs)), klist_of l' (tl xs)) \<and>
       fst ` live (ls_heap st') = fst ` live (ls_heap st) - {fst (hd xs)}) \<and>
     (\<exists>l' st'. list_pop_back kfree st l = ret (Some (snd (last xs)), l', st') \<and> krep st' l' (butlast xs) \<and>
       kl_pop_back (klist_of l xs) = (Some (snd (last xs)), klist_of l' (butlast xs)) \<and>
       fst ` live (ls_heap st') = fst ` live (ls_heap st) - {fst (last xs)})"
proof -
  obtain p d ys where xs: "xs = (p, d) # ys" using assms(2) by (metis list.exhaust surj_pair)
  obtain q e zs where xs': "xs = zs @ [(q, e)]" using assms(2) by (metis append_butlast_last_id surj_pair)
  have 1: "\<exists>l' st'. list_dequeue kfree st l = ret (Some d, l', st') \<and> krep st' l' ys \<and>
      l_size l' = sub64 (l_size l) 1 \<and> fst ` live (ls_heap st') = fst ` live (ls_heap st) - {p}"
    using kernel_heap.list_dequeue_refines[of st l p d ys] assms(1) unfolding xs krep_def by blast
  have 2: "\<exists>l' st'. list_pop_back kfree st l = ret (Some e, l', st') \<and> krep st' l' zs \<and>
      l_size l' = sub64 (l_size l) 1 \<and> fst ` live (ls_heap st') = fst ` live (ls_heap st) - {q}"
    using kernel_heap.list_pop_back_refines[of st l zs q e] assms(1) unfolding xs' krep_def by blast
  have 3: "kl_dequeue (klist_of l xs) = (Some d, \<lparr>kl_items = map snd ys, kl_size = sub64 (l_size l) 1\<rparr>)"
    by (simp add: xs klist_of_def kl_dequeue_def)
  have 4: "kl_pop_back (klist_of l xs) = (Some e, \<lparr>kl_items = map snd zs, kl_size = sub64 (l_size l) 1\<rparr>)"
    by (simp add: xs' klist_of_def kl_pop_back_def)
  have h: "hd xs = (p, d)" "tl xs = ys" by (simp_all add: xs)
  have t: "last xs = (q, e)" "butlast xs = zs" by (simp_all add: xs')
  show ?thesis unfolding h t 3 4 using 1 2 by (fastforce simp: klist_of_def)
qed

theorem list_dequeue_pop_back_witness:
  "\<exists>(st :: (kheap, nat) lstate) l l' st' p. krep st l [(p, 7)] \<and> list_dequeue kfree st l = ret (Some 7, l', st') \<and> krep st' l' []"
proof -
  obtain l p and st :: "(kheap, nat) lstate" where "krep st l [(p, 7)]" using boot_single[of "7::nat"] by blast
  then show ?thesis using list_dequeue_pop_back[of st l "[(p, 7)]"] by fastforce
qed

text \<open>
  C32: \<open>list_remove\<close> and \<open>list_insert_before\<close> unlink and link the node at any position; both leave
  the \<^verbatim>\<open>size\<close> field as it was, so it no longer counts the nodes.
\<close>

theorem list_remove_insert_keep_size:
  assumes "krep st l (xs @ (p, d) # ys)"
  shows "(\<exists>l' st'. list_remove kfree st l (length xs) = ret (d, l', st') \<and> krep st' l' (xs @ ys) \<and>
       kl_remove (klist_of l (xs @ (p, d) # ys)) (length xs) = Inr (d, klist_of l' (xs @ ys)) \<and> l_size l' = l_size l) \<and>
     (\<forall>l' st'. list_insert_before kmalloc st l (length xs) e = ret (l', st') \<longrightarrow>
       (\<exists>q. krep st' l' (xs @ (q, e) # (p, d) # ys) \<and> l_size l' = l_size l \<and>
         kl_insert_before (klist_of l (xs @ (p, d) # ys)) (length xs) e =
           Inr (klist_of l' (xs @ (q, e) # (p, d) # ys))))"
proof -
  have "\<exists>l' st'. list_remove kfree st l (length xs) = ret (d, l', st') \<and> krep st' l' (xs @ ys) \<and> l_size l' = l_size l"
    using kernel_heap.list_remove_refines[of st l xs p d ys] assms unfolding krep_def by blast
  moreover have "\<exists>q. krep st' l' (xs @ (q, e) # (p, d) # ys) \<and> l_size l' = l_size l"
    if "list_insert_before kmalloc st l (length xs) e = ret (l', st')" for l' st'
    using kernel_heap.list_insert_before_refines[OF _ that, of p d ys] assms unfolding krep_def by blast
  ultimately show ?thesis
    by (fastforce simp: klist_of_def kl_remove_def kl_insert_before_def nth_append)
qed

theorem list_remove_insert_keep_size_witness:
  "\<exists>(st :: (kheap, nat) lstate) l l' st' p. krep st l [(p, 7)] \<and> list_remove kfree st l 0 = ret (7, l', st') \<and>
     krep st' l' [] \<and> l_size l' = 1"
proof -
  obtain l p and st :: "(kheap, nat) lstate" where "krep st l [(p, 7)]" "l_size l = 1"
    using boot_single[of "7::nat"] by blast
  then show ?thesis using list_remove_insert_keep_size[of st l "[]" p 7 "[]" 0] by fastforce
qed

text \<open>
  \<open>list_clear\<close> returns exactly when the \<^verbatim>\<open>size\<close> field is at most the number of nodes,
  and then drops that many items. In particular it does not return on a list from which
  \<open>list_remove\<close> has removed an item and no insertion has been missed.
\<close>

theorem list_clear_exact:
  assumes "krep st l xs" and "l_size l < 2 ^ 64"
  shows "case kl_clear (klist_of l xs) of
      None \<Rightarrow> list_clear kfree st l = None
    | Some k \<Rightarrow> \<exists>l' st'. list_clear kfree st l = ret (l', st') \<and>
        krep st' l' (drop (l_size l) xs) \<and> klist_of l' (drop (l_size l) xs) = k"
proof (cases "l_size l \<le> length xs")
  case True
  then show ?thesis
    using kernel_heap.list_clear_refines[of st l xs] assms
    by (auto simp: krep_def klist_of_def kl_clear_def drop_map)
next
  case False
  then show ?thesis
    using kernel_heap.list_clear_diverges[of st l xs] assms by (simp add: krep_def klist_of_def kl_clear_def)
qed

theorem list_clear_exact_witness:
  "\<exists>(st :: (kheap, nat) lstate) l l' st' p. krep st l [(p, 7)] \<and> list_clear kfree st l = ret (l', st') \<and> krep st' l' []"
proof -
  obtain l p and st :: "(kheap, nat) lstate" where "krep st l [(p, 7)]" "l_size l = 1"
    using boot_single[of "7::nat"] by blast
  then show ?thesis using list_clear_exact[of st l "[(p, 7)]"]
    by (fastforce simp: kl_clear_def klist_of_def)
qed

end
