(* ===== verification/Kstring.thy ===== *)
theory Kstring
  imports Micro_Prelude "HOL-Library.Signed_Division"
begin

text \<open>
  The kernel's small C library, \<^verbatim>\<open>kernel/kern/stdlib.c\<close> and the inline functions of
  \<^verbatim>\<open>kernel/include/micro/stdlib.h\<close>.

  A string is the list of its characters up to the terminating NUL. Functions that write
  take the array they write to, a list of the size of the array, and fault with \<open>Overrun\<close>
  where they write or read past its end. A pointer into a string is the suffix it points at.
\<close>

abbreviation (input) NUL :: char where "NUL \<equiv> CHR 0x00"

subsection \<open>Arrays\<close>

definition array_get :: "'a list \<Rightarrow> nat \<Rightarrow> 'a res" where
  "array_get a i = (if i < length a then Inr (a ! i) else Inl Overrun)"

definition array_set :: "'a list \<Rightarrow> nat \<Rightarrow> 'a \<Rightarrow> 'a list res" where
  "array_set a i x = (if i < length a then Inr (a[i := x]) else Inl Overrun)"

text \<open>\<open>c_string a\<close> is the string that the array \<open>a\<close> holds.\<close>

definition c_string :: "char list \<Rightarrow> string" where
  "c_string a = takeWhile (\<lambda>c. c \<noteq> NUL) a"

subsection \<open>Scanning\<close>

fun strlen :: "char list \<Rightarrow> nat res" where
  "strlen [] = Inl Overrun"
| "strlen (c # a) = (if c = NUL then Inr 0 else bindS (strlen a) (\<lambda>n. Inr (Suc n)))"

text \<open>The inner loop of \<open>strspn\<close> returns in its first round unless the first delimiter matches.\<close>

fun strspn :: "string \<Rightarrow> string \<Rightarrow> nat" where
  "strspn [] delim = 0"
| "strspn (c # s) delim =
     (case delim of
        [] \<Rightarrow> Suc (strspn s delim)
      | d # _ \<Rightarrow> if c = d then Suc (strspn s delim) else 0)"

fun strcspn :: "string \<Rightarrow> string \<Rightarrow> nat" where
  "strcspn [] delim = 0"
| "strcspn (c # s) delim = (if c \<in> set delim then 0 else Suc (strcspn s delim))"

definition schar :: "char \<Rightarrow> int" where
  "schar c = (let n = of_char c in if n < 128 then n else n - 256)"

fun strncmp :: "char list \<Rightarrow> char list \<Rightarrow> nat \<Rightarrow> int res" where
  "strncmp a b 0 = Inr 0"
| "strncmp (x # a) (y # b) (Suc n) = (if x \<noteq> y then Inr (schar x - schar y) else strncmp a b n)"
| "strncmp _ _ (Suc n) = Inl Overrun"

definition strcmp :: "string \<Rightarrow> string \<Rightarrow> int res" where
  "strcmp s t = (if length s \<noteq> length t then Inr 1 else strncmp (s @ [NUL]) (t @ [NUL]) (length s))"

fun strrchr_loop :: "string \<Rightarrow> char \<Rightarrow> string option \<Rightarrow> string option" where
  "strrchr_loop [] ch i = i"
| "strrchr_loop (c # s) ch i = strrchr_loop s ch (if c = ch then Some (c # s) else i)"

definition strrchr :: "string \<Rightarrow> char \<Rightarrow> string option" where
  "strrchr s ch = strrchr_loop s ch None"

text \<open>
  \<open>strtok_r\<close> returns the token and the new save pointer; the NUL it writes behind the token
  is what separates the two.
\<close>

definition strtok_r :: "string \<Rightarrow> string \<Rightarrow> string option \<times> string" where
  "strtok_r s delim =
     (if s = [] then (None, [])
      else let s = drop (strspn s delim) s in
        if s = [] then (None, [])
        else let e = strcspn s delim in
          if drop e s = [] then (Some s, []) else (Some (take e s), drop (Suc e) s))"

lemma strtok_r_shorter: "strtok_r s delim = (Some t, s') \<Longrightarrow> length s' < length s"
  by (auto simp: strtok_r_def Let_def split: if_splits)

text \<open>The tokens of a string, as the loops over \<open>strtok_r\<close> see them.\<close>

function tokens :: "string \<Rightarrow> string \<Rightarrow> string list" where
  "tokens s delim = (case strtok_r s delim of (None, _) \<Rightarrow> [] | (Some t, s') \<Rightarrow> t # tokens s' delim)"
  by pat_completeness auto
termination by (relation "measure (length \<circ> fst)") (auto dest: strtok_r_shorter [OF sym])

declare tokens.simps [simp del]

subsection \<open>Copying\<close>

fun memcpy_at :: "'a list \<Rightarrow> nat \<Rightarrow> 'a list \<Rightarrow> nat \<Rightarrow> 'a list res" where
  "memcpy_at dst i src 0 = Inr dst"
| "memcpy_at dst i [] (Suc n) = Inl Overrun"
| "memcpy_at dst i (x # src) (Suc n) = bindS (array_set dst i x) (\<lambda>dst. memcpy_at dst (Suc i) src n)"

definition strcpy_at :: "char list \<Rightarrow> nat \<Rightarrow> string \<Rightarrow> char list res" where
  "strcpy_at dst i src =
     bindS (memcpy_at dst i src (length src)) (\<lambda>dst. array_set dst (i + length src) NUL)"

definition strcpy :: "char list \<Rightarrow> string \<Rightarrow> char list res" where
  "strcpy dst src = strcpy_at dst 0 src"

definition strncpy :: "char list \<Rightarrow> char list \<Rightarrow> nat \<Rightarrow> char list res" where
  "strncpy dst src n = bindS (memcpy_at dst 0 src n) (\<lambda>dst. array_set dst n NUL)"

definition strcat :: "char list \<Rightarrow> string \<Rightarrow> char list res" where
  "strcat dst s = bindS (strlen dst) (\<lambda>n. strcpy_at dst n s)"

subsection \<open>Numbers\<close>

definition abs32 :: "int \<Rightarrow> int" where
  "abs32 n = (if n < 0 then if n = - (2 ^ 31) then n else - n else n)"

definition digit_char :: "int \<Rightarrow> char" where
  "digit_char r = (if r \<ge> 10 then char_of (97 + (r - 10)) else char_of (48 + r))"

function itoa_loop :: "int \<Rightarrow> int \<Rightarrow> string" where
  "itoa_loop n base =
     (if n = 0 \<or> base < 2 then [] else digit_char (n smod base) # itoa_loop (n sdiv base) base)"
  by pat_completeness auto
termination
proof (relation "measure (\<lambda>(n, base). nat \<bar>n\<bar>)")
  fix n base :: int assume a: "\<not> (n = 0 \<or> base < 2)"
  then have "\<bar>n\<bar> div base < \<bar>n\<bar>" by (intro int_div_less_self) auto
  moreover have "\<bar>n sdiv base\<bar> = \<bar>n\<bar> div base"
    using a by (simp add: signed_divide_int_def abs_mult sgn_if pos_imp_zdiv_nonneg_iff)
  ultimately show "((n sdiv base, base), (n, base)) \<in> measure (\<lambda>(n, base). nat \<bar>n\<bar>)" by simp
qed simp

declare itoa_loop.simps [simp del]

function strrev_loop :: "char list \<Rightarrow> int \<Rightarrow> int \<Rightarrow> char list" where
  "strrev_loop a i j =
     (if i > j then strrev_loop (a[nat i := a ! nat j, nat j := a ! nat i]) (i - 1) (j + 1) else a)"
  by pat_completeness auto
termination by (relation "measure (\<lambda>(a, i, j). nat (i - j))") auto

declare strrev_loop.simps [simp del]

definition strrev :: "string \<Rightarrow> string" where
  "strrev s = strrev_loop s (int (length s) - 1) 0"

text \<open>The result is what the array holds: with a base out of range, what it held before.\<close>

definition itoa :: "int \<Rightarrow> string \<Rightarrow> int \<Rightarrow> string" where
  "itoa value str base =
     (if base < 2 \<or> base > 32 then str
      else
        let ds = itoa_loop (abs32 value) base;
            ds = (if ds = [] then ''0'' else ds);
            ds = (if value < 0 \<and> base = 10 then ds @ ''-'' else ds)
        in strrev ds)"

definition ultoa :: "nat \<Rightarrow> string \<Rightarrow> int \<Rightarrow> string" where
  "ultoa n str base =
     (if base < 2 \<or> base > 32 then str
      else
        let ds = itoa_loop (int n) base;
            ds = (if ds = [] then ''0'' else ds)
        in strrev ds)"

subsection \<open>Formatted output\<close>

datatype varg = VInt int | VStr string | VULong nat

text \<open>
  The characters that one conversion produces and the arguments left; a conversion the
  \<^verbatim>\<open>switch\<close> does not know produces nothing, and an argument that is not there is read from
  memory nobody passed.
\<close>

fun fmt_conv :: "char \<Rightarrow> varg list \<Rightarrow> (string \<times> varg list) res" where
  "fmt_conv c args =
     (if c = CHR ''%'' then Inr (''%'', args)
      else if c = CHR ''c'' then
        (case args of VInt i # args \<Rightarrow> Inr ([char_of i], args) | _ \<Rightarrow> Inl BadAccess)
      else if c = CHR ''i'' \<or> c = CHR ''d'' then
        (case args of VInt i # args \<Rightarrow> Inr (itoa i [] 10, args) | _ \<Rightarrow> Inl BadAccess)
      else if c = CHR ''s'' then
        (case args of VStr s # args \<Rightarrow> Inr (s, args) | _ \<Rightarrow> Inl BadAccess)
      else if c = CHR ''x'' then
        (case args of VULong u # args \<Rightarrow> Inr (ultoa u [] 16, args) | _ \<Rightarrow> Inl BadAccess)
      else Inr ([], args))"

declare fmt_conv.simps [simp del]

fun snprintf_loop :: "string \<Rightarrow> nat \<Rightarrow> varg list \<Rightarrow> string \<Rightarrow> string res" where
  "snprintf_loop [] n args out = Inr out"
| "snprintf_loop (c # fmt) n args out =
     (if \<not> length out < n then Inr out
      else if c = CHR ''%'' then
        (case fmt of
           [] \<Rightarrow> Inl Overrun
         | d # fmt' \<Rightarrow>
             (case fmt_conv d args of
                Inl f \<Rightarrow> Inl f
              | Inr (s, args') \<Rightarrow> snprintf_loop fmt' n args' (out @ s)))
      else snprintf_loop fmt n args (out @ [c]))"

text \<open>The string \<open>snprintf\<close> stores, without the NUL behind it.\<close>

definition snprintf :: "string \<Rightarrow> nat \<Rightarrow> varg list \<Rightarrow> string res" where
  "snprintf fmt n args = snprintf_loop fmt n args []"

subsection \<open>Strings in arrays\<close>

lemma strlen_ok: "NUL \<in> set a \<Longrightarrow> strlen a = Inr (length (c_string a))"
  by (induction a) (auto simp: c_string_def)

lemma strlen_overrun: "NUL \<notin> set a \<Longrightarrow> strlen a = Inl Overrun"
  by (induction a) auto

lemma memcpy_at_ok:
  "n \<le> length src \<Longrightarrow> i + n \<le> length dst \<Longrightarrow>
    memcpy_at dst i src n = Inr (take i dst @ take n src @ drop (i + n) dst)"
proof (induction dst i src n rule: memcpy_at.induct)
  case (3 dst i x src n)
  then have "take (Suc i) (dst[i := x]) = take i dst @ [x]" by (simp add: take_Suc_conv_app_nth)
  with 3 show ?case by (simp add: array_set_def)
qed simp_all

lemma memcpy_at_overrun:
  "n \<le> length src \<Longrightarrow> i \<le> length dst \<Longrightarrow> length dst < i + n \<Longrightarrow> memcpy_at dst i src n = Inl Overrun"
  by (induction dst i src n rule: memcpy_at.induct) (auto simp: array_set_def)

lemma strcpy_at_ok:
  "i + length s < length dst \<Longrightarrow>
    strcpy_at dst i s = Inr (take i dst @ s @ NUL # drop (Suc (i + length s)) dst)"
  by (simp add: strcpy_at_def memcpy_at_ok array_set_def list_update_append Suc_diff_le
      Cons_nth_drop_Suc[symmetric] nth_append upd_conv_take_nth_drop)

lemma strcpy_at_overrun:
  "i \<le> length dst \<Longrightarrow> length dst \<le> i + length s \<Longrightarrow> strcpy_at dst i s = Inl Overrun"
  by (cases "i + length s = length dst") (simp_all add: strcpy_at_def memcpy_at_ok array_set_def memcpy_at_overrun)

lemma c_string_append: "NUL \<notin> set s \<Longrightarrow> c_string (s @ NUL # a) = s"
  by (simp add: c_string_def takeWhile_append)

lemma c_string_prefix: "NUL \<in> set a \<Longrightarrow> take (length (c_string a)) a = c_string a"
  by (simp add: c_string_def takeWhile_eq_take[symmetric])

lemma c_string_no_nul: "NUL \<notin> set (c_string a)"
  by (auto simp: c_string_def dest: set_takeWhileD)

lemma c_string_length: "NUL \<in> set a \<Longrightarrow> length (c_string a) < length a"
  by (induction a) (auto simp: c_string_def)

lemma strcpy_c_string:
  assumes "length s < length dst" "NUL \<notin> set s"
  shows "\<exists>d. strcpy dst s = Inr d \<and> c_string d = s \<and> length d = length dst \<and> NUL \<in> set d"
  using assms by (simp add: strcpy_def strcpy_at_ok c_string_append)

lemma strcat_ok:
  assumes "NUL \<in> set dst" "length (c_string dst) + length s < length dst" "NUL \<notin> set s"
  shows "\<exists>d. strcat dst s = Inr d \<and> c_string d = c_string dst @ s \<and> length d = length dst \<and> NUL \<in> set d"
proof -
  let ?d = "c_string dst @ s @ NUL # drop (Suc (length (c_string dst) + length s)) dst"
  have "strcat dst s = Inr ?d"
    using assms strcpy_at_ok[of "length (c_string dst)" s dst]
    by (simp add: strcat_def strlen_ok c_string_prefix)
  moreover have "c_string ?d = c_string dst @ s"
    using c_string_append[of "c_string dst @ s"] assms c_string_no_nul[of dst] by simp
  ultimately show ?thesis using assms by auto
qed

lemma strcat_overrun:
  assumes "NUL \<in> set dst" "length dst \<le> length (c_string dst) + length s"
  shows "strcat dst s = Inl Overrun"
  using assms c_string_length[OF assms(1)] by (simp add: strcat_def strlen_ok strcpy_at_overrun)

subsection \<open>Comparing\<close>

lemma schar_inj: "schar x = schar y \<longleftrightarrow> x = y"
proof
  assume "schar x = schar y"
  moreover have "0 \<le> (of_char x :: int)" "(of_char x :: int) < 256" "0 \<le> (of_char y :: int)" "(of_char y :: int) < 256"
    by (simp_all add: of_char_def)
  ultimately have "(of_char x :: int) = of_char y" by (simp add: schar_def Let_def split: if_splits)
  then show "x = y" by simp
qed simp

lemma strncmp_eq:
  "n \<le> length a \<Longrightarrow> n \<le> length b \<Longrightarrow> \<exists>r. strncmp a b n = Inr r \<and> (r = 0 \<longleftrightarrow> take n a = take n b)"
  by (induction a b n rule: strncmp.induct) (auto simp: schar_inj)

lemma strcmp_eq: "\<exists>r. strcmp s t = Inr r \<and> (r = 0 \<longleftrightarrow> s = t)"
  using strncmp_eq[of "length s" "s @ [NUL]" "t @ [NUL]"] by (auto simp: strcmp_def)

lemma strcmp_0 [simp]: "strcmp s t = Inr 0 \<longleftrightarrow> s = t"
  using strcmp_eq[of s t] by auto

subsection \<open>Tokens\<close>

text \<open>The reference: split at every delimiter, and keep the parts that are not empty.\<close>

fun split_on :: "'a \<Rightarrow> 'a list \<Rightarrow> 'a list list" where
  "split_on d [] = [[]]"
| "split_on d (c # s) =
     (if c = d then [] # split_on d s
      else case split_on d s of [] \<Rightarrow> [[c]] | w # ws \<Rightarrow> (c # w) # ws)"

definition components :: "char \<Rightarrow> string \<Rightarrow> string list" where
  "components d s = filter (\<lambda>w. w \<noteq> []) (split_on d s)"

lemma strspn_one: "strspn s [d] = length (takeWhile (\<lambda>c. c = d) s)"
  by (induction s) auto

lemma strcspn_eq: "strcspn s delim = length (takeWhile (\<lambda>c. c \<notin> set delim) s)"
  by (induction s) auto

lemma split_on_not_Nil [simp]: "split_on d s \<noteq> []"
  by (cases s) (auto split: list.splits)

lemma split_on_word: "d \<notin> set w \<Longrightarrow> split_on d w = [w]"
  by (induction w) auto

lemma split_on_append: "d \<notin> set w \<Longrightarrow> split_on d (w @ d # s) = w # split_on d s"
  by (induction w) auto

lemma components_skip: "components d (dropWhile (\<lambda>c. c = d) s) = components d s"
  by (induction s) (auto simp: components_def)

lemma strtok_r_one:
  assumes "s \<noteq> []" "dropWhile (\<lambda>c. c = d) s = u" "u \<noteq> []"
  shows "strtok_r s [d] = (case dropWhile (\<lambda>c. c \<noteq> d) u of
      [] \<Rightarrow> (Some u, []) | c # rest \<Rightarrow> (Some (takeWhile (\<lambda>c. c \<noteq> d) u), rest))"
proof -
  have "drop (strspn s [d]) s = u" using assms(2) by (simp add: strspn_one dropWhile_eq_drop)
  moreover have "drop (strcspn u [d]) u = dropWhile (\<lambda>c. c \<noteq> d) u" "take (strcspn u [d]) u = takeWhile (\<lambda>c. c \<noteq> d) u"
    by (simp_all add: strcspn_eq dropWhile_eq_drop[symmetric] takeWhile_eq_take[symmetric])
  moreover have "drop (Suc n) u = rest" if "drop n u = c # rest" for n c rest
    using that by (metis drop_Suc list.sel(3) tl_drop)
  ultimately show ?thesis using assms
    by (cases "dropWhile (\<lambda>c. c \<noteq> d) u") (simp_all add: strtok_r_def Let_def del: drop_eq_Nil dropWhile_eq_Nil_conv)
qed

lemma tokens_components: "tokens s [d] = components d s"
proof (induction s "[d]" rule: tokens.induct)
  case (1 s)
  define u where "u = dropWhile (\<lambda>c. c = d) s"
  define w where "w = takeWhile (\<lambda>c. c \<noteq> d) u"
  have cu: "components d s = components d u" by (simp add: u_def components_skip)
  show ?case
  proof (cases "u = []")
    case True
    then have "drop (strspn s [d]) s = []" by (simp add: u_def strspn_one dropWhile_eq_drop)
    then have "strtok_r s [d] = (None, [])" by (simp add: strtok_r_def Let_def)
    then show ?thesis using cu True by (simp add: tokens.simps components_def)
  next
    case False
    have hd: "hd u \<noteq> d" using False unfolding u_def by (rule hd_dropWhile)
    have w: "w \<noteq> []" using False hd by (cases u) (auto simp: w_def)
    have dw: "d \<notin> set w" by (auto simp: w_def dest: set_takeWhileD)
    have "s \<noteq> []" using False by (auto simp: u_def)
    note tk = strtok_r_one[OF this u_def[symmetric] False]
    show ?thesis
    proof (cases "dropWhile (\<lambda>c. c \<noteq> d) u")
      case Nil
      then have "u = w" unfolding w_def by (metis append.right_neutral takeWhile_dropWhile_id)
      then have "components d u = [u]" using w dw by (simp add: components_def split_on_word)
      moreover have "strtok_r s [d] = (Some u, [])" using tk Nil by simp
      moreover have "tokens [] [d] = []" by (simp add: tokens.simps strtok_r_def)
      ultimately show ?thesis unfolding cu by (simp add: tokens.simps[of s])
    next
      case (Cons c rest)
      then have "c = d" using hd_dropWhile[of "\<lambda>c. c \<noteq> d" u] by simp
      then have u: "u = w @ d # rest" using Cons unfolding w_def by (metis takeWhile_dropWhile_id)
      have tk': "strtok_r s [d] = (Some w, rest)" using tk Cons by (simp add: w_def)
      then have "tokens rest [d] = components d rest" using 1 by auto
      moreover have "components d u = w # components d rest"
        unfolding u using w dw by (simp add: components_def split_on_append)
      ultimately show ?thesis using tk' cu by (simp add: tokens.simps[of s])
    qed
  qed
qed

subsection \<open>Numbers\<close>

lemma strrev_loop_nth:
  "0 \<le> j \<Longrightarrow> i < int (length a) \<Longrightarrow> j \<le> i + 2 \<Longrightarrow>
    length (strrev_loop a i j) = length a \<and>
    (\<forall>k < length a. strrev_loop a i j ! k = (if j \<le> int k \<and> int k \<le> i then a ! nat (i + j - int k) else a ! k))"
proof (induction a i j rule: strrev_loop.induct)
  case (1 a i j)
  show ?case
  proof (cases "i > j")
    case True
    let ?a = "a[nat i := a ! nat j, nat j := a ! nat i]"
    have IH: "length (strrev_loop ?a (i - 1) (j + 1)) = length ?a"
      "\<And>k. k < length a \<Longrightarrow> strrev_loop ?a (i - 1) (j + 1) ! k =
        (if j + 1 \<le> int k \<and> int k \<le> i - 1 then ?a ! nat (i + j - int k) else ?a ! k)"
      using 1 True by auto
    have eq: "strrev_loop a i j = strrev_loop ?a (i - 1) (j + 1)" using True by (simp add: strrev_loop.simps[of a])
    have "strrev_loop a i j ! k = (if j \<le> int k \<and> int k \<le> i then a ! nat (i + j - int k) else a ! k)"
      if k: "k < length a" for k
    proof -
      consider "int k = j" | "int k = i" | "j < int k" "int k < i" | "int k < j \<or> i < int k" by linarith
      then show ?thesis
      proof cases
        case 3
        then have "nat (i + j - int k) \<noteq> nat i" "nat (i + j - int k) \<noteq> nat j" using 1 True by linarith+
        then show ?thesis using 3 IH(2)[OF k] by (simp add: eq)
      next
        case 4
        then have "k \<noteq> nat i" "k \<noteq> nat j" using 1 True by linarith+
        then show ?thesis using 4 IH(2)[OF k] by (auto simp: eq)
      qed (use 1 True IH(2)[OF k] k in \<open>auto simp: eq\<close>)
    qed
    then show ?thesis using IH(1) eq by simp
  next
    case False
    have "a ! k = (if j \<le> int k \<and> int k \<le> i then a ! nat (i + j - int k) else a ! k)" for k
    proof (cases "j \<le> int k \<and> int k \<le> i")
      case True
      then have "nat (i + j - int k) = k" using False by linarith
      then show ?thesis by simp
    qed auto
    then show ?thesis using False by (simp add: strrev_loop.simps[of a])
  qed
qed

lemma strrev_rev [simp]: "strrev s = rev s"
proof (rule nth_equalityI)
  have *: "length (strrev s) = length s \<and> (\<forall>k < length s. strrev s ! k =
      (if 0 \<le> int k \<and> int k \<le> int (length s) - 1 then s ! nat (int (length s) - 1 + 0 - int k) else s ! k))"
    unfolding strrev_def by (rule strrev_loop_nth) auto
  then show "length (strrev s) = length (rev s)" by simp
  fix k assume "k < length (strrev s)"
  then have k: "k < length s" using * by simp
  then have i: "nat (int (length s) - 1 + 0 - int k) = length s - Suc k" by linarith
  have "strrev s ! k = s ! nat (int (length s) - 1 + 0 - int k)" using * k by auto
  then show "strrev s ! k = rev s ! k" unfolding i using k by (simp add: rev_nth)
qed

text \<open>Reading a number back, as \<^verbatim>\<open>strtol\<close> does.\<close>

definition digit_val :: "char \<Rightarrow> int" where
  "digit_val c = (let n = of_char c in if n \<ge> 97 then n - 87 else n - 48)"

fun num_val :: "int \<Rightarrow> string \<Rightarrow> int" where
  "num_val b [] = 0"
| "num_val b (c # s) = digit_val c + b * num_val b s"

definition parse_int :: "int \<Rightarrow> string \<Rightarrow> int" where
  "parse_int b s = (case s of [] \<Rightarrow> 0 | c # t \<Rightarrow> if c = CHR ''-'' then - num_val b (rev t) else num_val b (rev s))"

lemma of_char_of_int: "0 \<le> n \<Longrightarrow> n < 256 \<Longrightarrow> (of_char (char_of n) :: int) = n" for n :: int
  by (simp add: take_bit_eq_mod)

lemma digit_val_char [simp]: "0 \<le> r \<Longrightarrow> r < 32 \<Longrightarrow> digit_val (digit_char r) = r"
  by (simp add: digit_val_def digit_char_def of_char_of_int)

lemma digit_char_not_minus [simp]: "0 \<le> r \<Longrightarrow> r < 32 \<Longrightarrow> digit_char r \<noteq> CHR ''-''"
proof
  assume r: "0 \<le> r" "r < 32" "digit_char r = CHR ''-''"
  then have "r = digit_val (digit_char r)" using digit_val_char[of r] by (simp only:)
  also have "\<dots> = - 3" unfolding r(3) by (simp add: digit_val_def)
  finally show False using r by simp
qed

lemma itoa_loop_val:
  "0 \<le> n \<Longrightarrow> 2 \<le> b \<Longrightarrow> b \<le> 32 \<Longrightarrow> num_val b (itoa_loop n b) = n \<and> CHR ''-'' \<notin> set (itoa_loop n b)"
proof (induction n b rule: itoa_loop.induct)
  case (1 n b)
  show ?case
  proof (cases "n = 0")
    case False
    then have sd: "n sdiv b = n div b" "n smod b = n mod b"
      using 1 by (simp_all add: signed_divide_int_def signed_modulo_int_def)
    have "num_val b (itoa_loop (n div b) b) = n div b \<and> CHR ''-'' \<notin> set (itoa_loop (n div b) b)"
      using 1 False sd by (simp add: pos_imp_zdiv_nonneg_iff)
    moreover have r: "0 \<le> n mod b" "n mod b < 32" using 1 pos_mod_bound[of b n] by (simp, linarith)
    moreover have "itoa_loop n b = digit_char (n mod b) # itoa_loop (n div b) b"
      using 1(3) False by (simp add: itoa_loop.simps[of n] sd)
    ultimately show ?thesis
      using digit_char_not_minus[OF r, symmetric] digit_val_char[OF r] by simp
  qed (simp add: itoa_loop.simps)
qed

lemma itoa_digits_val:
  assumes "0 \<le> n" "2 \<le> b" "b \<le> 32"
  shows "num_val b (if itoa_loop n b = [] then ''0'' else itoa_loop n b) = n"
    "CHR ''-'' \<notin> set (if itoa_loop n b = [] then ''0'' else itoa_loop n b)"
  using itoa_loop_val[OF assms] by (auto simp: digit_val_def)

lemma parse_rev:
  assumes "ds \<noteq> []" "CHR ''-'' \<notin> set ds"
  shows "parse_int b (rev ds) = num_val b ds" "parse_int b (rev (ds @ ''-'')) = - num_val b ds"
proof -
  obtain c t where c: "rev ds = c # t" using assms(1) by (metis neq_Nil_conv rev_is_Nil_conv)
  then have "c \<noteq> CHR ''-''" "rev t @ [c] = ds" using assms(2) by (metis list.set_intros(1) set_rev, metis rev.simps(2) rev_rev_ident)
  then show "parse_int b (rev ds) = num_val b ds" by (simp add: parse_int_def c)
qed (simp add: parse_int_def)

lemma itoa_parse:
  assumes "- (2 ^ 31) < v" "v < 2 ^ 31"
  shows "parse_int 10 (itoa v str 10) = v"
proof -
  let ?ds = "if itoa_loop \<bar>v\<bar> 10 = [] then ''0'' else itoa_loop \<bar>v\<bar> 10"
  have a: "abs32 v = \<bar>v\<bar>" using assms by (simp add: abs32_def)
  have "?ds \<noteq> []" by simp
  note p = parse_rev[OF this itoa_digits_val(2)[of "\<bar>v\<bar>" 10]] and n = itoa_digits_val(1)[of "\<bar>v\<bar>" 10]
  have "itoa v str 10 = rev (if v < 0 then ?ds @ ''-'' else ?ds)" by (simp add: itoa_def a Let_def)
  then show ?thesis using p[of 10] n by (cases "v < 0") (simp_all del: rev_append)
qed

lemma ultoa_parse: "2 \<le> b \<Longrightarrow> b \<le> 32 \<Longrightarrow> parse_int b (ultoa n str b) = int n"
  using itoa_digits_val[of "int n" b] parse_rev(1)[of "if itoa_loop (int n) b = [] then ''0'' else itoa_loop (int n) b" b]
  by (simp add: ultoa_def Let_def)

subsection \<open>Properties\<close>

text \<open>
  C39: walking a string with \<open>strtok_r\<close> and one delimiter visits exactly the non-empty parts
  between the delimiters, in order; \<open>strcmp\<close> never reads past the terminators and is zero
  exactly on equal strings.
\<close>

theorem strtok_r_components:
  "tokens s [d] = filter (\<lambda>w. w \<noteq> []) (split_on d s) \<and> (\<exists>r. strcmp s t = Inr r \<and> (r = 0 \<longleftrightarrow> s = t))"
  using strcmp_eq[of s t] by (simp add: tokens_components components_def)

text \<open>
  C40: \<open>itoa\<close> in base 10 prints every \<^verbatim>\<open>int\<close> but the smallest so that reading the digits
  back gives the number, and \<open>ultoa\<close> does so for every \<^verbatim>\<open>unsigned long\<close> in every base it
  accepts.
\<close>

theorem itoa_roundtrip:
  assumes "- (2 ^ 31) < v" and "v < 2 ^ 31" and "2 \<le> b" and "b \<le> 32"
  shows "parse_int 10 (itoa v str 10) = v \<and> parse_int b (ultoa n str' b) = int n"
  using assms by (simp add: itoa_parse ultoa_parse)

theorem itoa_roundtrip_witness:
  "parse_int 10 (itoa (- 305) [] 10) = - 305 \<and> parse_int 16 (ultoa 48879 [] 16) = 48879"
  using itoa_roundtrip[of "- 305" 16 "[]" 48879 "[]"] by simp

text \<open>
  \<open>snprintf\<close> checks its bound only between conversions, so a string argument is stored
  whole: for every bound there are arguments for which it writes past the array.
\<close>

theorem snprintf_ignores_bound:
  assumes "0 < n"
  shows "snprintf ''%s'' n [VStr s] = Inr s \<and> (\<exists>t. snprintf ''%s'' n [VStr t] = Inr t \<and> n < length t)"
proof -
  have *: "snprintf ''%s'' n [VStr t] = Inr t" for t
    using assms by (simp add: snprintf_def fmt_conv.simps)
  then show ?thesis by (auto intro!: exI[of _ "replicate (Suc n) CHR ''a''"])
qed

theorem snprintf_ignores_bound_witness: "snprintf ''%s'' 4 [VStr ''overflow''] = Inr ''overflow''"
  using snprintf_ignores_bound[of 4 "''overflow''"] by simp

end
