(* ===== verification/Ringbuf.thy ===== *)
theory Ringbuf
  imports Kheap
begin

text \<open>
  The kernel's ring buffer, \<^verbatim>\<open>kernel/kern/ringbuf.c\<close>, and the interface of a bounded byte
  queue that pipes and pseudoterminals rely on.

  \<open>rb_contents\<close> is the abstraction: the bytes between the read and the write head, oldest
  first. Writing appends and drops the oldest bytes when the buffer is full; reading takes
  from the front.
\<close>

subsection \<open>Operations\<close>

record ringbuf =
  rb_read :: nat
  rb_write :: nat
  rb_size :: nat
  rb_buffer :: "u8 list"
  rb_full :: bool

text \<open>
  \<open>ringbuf_create\<close> leaves in the buffer what \<open>kmalloc\<close> returned; \<open>junk\<close> stands for those bytes.
\<close>

definition ringbuf_create :: "(nat \<Rightarrow> u8) \<Rightarrow> nat \<Rightarrow> ringbuf" where
  "ringbuf_create junk sz =
     \<lparr>rb_read = 0, rb_write = 0, rb_size = sz, rb_buffer = map junk [0..<sz], rb_full = False\<rparr>"

text \<open>Its two blocks on the kernel heap, the structure and the buffer, and their release.\<close>

definition ringbuf_alloc :: "kheap \<Rightarrow> nat \<Rightarrow> (addr \<times> addr \<times> kheap) run" where
  "ringbuf_alloc h sz =
     bindR (kmalloc h 40) (\<lambda>(buf, h). bindR (kmalloc h sz) (\<lambda>(buffer, h). ret (buf, buffer, h)))"

definition ringbuf_free :: "kheap \<Rightarrow> addr \<Rightarrow> addr \<Rightarrow> kheap run" where
  "ringbuf_free h buf buffer = bindR (kfree h buffer) (\<lambda>h. kfree h buf)"

definition ringbuf_inc :: "ringbuf \<Rightarrow> ringbuf" where
  "ringbuf_inc b =
     (let b = (if rb_full b
               then b\<lparr>rb_read := (if add64 (rb_read b) 1 = rb_size b then 0 else add64 (rb_read b) 1)\<rparr>
               else b);
          b = b\<lparr>rb_write := (if add64 (rb_write b) 1 = rb_size b then 0 else add64 (rb_write b) 1)\<rparr>
      in b\<lparr>rb_full := (rb_write b = rb_read b)\<rparr>)"

definition ringbuf_dec :: "ringbuf \<Rightarrow> ringbuf" where
  "ringbuf_dec b =
     b\<lparr>rb_read := (if add64 (rb_read b) 1 = rb_size b then 0 else add64 (rb_read b) 1), rb_full := False\<rparr>"

fun ringbuf_read :: "ringbuf \<Rightarrow> nat \<Rightarrow> (u8 list \<times> ringbuf) res" where
  "ringbuf_read b 0 = Inr ([], b)"
| "ringbuf_read b (Suc n) =
     (if rb_read b < length (rb_buffer b) then
        bindS (ringbuf_read (ringbuf_dec b) n) (\<lambda>(xs, b'). Inr (rb_buffer b ! rb_read b # xs, b'))
      else Inl BadAccess)"

fun ringbuf_write :: "ringbuf \<Rightarrow> u8 list \<Rightarrow> ringbuf res" where
  "ringbuf_write b [] = Inr b"
| "ringbuf_write b (x # xs) =
     (if rb_write b < length (rb_buffer b)
      then ringbuf_write (ringbuf_inc (b\<lparr>rb_buffer := (rb_buffer b)[rb_write b := x]\<rparr>)) xs
      else Inl BadAccess)"

definition ringbuf_size :: "ringbuf \<Rightarrow> nat" where
  "ringbuf_size b =
     (if \<not> rb_full b then
        if rb_write b \<ge> rb_read b then sub64 (rb_write b) (rb_read b)
        else sub64 (add64 (rb_size b) (rb_write b)) (rb_read b)
      else rb_size b)"

subsection \<open>Abstraction\<close>

definition rb_inv :: "ringbuf \<Rightarrow> bool" where
  "rb_inv b \<longleftrightarrow> 0 < rb_size b \<and> rb_size b < 2 ^ 63 \<and> length (rb_buffer b) = rb_size b
     \<and> rb_read b < rb_size b \<and> rb_write b < rb_size b \<and> (rb_full b \<longrightarrow> rb_read b = rb_write b)"

definition rb_contents :: "ringbuf \<Rightarrow> u8 list" where
  "rb_contents b = map (\<lambda>i. rb_buffer b ! ((rb_read b + i) mod rb_size b)) [0..<ringbuf_size b]"

definition keep_last :: "nat \<Rightarrow> 'a list \<Rightarrow> 'a list" where
  "keep_last n xs = drop (length xs - n) xs"

subsection \<open>The interface of a bounded byte queue\<close>

text \<open>
  What pipes and pseudoterminals need of their buffers: writing what fits appends, reading
  what is there takes from the front, and neither loses or reorders a byte.
\<close>

locale byte_queue =
  fixes put :: "'q \<Rightarrow> u8 list \<Rightarrow> 'q res"
    and get :: "'q \<Rightarrow> nat \<Rightarrow> (u8 list \<times> 'q) res"
    and count :: "'q \<Rightarrow> nat"
    and cap :: "'q \<Rightarrow> nat"
    and contents :: "'q \<Rightarrow> u8 list"
    and inv :: "'q \<Rightarrow> bool"
  assumes put_law: "inv q \<Longrightarrow> \<exists>q'. put q bs = Inr q' \<and> inv q' \<and> cap q' = cap q \<and>
      contents q' = keep_last (cap q) (contents q @ bs)"
    and get_law: "inv q \<Longrightarrow> n \<le> count q \<Longrightarrow> \<exists>q'. get q n = Inr (take n (contents q), q') \<and> inv q' \<and>
      cap q' = cap q \<and> contents q' = drop n (contents q)"
    and count_law: "inv q \<Longrightarrow> count q = length (contents q) \<and> count q \<le> cap q"
begin

lemma put_fits:
  assumes "inv q" "length bs \<le> cap q - count q"
  shows "\<exists>q'. put q bs = Inr q' \<and> inv q' \<and> cap q' = cap q \<and> contents q' = contents q @ bs"
  using put_law[OF assms(1), of bs] count_law[OF assms(1)] assms(2) by (auto simp: keep_last_def)

lemma get_all: "inv q \<Longrightarrow> \<exists>q'. get q (count q) = Inr (contents q, q') \<and> contents q' = []"
  using get_law[of q "count q"] count_law[of q] by auto

end

subsection \<open>Index arithmetic\<close>

lemma wrap_index: "r < n \<Longrightarrow> i \<le> n \<Longrightarrow> (r + i) mod n = (if r + i < n then r + i else r + i - n)" for r i n :: nat
  by (auto simp: le_mod_geq)

lemma wrap_Suc: "r < n \<Longrightarrow> (if Suc r = n then 0 else Suc r) = Suc r mod n" for r n :: nat
  by (auto simp: Suc_lessI)

lemma wrap_inj:
  fixes r i j n :: nat
  assumes "r < n" "i < n" "j < n" "(r + i) mod n = (r + j) mod n"
  shows "i = j"
  using assms by (auto simp: wrap_index split: if_splits)

lemma rb_write_index:
  assumes "rb_inv b"
  shows "rb_write b = (rb_read b + ringbuf_size b) mod rb_size b" "ringbuf_size b \<le> rb_size b"
    "rb_full b \<longleftrightarrow> ringbuf_size b = rb_size b"
proof -
  have big: "rb_size b + rb_write b < 2 ^ 64" "rb_read b < 2 ^ 64" using assms by (auto simp: rb_inv_def)
  then have sz: "ringbuf_size b = (if rb_full b then rb_size b
      else if rb_write b \<ge> rb_read b then rb_write b - rb_read b else rb_size b + rb_write b - rb_read b)"
    using assms by (auto simp: ringbuf_size_def sub64_small rb_inv_def)
  have r: "rb_read b < rb_size b" "rb_write b < rb_size b" "rb_full b \<Longrightarrow> rb_read b = rb_write b"
    using assms by (auto simp: rb_inv_def)
  consider "rb_full b" | "\<not> rb_full b" "rb_write b \<ge> rb_read b" | "\<not> rb_full b" "rb_write b < rb_read b"
    by linarith
  then have "rb_write b = (rb_read b + ringbuf_size b) mod rb_size b \<and> ringbuf_size b \<le> rb_size b \<and>
      (rb_full b \<longleftrightarrow> ringbuf_size b = rb_size b)"
    using sz r wrap_index[of "rb_read b" "rb_size b" "ringbuf_size b"]
    by cases (simp_all, linarith+)
  then show "rb_write b = (rb_read b + ringbuf_size b) mod rb_size b" "ringbuf_size b \<le> rb_size b"
    "rb_full b \<longleftrightarrow> ringbuf_size b = rb_size b" by simp_all
qed

lemma ringbuf_sizeI:
  assumes "rb_inv b" "c \<le> rb_size b" "rb_write b = (rb_read b + c) mod rb_size b" "rb_full b \<longleftrightarrow> c = rb_size b"
  shows "ringbuf_size b = c"
proof (cases "c = rb_size b")
  case True
  then show ?thesis using assms by (simp add: ringbuf_size_def)
next
  case False
  moreover have "ringbuf_size b < rb_size b" using rb_write_index[OF assms(1)] assms(4) False by auto
  moreover have "(rb_read b + c) mod rb_size b = (rb_read b + ringbuf_size b) mod rb_size b"
    using rb_write_index(1)[OF assms(1)] assms(3) by simp
  ultimately show ?thesis
    using wrap_inj[of "rb_read b" "rb_size b" c "ringbuf_size b"] assms by (simp add: rb_inv_def)
qed

lemma rb_contents_length [simp]: "length (rb_contents b) = ringbuf_size b"
  by (simp add: rb_contents_def)

subsection \<open>One byte\<close>

lemma ringbuf_dec_ok:
  assumes "rb_inv b" "0 < ringbuf_size b"
  shows "rb_inv (ringbuf_dec b)" "rb_size (ringbuf_dec b) = rb_size b"
    "ringbuf_size (ringbuf_dec b) = ringbuf_size b - 1"
    "rb_contents b = rb_buffer b ! rb_read b # rb_contents (ringbuf_dec b)"
proof -
  let ?n = "rb_size b" and ?c = "ringbuf_size b"
  have r: "rb_read b < ?n" "?n < 2 ^ 63" using assms by (auto simp: rb_inv_def)
  have rd: "rb_read (ringbuf_dec b) = Suc (rb_read b) mod ?n"
    using r wrap_Suc[of "rb_read b" ?n] by (simp add: ringbuf_dec_def)
  show inv: "rb_inv (ringbuf_dec b)" using assms rd by (simp add: rb_inv_def ringbuf_dec_def)
  show sz: "rb_size (ringbuf_dec b) = ?n" by (simp add: ringbuf_dec_def)
  show c: "ringbuf_size (ringbuf_dec b) = ?c - 1"
  proof (rule ringbuf_sizeI[OF inv])
    show "?c - 1 \<le> rb_size (ringbuf_dec b)" using rb_write_index(2)[OF assms(1)] sz by simp
    have "(Suc (rb_read b) mod ?n + (?c - 1)) mod ?n = (Suc (rb_read b) + (?c - 1)) mod ?n"
      by (simp add: mod_simps)
    also have "Suc (rb_read b) + (?c - 1) = rb_read b + ?c" using assms by simp
    finally show "rb_write (ringbuf_dec b) = (rb_read (ringbuf_dec b) + (?c - 1)) mod rb_size (ringbuf_dec b)"
      using rb_write_index(1)[OF assms(1)] rd sz by (simp add: ringbuf_dec_def)
    show "rb_full (ringbuf_dec b) \<longleftrightarrow> ?c - 1 = rb_size (ringbuf_dec b)"
      using rb_write_index(2)[OF assms(1)] assms by (simp add: ringbuf_dec_def)
  qed
  have "[0..<?c] = 0 # map Suc [0..<?c - 1]"
    using assms by (simp add: map_Suc_upt upt_conv_Cons)
  moreover have "(rb_read b + Suc i) mod ?n = (Suc (rb_read b) mod ?n + i) mod ?n" for i
    by (simp add: mod_simps)
  ultimately show "rb_contents b = rb_buffer b ! rb_read b # rb_contents (ringbuf_dec b)"
    using r by (simp add: rb_contents_def c sz rd) (simp add: ringbuf_dec_def)
qed

definition rb_put :: "ringbuf \<Rightarrow> u8 \<Rightarrow> ringbuf" where
  "rb_put b x = ringbuf_inc (b\<lparr>rb_buffer := (rb_buffer b)[rb_write b := x]\<rparr>)"

lemma rb_put_fields:
  assumes "rb_inv b"
  shows "rb_size (rb_put b x) = rb_size b" "rb_buffer (rb_put b x) = (rb_buffer b)[rb_write b := x]"
    "rb_write (rb_put b x) = Suc (rb_write b) mod rb_size b"
    "rb_read (rb_put b x) = (if rb_full b then Suc (rb_read b) mod rb_size b else rb_read b)"
    "rb_full (rb_put b x) = (rb_write (rb_put b x) = rb_read (rb_put b x))"
  using assms wrap_Suc[of "rb_read b" "rb_size b"] wrap_Suc[of "rb_write b" "rb_size b"]
  by (auto simp: rb_put_def ringbuf_inc_def Let_def rb_inv_def)

lemma rb_put_inv: "rb_inv b \<Longrightarrow> rb_inv (rb_put b x)"
  using rb_put_fields[of b x] by (auto simp: rb_inv_def)

lemma rb_put_contents:
  assumes inv: "rb_inv b"
  shows "rb_contents (rb_put b x) = keep_last (rb_size b) (rb_contents b @ [x])"
proof (cases "rb_full b")
  case True
  let ?n = "rb_size b" and ?r = "rb_read b"
  note f = rb_put_fields[OF inv, of x]
  have r: "?r < ?n" "rb_write b = ?r" "length (rb_buffer b) = ?n" using inv True by (auto simp: rb_inv_def)
  have c: "ringbuf_size b = ?n" "ringbuf_size (rb_put b x) = ?n"
    using rb_write_index(3)[OF inv] True f r by (simp_all add: ringbuf_size_def)
  have "rb_contents (rb_put b x) ! i = (tl (rb_contents b) @ [x]) ! i" if i: "i < ?n" for i
  proof (cases "Suc i = ?n")
    case True
    then have "Suc ?r mod ?n + i = Suc ?r mod ?n + (?n - 1)" by simp
    then have "(Suc ?r mod ?n + i) mod ?n = ?r"
      using r True by (metis add.commute add_Suc_right mod_add_left_eq mod_add_self2 mod_less add_Suc)
    moreover have "(tl (rb_contents b) @ [x]) ! i = x"
      using nth_append_length[of "tl (rb_contents b)" x "[]"] c True by (metis diff_Suc_1 length_tl rb_contents_length)
    ultimately show ?thesis using r f i c \<open>rb_full b\<close> by (simp add: rb_contents_def)
  next
    case False
    then have "Suc i < ?n" using i by simp
    moreover have "(Suc ?r mod ?n + i) mod ?n = (?r + Suc i) mod ?n" by (simp add: mod_simps)
    moreover have "(?r + Suc i) mod ?n \<noteq> ?r"
      using wrap_inj[of ?r ?n "Suc i" 0] \<open>Suc i < ?n\<close> r by auto
    moreover have "(tl (rb_contents b) @ [x]) ! i = rb_contents b ! Suc i"
      using \<open>Suc i < ?n\<close> c by (simp add: nth_append nth_tl less_diff_conv)
    ultimately show ?thesis
      using r f i c \<open>rb_full b\<close> by (simp add: rb_contents_def)
  qed
  then have "rb_contents (rb_put b x) = tl (rb_contents b) @ [x]"
    using c r by (intro nth_equalityI) auto
  then show ?thesis using c r by (simp add: keep_last_def drop_Suc)
next
  case False
  let ?n = "rb_size b" and ?r = "rb_read b" and ?c = "ringbuf_size b"
  note f = rb_put_fields[OF inv, of x]
  have r: "?r < ?n" "length (rb_buffer b) = ?n" and cn: "?c < ?n"
    using inv False rb_write_index[OF inv] by (auto simp: rb_inv_def)
  have w: "rb_write b = (?r + ?c) mod ?n" using rb_write_index[OF inv] by simp
  have wr: "rb_write (rb_put b x) = (?r + Suc ?c) mod ?n"
    using f w by (simp add: mod_simps)
  have c: "ringbuf_size (rb_put b x) = Suc ?c"
  proof (rule ringbuf_sizeI[OF rb_put_inv[OF inv]])
    show "Suc ?c \<le> rb_size (rb_put b x)" using cn f by simp
    show "rb_write (rb_put b x) = (rb_read (rb_put b x) + Suc ?c) mod rb_size (rb_put b x)"
      using wr f False by simp
    have "(?r + Suc ?c) mod ?n = ?r \<longleftrightarrow> Suc ?c = ?n"
      using wrap_inj[of ?r ?n "Suc ?c" 0] cn r by (cases "Suc ?c = ?n") auto
    then show "rb_full (rb_put b x) = (Suc ?c = rb_size (rb_put b x))"
      using f wr False by auto
  qed
  have "rb_contents (rb_put b x) ! i = (rb_contents b @ [x]) ! i" if i: "i < Suc ?c" for i
  proof (cases "i = ?c")
    case True
    then show ?thesis using f c False w r by (simp add: rb_contents_def nth_append)
  next
    case ne: False
    then have "(?r + i) mod ?n \<noteq> rb_write b" using wrap_inj[of ?r ?n i ?c] i cn r w by auto
    then show ?thesis using ne i f c False r by (simp add: rb_contents_def nth_append)
  qed
  then have "rb_contents (rb_put b x) = rb_contents b @ [x]"
    using c by (intro nth_equalityI) auto
  then show ?thesis using cn by (simp add: keep_last_def)
qed

subsection \<open>Reading and writing\<close>

lemma keep_last_append: "keep_last n (keep_last n xs @ ys) = keep_last n (xs @ ys)"
proof (cases "length xs \<le> n")
  case False
  then have "keep_last n (xs @ ys) = drop (length ys + (length xs - n)) (xs @ ys)"
    by (simp add: keep_last_def add.commute)
  also have "\<dots> = drop (length ys) (drop (length xs - n) xs @ ys)"
    by (simp flip: drop_drop)
  finally show ?thesis using False by (simp add: keep_last_def)
qed (simp add: keep_last_def)

lemma ringbuf_write_ok:
  assumes "rb_inv b"
  shows "\<exists>b'. ringbuf_write b bs = Inr b' \<and> rb_inv b' \<and> rb_size b' = rb_size b \<and>
    rb_contents b' = keep_last (rb_size b) (rb_contents b @ bs)"
  using assms
proof (induction bs arbitrary: b)
  case Nil
  then show ?case using rb_write_index(2)[OF Nil] by (simp add: keep_last_def)
next
  case (Cons x bs)
  obtain b' where b': "ringbuf_write (rb_put b x) bs = Inr b'" "rb_inv b'" "rb_size b' = rb_size b"
    "rb_contents b' = keep_last (rb_size b) (keep_last (rb_size b) (rb_contents b @ [x]) @ bs)"
    using Cons.IH[OF rb_put_inv[OF Cons.prems]] rb_put_fields[OF Cons.prems, of x]
      rb_put_contents[OF Cons.prems, of x] by metis
  moreover have "ringbuf_write b (x # bs) = ringbuf_write (rb_put b x) bs"
    using Cons.prems by (simp add: rb_put_def rb_inv_def)
  moreover have "keep_last n (keep_last n (xs @ [x]) @ bs) = keep_last n (xs @ x # bs)" for n xs
    by (simp add: keep_last_append)
  ultimately show ?case by simp
qed

lemma ringbuf_read_ok:
  assumes "rb_inv b" "n \<le> ringbuf_size b"
  shows "\<exists>b'. ringbuf_read b n = Inr (take n (rb_contents b), b') \<and> rb_inv b' \<and> rb_size b' = rb_size b \<and>
    rb_contents b' = drop n (rb_contents b)"
  using assms
proof (induction n arbitrary: b)
  case (Suc n)
  note d = ringbuf_dec_ok[OF Suc.prems(1)]
  obtain b' where "ringbuf_read (ringbuf_dec b) n = Inr (take n (rb_contents (ringbuf_dec b)), b')" "rb_inv b'"
    "rb_size b' = rb_size b" "rb_contents b' = drop n (rb_contents (ringbuf_dec b))"
    using Suc.IH[of "ringbuf_dec b"] d Suc.prems by fastforce
  moreover have "rb_contents b = rb_buffer b ! rb_read b # rb_contents (ringbuf_dec b)"
    using d Suc.prems by simp
  ultimately show ?case using Suc.prems by (simp add: rb_inv_def)
qed simp

lemma ringbuf_create_ok:
  assumes "0 < sz" "sz < 2 ^ 63"
  shows "rb_inv (ringbuf_create junk sz)" "rb_contents (ringbuf_create junk sz) = []"
    "rb_size (ringbuf_create junk sz) = sz" "\<not> rb_full (ringbuf_create junk sz)"
  using assms by (simp_all add: ringbuf_create_def rb_inv_def rb_contents_def ringbuf_size_def sub64_small)

interpretation rbq: byte_queue ringbuf_write ringbuf_read ringbuf_size rb_size rb_contents rb_inv
proof
  fix q :: ringbuf and bs n assume inv: "rb_inv q"
  show "\<exists>q'. ringbuf_write q bs = Inr q' \<and> rb_inv q' \<and> rb_size q' = rb_size q \<and>
      rb_contents q' = keep_last (rb_size q) (rb_contents q @ bs)" by (rule ringbuf_write_ok[OF inv])
  show "ringbuf_size q = length (rb_contents q) \<and> ringbuf_size q \<le> rb_size q"
    using rb_write_index(2)[OF inv] by simp
  assume "n \<le> ringbuf_size q"
  then show "\<exists>q'. ringbuf_read q n = Inr (take n (rb_contents q), q') \<and> rb_inv q' \<and>
      rb_size q' = rb_size q \<and> rb_contents q' = drop n (rb_contents q)"
    by (rule ringbuf_read_ok[OF inv])
qed

subsection \<open>Properties\<close>

text \<open>
  C29: a ring buffer is a bounded byte queue. Writing any number of bytes to a well-formed
  buffer never leaves it, keeps it well formed, and its contents are the last \<^verbatim>\<open>size\<close>
  bytes of the old contents followed by the bytes written; \<^verbatim>\<open>full\<close> is set exactly when
  the contents fill the buffer.
\<close>

theorem ringbuf_write_keeps_last:
  assumes "rb_inv b"
  shows "\<exists>b'. ringbuf_write b bs = Inr b' \<and> rb_inv b' \<and> rb_size b' = rb_size b \<and>
    rb_contents b' = keep_last (rb_size b) (rb_contents b @ bs) \<and>
    (rb_full b' \<longleftrightarrow> length (rb_contents b') = rb_size b)"
proof -
  obtain b' where b': "ringbuf_write b bs = Inr b'" "rb_inv b'" "rb_size b' = rb_size b"
    "rb_contents b' = keep_last (rb_size b) (rb_contents b @ bs)"
    using ringbuf_write_ok[OF assms, of bs] by blast
  then show ?thesis using rb_write_index(3)[OF b'(2)] by (metis rb_contents_length)
qed

theorem ringbuf_write_keeps_last_witness:
  "\<exists>b'. ringbuf_write (ringbuf_create (\<lambda>_. 0) 4) [1, 2, 3, 4, 5, 6] = Inr b' \<and> rb_contents b' = [3, 4, 5, 6] \<and> rb_full b'"
  using ringbuf_write_keeps_last[of "ringbuf_create (\<lambda>_. 0) 4" "[1, 2, 3, 4, 5, 6]"]
    ringbuf_create_ok[of 4 "\<lambda>_. 0"]
  by (auto simp: keep_last_def simp del: ringbuf_write.simps rb_contents_length)

text \<open>
  C30: reading bytes that are there returns the oldest ones in order, and leaves the others;
  what was written to a buffer with room for it comes back after what was there before.
\<close>

theorem ringbuf_write_read_fifo:
  assumes "rb_inv b" and "length bs \<le> rb_size b - ringbuf_size b" and "n \<le> ringbuf_size b + length bs"
  shows "\<exists>b1 b2. ringbuf_write b bs = Inr b1 \<and> ringbuf_read b1 n = Inr (take n (rb_contents b @ bs), b2) \<and>
    rb_inv b2 \<and> rb_contents b2 = drop n (rb_contents b @ bs)"
proof -
  obtain b1 where b1: "ringbuf_write b bs = Inr b1" "rb_inv b1" "rb_contents b1 = rb_contents b @ bs"
    using rbq.put_fits[OF assms(1,2)] by blast
  have "ringbuf_size b1 = ringbuf_size b + length bs"
    using b1(3) by (metis length_append rb_contents_length)
  then show ?thesis using ringbuf_read_ok[OF b1(2), of n] b1 assms(3) by auto
qed

theorem ringbuf_write_read_fifo_witness:
  "\<exists>b1 b2. ringbuf_write (ringbuf_create (\<lambda>_. 0) 4) [7, 8, 9] = Inr b1 \<and> ringbuf_read b1 2 = Inr ([7, 8], b2) \<and>
     rb_contents b2 = [9]"
  using ringbuf_write_read_fifo[of "ringbuf_create (\<lambda>_. 0) 4" "[7, 8, 9]" 2]
    ringbuf_create_ok[of 4 "\<lambda>_. 0"]
  by (auto simp del: ringbuf_write.simps ringbuf_read.simps rb_contents_length simp flip: rb_contents_length)

end
