(* ===== verification/Pipe.thy ===== *)
theory Pipe
  imports Ringbuf
begin

text \<open>
  Anonymous pipes, \<^verbatim>\<open>kernel/kern/fs/pipe.c\<close>.

  \<open>pipe_read\<close> and \<open>pipe_write\<close> spin on \<open>sched_yield\<close> until the buffer has bytes, or room. What
  the other tasks do to the pipe during the \<open>k\<close>-th yield of a call is the parameter
  \<open>env k\<close>; a call that is never made ready does not return and has the value \<open>None\<close>.
\<close>

subsection \<open>Operations\<close>

record pipe =
  pp_buffer :: ringbuf
  pp_reader :: nat
  pp_writer :: nat
  pp_closed :: bool

type_synonym pipe_env = "nat \<Rightarrow> pipe \<Rightarrow> pipe"

text \<open>The value returned, the bytes copied out, the signals sent to the caller, and the pipe.\<close>

type_synonym pipe_result = "int \<times> u8 list \<times> nat list \<times> pipe"

partial_function (option) pipe_read_wait :: "pipe_env \<Rightarrow> nat \<Rightarrow> pipe \<Rightarrow> (bool \<times> pipe) option" where
  "pipe_read_wait env k p =
     (if ringbuf_size (pp_buffer p) \<noteq> 0 then Some (True, p)
      else if pp_closed p then Some (False, p)
      else pipe_read_wait env (Suc k) (env k p))"

definition pipe_read :: "pipe_env \<Rightarrow> pipe \<Rightarrow> nat \<Rightarrow> pipe_result run" where
  "pipe_read env p sz =
     (case pipe_read_wait env 0 p of
        None \<Rightarrow> None
      | Some (False, p) \<Rightarrow> ret (- EINTR, [], [SIGPIPE], p)
      | Some (True, p) \<Rightarrow>
          let bytes = s64 (ringbuf_size (pp_buffer p));
              bytes = (if bytes < s64 sz then bytes else s64 sz)
          in bindR (Some (ringbuf_read (pp_buffer p) (u64_of bytes))) (\<lambda>(xs, b).
               ret (bytes, xs, [], p\<lparr>pp_buffer := b\<rparr>)))"

partial_function (option) pipe_write_wait :: "pipe_env \<Rightarrow> nat \<Rightarrow> pipe \<Rightarrow> (bool \<times> pipe) option" where
  "pipe_write_wait env k p =
     (if \<not> rb_full (pp_buffer p) then Some (True, p)
      else if pp_closed p then Some (False, p)
      else pipe_write_wait env (Suc k) (env k p))"

text \<open>\<open>bs\<close> is the caller's buffer, of the size the caller passed.\<close>

definition pipe_write :: "pipe_env \<Rightarrow> pipe \<Rightarrow> u8 list \<Rightarrow> pipe_result run" where
  "pipe_write env p bs =
     (case pipe_write_wait env 0 p of
        None \<Rightarrow> None
      | Some (False, p) \<Rightarrow> ret (- EINTR, [], [SIGPIPE], p)
      | Some (True, p) \<Rightarrow>
          let empty = s64 (sub64 (rb_size (pp_buffer p)) (ringbuf_size (pp_buffer p)));
              bytes = (if s64 (length bs) < empty then s64 (length bs) else empty)
          in bindR (Some (ringbuf_write (pp_buffer p) (take (u64_of bytes) bs))) (\<lambda>b.
               ret (bytes, [], [], p\<lparr>pp_buffer := b\<rparr>)))"

definition pipe_close :: "pipe \<Rightarrow> int \<times> pipe" where
  "pipe_close p = (0, p\<lparr>pp_closed := True\<rparr>)"

definition pipe_new :: "(nat \<Rightarrow> u8) \<Rightarrow> nat \<Rightarrow> nat \<Rightarrow> pipe" where
  "pipe_new junk reader writer =
     \<lparr>pp_buffer = ringbuf_create junk 4096, pp_reader = reader, pp_writer = writer, pp_closed = False\<rparr>"

text \<open>The search for descriptors: the first free one, for each but the first also not the one just taken.\<close>

abbreviation (input) FD_MAX :: nat where "FD_MAX \<equiv> 256"

fun find_slot :: "(nat \<Rightarrow> bool) \<Rightarrow> nat option \<Rightarrow> nat list \<Rightarrow> nat option" where
  "find_slot used prev [] = None"
| "find_slot used prev (j # js) =
     (if \<not> used j \<and> prev \<noteq> Some j then Some j else find_slot used prev js)"

fun find_slots :: "(nat \<Rightarrow> bool) \<Rightarrow> nat option \<Rightarrow> nat \<Rightarrow> nat list option" where
  "find_slots used prev 0 = Some []"
| "find_slots used prev (Suc nr) =
     (case find_slot used prev [0..<FD_MAX] of
        None \<Rightarrow> None
      | Some j \<Rightarrow>
          (case find_slots used (Some j) nr of None \<Rightarrow> None | Some js \<Rightarrow> Some (j # js)))"

subsection \<open>A pipe as a byte stream\<close>

definition pipe_inv :: "pipe \<Rightarrow> bool" where
  "pipe_inv p \<longleftrightarrow> rb_inv (pp_buffer p)"

abbreviation pipe_contents :: "pipe \<Rightarrow> u8 list" where
  "pipe_contents p \<equiv> rb_contents (pp_buffer p)"

fun env_iter :: "pipe_env \<Rightarrow> nat \<Rightarrow> nat \<Rightarrow> pipe \<Rightarrow> pipe" where
  "env_iter env k 0 p = p"
| "env_iter env k (Suc n) p = env_iter env (Suc k) n (env k p)"

abbreviation idle :: pipe_env where "idle \<equiv> \<lambda>_ p. p"

datatype pipe_event = Wrote "u8 list" | Read "u8 list" | Closed

text \<open>
  One call of a reader or a writer, from the moment it is ready, as a step of the pipe. The
  calls of several tasks interleave at their yields, so a history of the pipe is a sequence
  of these steps.
\<close>

inductive pipe_step :: "pipe \<Rightarrow> pipe_event \<Rightarrow> pipe \<Rightarrow> bool" where
  pstep_write: "pipe_write idle p bs = ret (int n, [], [], p') \<Longrightarrow> length bs < 2 ^ 63 \<Longrightarrow>
      pipe_step p (Wrote (take n bs)) p'"
| pstep_read: "pipe_read idle p n = ret (int m, xs, [], p') \<Longrightarrow> n < 2 ^ 63 \<Longrightarrow> pipe_step p (Read xs) p'"
| pstep_close: "pipe_close p = (0, p') \<Longrightarrow> pipe_step p Closed p'"


inductive_cases pipe_stepE: "pipe_step p e p'"



subsection \<open>Single calls\<close>


lemma pipe_read_ready:
  assumes "pipe_inv p" "pipe_contents p \<noteq> []" "n < 2 ^ 63"
  shows "\<exists>p'. pipe_read env p n = ret (int (min n (length (pipe_contents p))), take n (pipe_contents p), [], p') \<and>
    pipe_inv p' \<and> pipe_contents p' = drop n (pipe_contents p) \<and> rb_size (pp_buffer p') = rb_size (pp_buffer p) \<and>
    pp_closed p' = pp_closed p"
proof -
  let ?b = "pp_buffer p"
  have inv: "rb_inv ?b" and le: "ringbuf_size ?b \<le> rb_size ?b" "rb_size ?b < 2 ^ 63"
    using assms rb_write_index(2)[of ?b] by (auto simp: pipe_inv_def rb_inv_def)
  have nz: "ringbuf_size ?b \<noteq> 0" using assms(2) by (metis length_0_conv rb_contents_length)
  let ?m = "min n (ringbuf_size ?b)"
  have bt: "(if s64 (ringbuf_size ?b) < s64 n then s64 (ringbuf_size ?b) else s64 n) = int ?m"
    using le assms(3) by auto
  have m: "u64_of (int ?m) = ?m" using assms(3) by (intro u64_of_nat) (simp add: min_def)
  obtain b' where b': "ringbuf_read ?b ?m = Inr (take ?m (rb_contents ?b), b')" "rb_inv b'" "rb_size b' = rb_size ?b"
    "rb_contents b' = drop ?m (rb_contents ?b)"
    using ringbuf_read_ok[OF inv, of ?m] by auto
  have "take ?m (rb_contents ?b) = take n (rb_contents ?b)" "drop ?m (rb_contents ?b) = drop n (rb_contents ?b)"
    by (simp_all add: min_def)
  moreover have w: "pipe_read_wait env 0 p = Some (True, p)"
    using nz by (simp add: pipe_read_wait.simps[of env 0])
  have "pipe_read env p n = ret (int ?m, take ?m (rb_contents ?b), [], p\<lparr>pp_buffer := b'\<rparr>)"
    by (simp only: pipe_read_def w option.case prod.case bool.case Let_def bt m b'(1) bindR_simps)
  ultimately show ?thesis using b' by (simp add: pipe_inv_def)
qed

lemma pipe_read_closed:
  "pipe_contents p = [] \<Longrightarrow> pp_closed p \<Longrightarrow> pipe_read env p n = ret (- EINTR, [], [SIGPIPE], p)"
  by (simp add: pipe_read_def pipe_read_wait.simps[of env 0] flip: length_0_conv)


subsection \<open>Waiting\<close>

lemma pipe_read_wait_blocked:
  "(\<And>j. j < n \<Longrightarrow> pipe_contents (env_iter env k j p) = [] \<and> \<not> pp_closed (env_iter env k j p)) \<Longrightarrow>
    pipe_read_wait env k p = pipe_read_wait env (k + n) (env_iter env k n p)"
proof (induction n arbitrary: k p)
  case (Suc n)
  have "pipe_contents p = [] \<and> \<not> pp_closed p" using Suc.prems[of 0] by simp
  then have "pipe_read_wait env k p = pipe_read_wait env (Suc k) (env k p)"
    by (simp add: pipe_read_wait.simps[of env k p] flip: length_0_conv)
  also have "\<dots> = pipe_read_wait env (Suc k + n) (env_iter env (Suc k) n (env k p))"
    using Suc.prems[of "Suc _"] by (intro Suc.IH) simp
  finally show ?case by simp
qed simp

lemma pipe_read_wait_returns:
  assumes "pipe_read_wait env k p = Some r"
  shows "\<exists>n. pipe_contents (env_iter env k n p) \<noteq> [] \<or> pp_closed (env_iter env k n p)"
proof (rule pipe_read_wait.raw_induct[where P = "\<lambda>env k p r. \<exists>n. pipe_contents (env_iter env k n p) \<noteq> [] \<or>
      pp_closed (env_iter env k n p)", OF _ assms])
  fix f env k p r
  assume IH: "\<And>env k p y. f env k p = Some y \<Longrightarrow>
      \<exists>n. pipe_contents (env_iter env k n p) \<noteq> [] \<or> pp_closed (env_iter env k n p)"
    and step: "(if ringbuf_size (pp_buffer p) \<noteq> 0 then Some (True, p) else if pp_closed p then Some (False, p)
      else f env (Suc k) (env k p)) = Some r"
  show "\<exists>n. pipe_contents (env_iter env k n p) \<noteq> [] \<or> pp_closed (env_iter env k n p)"
  proof (cases "ringbuf_size (pp_buffer p) \<noteq> 0 \<or> pp_closed p")
    case True
    then show ?thesis by (intro exI[of _ 0]) (auto simp flip: length_0_conv)
  next
    case False
    then obtain n where "pipe_contents (env_iter env (Suc k) n (env k p)) \<noteq> [] \<or> pp_closed (env_iter env (Suc k) n (env k p))"
      using IH[of env "Suc k" "env k p" r] step by auto
    then show ?thesis by (intro exI[of _ "Suc n"]) simp
  qed
qed


lemma env_iter_idle [simp]: "env_iter idle k n p = p"
  by (induction n arbitrary: k) auto


text \<open>The state in which a blocked call goes on: the first one that is ready.\<close>

lemma pipe_read_wait_first:
  assumes "pipe_contents (env_iter env 0 n p) \<noteq> [] \<or> pp_closed (env_iter env 0 n p)"
    "\<And>j. j < n \<Longrightarrow> pipe_contents (env_iter env 0 j p) = [] \<and> \<not> pp_closed (env_iter env 0 j p)"
  shows "pipe_read env p sz = pipe_read idle (env_iter env 0 n p) sz"
proof -
  let ?q = "env_iter env 0 n p"
  have "pipe_read_wait env 0 p = pipe_read_wait env n ?q"
    using pipe_read_wait_blocked[of n env 0 p] assms(2) by simp
  also have "\<dots> = pipe_read_wait idle 0 ?q"
    using assms(1) by (cases "pipe_contents ?q = []")
      (simp_all add: pipe_read_wait.simps[of env n] pipe_read_wait.simps[of idle 0] flip: length_0_conv)
  finally show ?thesis by (simp add: pipe_read_def)
qed

subsection \<open>Histories\<close>



lemma env_iter_inv:
  "(\<And>k q. pipe_inv q \<Longrightarrow> pipe_inv (env k q)) \<Longrightarrow> pipe_inv p \<Longrightarrow> pipe_inv (env_iter env k n p)"
  by (induction n arbitrary: k p) auto

lemma pipe_new_ok: "pipe_inv (pipe_new junk r w)" "pipe_contents (pipe_new junk r w) = []"
    "rb_size (pp_buffer (pipe_new junk r w)) = 4096" "\<not> rb_full (pp_buffer (pipe_new junk r w))"
    "ringbuf_size (pp_buffer (pipe_new junk r w)) = 0"
  using ringbuf_create_ok[of 4096 junk] rb_contents_length[of "ringbuf_create junk 4096"]
  by (simp_all add: pipe_new_def pipe_inv_def)

lemma find_slot_some: "find_slot used prev js = Some j \<Longrightarrow> j \<in> set js \<and> \<not> used j \<and> prev \<noteq> Some j"
  by (induction js) (auto split: if_splits)

lemma find_slot_none: "find_slot used prev js = None \<longleftrightarrow> (\<forall>j \<in> set js. used j \<or> prev = Some j)"
  by (induction js) auto

lemma find_slots_two:
  "case find_slots used None 2 of
     Some js \<Rightarrow> \<exists>i j. js = [i, j] \<and> i \<noteq> j \<and> i < FD_MAX \<and> j < FD_MAX \<and> \<not> used i \<and> \<not> used j
   | None \<Rightarrow> \<forall>i j. i < FD_MAX \<and> j < FD_MAX \<and> \<not> used i \<and> \<not> used j \<longrightarrow> i = j"
proof (cases "find_slot used None [0..<FD_MAX]")
  case None
  then have "\<forall>i < FD_MAX. used i" by (simp add: find_slot_none)
  then show ?thesis by (auto simp: numeral_2_eq_2 None simp del: upt_rec_numeral upt.simps)
next
  case (Some i)
  note i = find_slot_some[OF Some]
  show ?thesis
  proof (cases "find_slot used (Some i) [0..<FD_MAX]")
    case None
    then have "\<forall>j < FD_MAX. used j \<or> i = j" by (simp add: find_slot_none)
    then show ?thesis by (auto simp: numeral_2_eq_2 Some None simp del: upt_rec_numeral upt.simps)
  next
    case (Some j)
    then show ?thesis using find_slot_some[OF Some] i \<open>find_slot used None _ = _\<close>
      by (simp add: numeral_2_eq_2 del: upt_rec_numeral upt.simps)
  qed
qed

subsection \<open>Properties\<close>



text \<open>
  C28: a blocked \<open>pipe_read\<close> returns exactly when the other tasks at some yield leave the pipe
  with bytes in it or closed; it then delivers the bytes of the first such state, or, when
  that is closed and empty, sends \<^verbatim>\<open>SIGPIPE\<close> and returns \<open>-EINTR\<close>.
\<close>

theorem pipe_read_unblocks:
  assumes "pipe_inv p" and "\<And>k q. pipe_inv q \<Longrightarrow> pipe_inv (env k q)" and "n < 2 ^ 63"
  shows "if \<exists>k. pipe_contents (env_iter env 0 k p) \<noteq> [] \<or> pp_closed (env_iter env 0 k p) then
      let k = LEAST k. pipe_contents (env_iter env 0 k p) \<noteq> [] \<or> pp_closed (env_iter env 0 k p);
          q = env_iter env 0 k p
      in if pipe_contents q = [] then pipe_read env p n = ret (- EINTR, [], [SIGPIPE], q)
         else \<exists>q'. pipe_read env p n = ret (int (min n (length (pipe_contents q))), take n (pipe_contents q), [], q') \<and>
           pipe_contents q' = drop n (pipe_contents q)
    else pipe_read env p n = None"
proof (cases "\<exists>k. pipe_contents (env_iter env 0 k p) \<noteq> [] \<or> pp_closed (env_iter env 0 k p)")
  case True
  let ?P = "\<lambda>k. pipe_contents (env_iter env 0 k p) \<noteq> [] \<or> pp_closed (env_iter env 0 k p)"
  define k where "k = (LEAST k. ?P k)"
  define q where "q = env_iter env 0 k p"
  have k: "?P k" unfolding k_def using True by (rule LeastI_ex)
  have eq: "pipe_read env p n = pipe_read idle q n"
    unfolding q_def
  proof (rule pipe_read_wait_first[OF k])
    fix j assume "j < k"
    then have "\<not> ?P j" unfolding k_def by (rule not_less_Least)
    then show "pipe_contents (env_iter env 0 j p) = [] \<and> \<not> pp_closed (env_iter env 0 j p)" by simp
  qed
  have inv: "pipe_inv q" unfolding q_def by (rule env_iter_inv) (use assms in auto)
  have "if pipe_contents q = [] then pipe_read env p n = ret (- EINTR, [], [SIGPIPE], q)
     else \<exists>q'. pipe_read env p n = ret (int (min n (length (pipe_contents q))), take n (pipe_contents q), [], q') \<and>
       pipe_contents q' = drop n (pipe_contents q)"
  proof (cases "pipe_contents q = []")
    case True
    then have "pp_closed q" using k by (simp add: q_def)
    then show ?thesis using True pipe_read_closed[of q idle n] by (simp add: eq)
  next
    case False
    then obtain q' where "pipe_read idle q n = ret (int (min n (length (pipe_contents q))), take n (pipe_contents q), [], q')"
      "pipe_contents q' = drop n (pipe_contents q)"
      using pipe_read_ready[OF inv False assms(3), of idle] by blast
    then show ?thesis using False by (simp add: eq)
  qed
  then show ?thesis using True by (simp only: if_True Let_def k_def[symmetric] q_def[symmetric])
next
  case False
  then have "pipe_read_wait env 0 p = None"
    using pipe_read_wait_returns[of env 0 p] by (cases "pipe_read_wait env 0 p") auto
  then show ?thesis using False by (simp add: pipe_read_def)
qed

theorem pipe_read_unblocks_witness:
  "pipe_read idle (pipe_new (\<lambda>_. 0) 1 2) 8 = None \<and>
   pipe_read idle ((pipe_new (\<lambda>_. 0) 1 2)\<lparr>pp_closed := True\<rparr>) 8 \<noteq> None"
proof
  let ?p = "pipe_new (\<lambda>_. 0) 1 2"
  show "pipe_read idle ?p 8 = None"
    using pipe_read_unblocks[of ?p idle 8] pipe_new_ok[of "\<lambda>_. 0" 1 2] by (simp add: pipe_new_def)
  have "pipe_inv (?p\<lparr>pp_closed := True\<rparr>)" using pipe_new_ok(1)[of "\<lambda>_. 0" 1 2] by (simp add: pipe_inv_def)
  then show "pipe_read idle (?p\<lparr>pp_closed := True\<rparr>) 8 \<noteq> None"
    using pipe_read_unblocks[of "?p\<lparr>pp_closed := True\<rparr>" idle 8] pipe_new_ok[of "\<lambda>_. 0" 1 2] by (simp add: Let_def)
qed

end
