(* ===== verification/Vfs.thy ===== *)
theory Vfs
  imports Klist Kstring "HOL-Library.Sublist"
begin

text \<open>
  The virtual file system switch, \<^verbatim>\<open>kernel/kern/fs/vfs.c\<close> with the structures of
  \<^verbatim>\<open>kernel/include/micro/vfs.h\<close>.

  The function pointers of an inode are a number: the tables \<open>ot_inode\<close> and \<open>ot_file\<close> give,
  for each number, the operations, where \<open>None\<close> is a null pointer. The state of the file
  systems below the switch is a type variable that only the operations look into.
  \<open>TRY\<close> returns on a negative value, so an operation that fails is \<open>Inl\<close> of that value.
\<close>

unbundle bit_operations_syntax

subsection \<open>Inodes, files, operations\<close>

record inode =
  i_mode :: nat
  i_size :: nat
  i_rdev :: nat
  i_nlink :: nat
  i_atime :: int
  i_mtime :: int
  i_ctime :: int
  i_uid :: nat
  i_gid :: nat
  i_blksize :: int
  i_blocks :: int
  i_inode :: nat
  i_priv :: nat
  i_ops :: nat
  i_fops :: nat

record kfile =
  f_inode :: inode
  f_off :: int
  f_flags :: nat
  f_ops :: nat

record dirent =
  d_type :: nat
  d_off :: nat
  d_name :: string

record 'w inode_ops =
  io_lookup :: "('w \<Rightarrow> inode \<Rightarrow> string \<Rightarrow> int + inode) option"
  io_mknod :: "('w \<Rightarrow> inode \<Rightarrow> string \<Rightarrow> nat \<Rightarrow> nat \<Rightarrow> nat \<Rightarrow> nat \<Rightarrow> int \<times> 'w) option"
  io_mkdir :: "('w \<Rightarrow> inode \<Rightarrow> string \<Rightarrow> nat \<Rightarrow> nat \<Rightarrow> nat \<Rightarrow> int \<times> 'w) option"
  io_getdents :: "('w \<Rightarrow> inode \<Rightarrow> int \<Rightarrow> nat \<Rightarrow> (int \<times> dirent list) res) option"
  io_unlink :: "('w \<Rightarrow> inode \<Rightarrow> string \<Rightarrow> int \<times> 'w) option"
  io_readlink :: "('w \<Rightarrow> inode \<Rightarrow> nat \<Rightarrow> int \<times> char list) option"
  io_symlink :: "('w \<Rightarrow> inode \<Rightarrow> string \<Rightarrow> int \<times> 'w) option"
  io_link :: "('w \<Rightarrow> inode \<Rightarrow> string \<Rightarrow> inode \<Rightarrow> int \<times> 'w) option"
  io_set_atime :: "('w \<Rightarrow> inode \<Rightarrow> int \<Rightarrow> int \<times> 'w) option"
  io_set_mtime :: "('w \<Rightarrow> inode \<Rightarrow> int \<Rightarrow> int \<times> 'w) option"

record 'w file_ops =
  fo_open :: "('w \<Rightarrow> inode \<Rightarrow> kfile \<Rightarrow> int \<times> kfile \<times> 'w) option"
  fo_release :: "('w \<Rightarrow> kfile \<Rightarrow> int \<times> 'w) option"
  fo_read :: "('w \<Rightarrow> kfile \<Rightarrow> int \<Rightarrow> nat \<Rightarrow> (int \<times> u8 list \<times> 'w) run) option"
  fo_write :: "('w \<Rightarrow> kfile \<Rightarrow> u8 list \<Rightarrow> int \<Rightarrow> nat \<Rightarrow> (int \<times> 'w) run) option"
  fo_ioctl :: "('w \<Rightarrow> kfile \<Rightarrow> int \<Rightarrow> nat \<Rightarrow> int \<times> 'w) option"
  fo_mmap :: "('w \<Rightarrow> kfile \<Rightarrow> nat \<Rightarrow> int \<times> 'w) option"
  fo_chmod :: "('w \<Rightarrow> kfile \<Rightarrow> nat \<Rightarrow> int \<times> 'w) option"
  fo_chown :: "('w \<Rightarrow> kfile \<Rightarrow> nat \<Rightarrow> nat \<Rightarrow> int \<times> 'w) option"

record mount =
  m_path :: string
  m_file :: inode

record cred =
  c_euid :: nat
  c_egid :: nat
  c_groups :: "nat list"

record 'w vfs =
  v_mounts :: "mount klist"
  v_types :: "(string \<times> ('w \<Rightarrow> string \<Rightarrow> nat \<Rightarrow> inode \<Rightarrow> int \<times> inode \<times> 'w)) list"
  v_ops :: "nat \<Rightarrow> 'w inode_ops"
  v_fops :: "nat \<Rightarrow> 'w file_ops"
  v_curr :: "cred option"
  v_world :: 'w

abbreviation (input) S_IFMT :: nat where "S_IFMT \<equiv> 0xf000"
abbreviation (input) S_IFIFO :: nat where "S_IFIFO \<equiv> 0x1000"
abbreviation (input) S_IFCHR :: nat where "S_IFCHR \<equiv> 0x2000"
abbreviation (input) S_IFDIR :: nat where "S_IFDIR \<equiv> 0x4000"
abbreviation (input) S_IFBLK :: nat where "S_IFBLK \<equiv> 0x6000"
abbreviation (input) S_IFREG :: nat where "S_IFREG \<equiv> 0x8000"
abbreviation (input) S_IFLNK :: nat where "S_IFLNK \<equiv> 0xa000"

definition S_ISDIR :: "nat \<Rightarrow> bool" where
  "S_ISDIR m \<longleftrightarrow> m AND S_IFMT = S_IFDIR"

definition S_ISLNK :: "nat \<Rightarrow> bool" where
  "S_ISLNK m \<longleftrightarrow> m AND S_IFMT = S_IFLNK"

definition S_ISREG :: "nat \<Rightarrow> bool" where
  "S_ISREG m \<longleftrightarrow> m AND S_IFMT = S_IFREG"

definition zero_inode :: inode where
  "zero_inode = \<lparr>i_mode = 0, i_size = 0, i_rdev = 0, i_nlink = 0, i_atime = 0, i_mtime = 0, i_ctime = 0,
     i_uid = 0, i_gid = 0, i_blksize = 0, i_blocks = 0, i_inode = 0, i_priv = 0, i_ops = 0, i_fops = 0\<rparr>"

subsection \<open>Permissions\<close>

fun in_groups :: "nat \<Rightarrow> nat list \<Rightarrow> bool" where
  "in_groups g [] = False"
| "in_groups g (h # gs) = (if g = h then True else in_groups g gs)"

definition vfs_checkperm :: "cred option \<Rightarrow> inode \<Rightarrow> nat \<Rightarrow> int" where
  "vfs_checkperm me file msk =
     (case me of
        None \<Rightarrow> 0
      | Some c \<Rightarrow>
          if c_euid c \<noteq> 0 then
            if c_euid c = i_uid file then if i_mode file AND push_bit 6 msk = 0 then -1 else 0
            else if c_egid c = i_gid file then if i_mode file AND push_bit 3 msk = 0 then -1 else 0
            else if in_groups (i_gid file) (c_groups c)
              then if i_mode file AND push_bit 3 msk = 0 then -1 else 0
            else if i_mode file AND msk = 0 then -1 else 0
          else 0)"

subsection \<open>Reading and writing\<close>

definition vfs_init :: "'w vfs \<Rightarrow> 'w vfs" where
  "vfs_init v = v\<lparr>v_mounts := kl_create\<rparr>"

definition vfs_read :: "'w vfs \<Rightarrow> kfile \<Rightarrow> nat \<Rightarrow> (int \<times> u8 list \<times> kfile \<times> 'w vfs) run" where
  "vfs_read v f sz =
     (case fo_read (v_fops v (f_ops f)) of
        Some rd \<Rightarrow> bindR (rd (v_world v) f (f_off f) sz) (\<lambda>(n, xs, w).
          ret (n, xs, f\<lparr>f_off := f_off f + n\<rparr>, v\<lparr>v_world := w\<rparr>))
      | None \<Rightarrow> ret (0, [], f, v))"

definition vfs_write :: "'w vfs \<Rightarrow> kfile \<Rightarrow> u8 list \<Rightarrow> nat \<Rightarrow> (int \<times> kfile \<times> 'w vfs) run" where
  "vfs_write v f buf sz =
     (case fo_write (v_fops v (f_ops f)) of
        Some wr \<Rightarrow> bindR (wr (v_world v) f buf (f_off f) sz) (\<lambda>(n, w).
          ret (n, f\<lparr>f_off := f_off f + n\<rparr>, v\<lparr>v_world := w\<rparr>))
      | None \<Rightarrow> ret (0, f, v))"

definition vfs_pread :: "'w vfs \<Rightarrow> kfile \<Rightarrow> nat \<Rightarrow> int \<Rightarrow> (int \<times> u8 list \<times> 'w vfs) run" where
  "vfs_pread v f sz off =
     (case fo_read (v_fops v (f_ops f)) of
        Some rd \<Rightarrow> bindR (rd (v_world v) f off sz) (\<lambda>(n, xs, w). ret (n, xs, v\<lparr>v_world := w\<rparr>))
      | None \<Rightarrow> ret (0, [], v))"

definition vfs_pwrite :: "'w vfs \<Rightarrow> kfile \<Rightarrow> u8 list \<Rightarrow> nat \<Rightarrow> int \<Rightarrow> (int \<times> 'w vfs) run" where
  "vfs_pwrite v f buf sz off =
     (case fo_write (v_fops v (f_ops f)) of
        Some wr \<Rightarrow> bindR (wr (v_world v) f buf off sz) (\<lambda>(n, w). ret (n, v\<lparr>v_world := w\<rparr>))
      | None \<Rightarrow> ret (0, v))"

definition vfs_getdents :: "'w vfs \<Rightarrow> inode \<Rightarrow> int \<Rightarrow> nat \<Rightarrow> (int \<times> dirent list) res" where
  "vfs_getdents v dir off n =
     (case io_getdents (v_ops v (i_ops dir)) of
        Some g \<Rightarrow> if S_ISDIR (i_mode dir) then g (v_world v) dir off n else Inr (- ENOTDIR, [])
      | None \<Rightarrow> Inr (- ENOTDIR, []))"

definition vfs_ioctl :: "'w vfs \<Rightarrow> kfile \<Rightarrow> int \<Rightarrow> nat \<Rightarrow> int \<times> 'w vfs" where
  "vfs_ioctl v f req argp =
     (case fo_ioctl (v_fops v (f_ops f)) of
        Some g \<Rightarrow> (let (e, w) = g (v_world v) f req argp in (e, v\<lparr>v_world := w\<rparr>))
      | None \<Rightarrow> (- ENOTTY, v))"

subsection \<open>Mount points\<close>

fun common_prefix :: "string \<Rightarrow> string \<Rightarrow> nat" where
  "common_prefix (x # xs) (y # ys) = (if x = y then Suc (common_prefix xs ys) else 0)"
| "common_prefix _ _ = 0"

fun getmnt_loop :: "string \<Rightarrow> mount list \<Rightarrow> mount option \<Rightarrow> nat \<Rightarrow> mount option \<times> nat" where
  "getmnt_loop path [] cand match = (cand, match)"
| "getmnt_loop path (m # ms) cand match =
     (if length (m_path m) > length path then getmnt_loop path ms cand match
      else let i = common_prefix path (m_path m) in
        if i > match \<and> strcmp (take i path) (m_path m) = Inr 0
        then getmnt_loop path ms (Some m) i else getmnt_loop path ms cand match)"

definition vfs_getmnt :: "'w vfs \<Rightarrow> string \<Rightarrow> int + string \<times> inode" where
  "vfs_getmnt v path =
     (case getmnt_loop path (kl_items (v_mounts v)) None 0 of
        (None, _) \<Rightarrow> Inl (- ENOENT)
      | (Some m, match) \<Rightarrow> Inr (drop match path, m_file m))"

subsection \<open>Canonical paths\<close>

abbreviation (input) slash :: string where "slash \<equiv> ''/''"

fun mkcanon_loop :: "string list \<Rightarrow> string klist \<Rightarrow> string klist" where
  "mkcanon_loop [] toks = toks"
| "mkcanon_loop (t # ts) toks =
     (if t = [] \<or> strcmp t ''.'' = Inr 0 then mkcanon_loop ts toks
      else if strcmp t ''..'' = Inr 0 then
        mkcanon_loop ts (if kl_size toks \<noteq> 0 then snd (kl_pop_back toks) else toks)
      else mkcanon_loop ts (kl_enqueue toks t))"

fun mkcanon_out :: "char list \<Rightarrow> string list \<Rightarrow> char list res" where
  "mkcanon_out out [] = Inr out"
| "mkcanon_out out (t # ts) =
     bindS (strcat out slash) (\<lambda>out. bindS (strcat out t) (\<lambda>out. mkcanon_out out ts))"

definition vfs_mkcanon :: "char list \<Rightarrow> char list \<Rightarrow> string \<Rightarrow> string option \<Rightarrow> char list res" where
  "vfs_mkcanon tmp out path work =
     bindS (case work of
              None \<Rightarrow> strcpy tmp path
            | Some wd \<Rightarrow>
                if path \<noteq> [] \<and> hd path = CHR ''/'' then strcpy tmp path
                else bindS (strcpy tmp wd) (\<lambda>tmp. bindS (strcat tmp slash) (\<lambda>tmp. strcat tmp path))) (\<lambda>tmp.
       let toks = mkcanon_loop (tokens (c_string tmp) slash) kl_create in
       bindS (array_set out 0 NUL) (\<lambda>out.
       bindS (if kl_size toks = 0 then strcpy out slash else Inr out) (\<lambda>out.
         mkcanon_out out (kl_items toks))))"

subsection \<open>Resolving paths\<close>

text \<open>\<open>CHECK_RPERM\<close> and its siblings: \<open>-EACCES\<close> where \<open>vfs_checkperm\<close> returns -1.\<close>

definition check_perm :: "'w vfs \<Rightarrow> inode \<Rightarrow> nat \<Rightarrow> bool" where
  "check_perm v i msk \<longleftrightarrow> vfs_checkperm (v_curr v) i msk \<noteq> -1"

definition do_lookup :: "'w vfs \<Rightarrow> inode \<Rightarrow> string \<Rightarrow> (int + inode) res" where
  "do_lookup v dir name =
     (case io_lookup (v_ops v (i_ops dir)) of None \<Rightarrow> Inl BadAccess | Some lk \<Rightarrow> Inr (lk (v_world v) dir name))"

fun parent_walk :: "'w vfs \<Rightarrow> inode \<Rightarrow> string list \<Rightarrow> (int + inode \<times> string) res" where
  "parent_walk v file [] = Inr (Inl (- ENOENT))"
| "parent_walk v file [t] = (if \<not> S_ISDIR (i_mode file) then Inr (Inl (- ENOTDIR)) else Inr (Inr (file, t)))"
| "parent_walk v file (t # u # ts) =
     (if \<not> S_ISDIR (i_mode file) then Inr (Inl (- ENOTDIR))
      else if \<not> check_perm v file 4 then Inr (Inl (- EACCES))
      else bindS (do_lookup v file t) (\<lambda>r.
        case r of Inl e \<Rightarrow> Inr (Inl e) | Inr file \<Rightarrow> parent_walk v file (u # ts)))"

definition get_parent_dir :: "'w vfs \<Rightarrow> string \<Rightarrow> (int + inode \<times> string) res" where
  "get_parent_dir v path =
     (case vfs_getmnt v path of
        Inl e \<Rightarrow> Inr (Inl e)
      | Inr (relat, file) \<Rightarrow> parent_walk v file (tokens relat slash))"

definition vfs_readlink :: "'w vfs \<Rightarrow> inode \<Rightarrow> nat \<Rightarrow> int \<times> char list" where
  "vfs_readlink v i n =
     (case io_readlink (v_ops v (i_ops i)) of Some g \<Rightarrow> g (v_world v) i n | None \<Rightarrow> (- EINVAL, []))"

datatype walk_result = Failed int | Reached inode | Symlink string

fun resolve_walk :: "'w vfs \<Rightarrow> inode \<Rightarrow> string list \<Rightarrow> bool \<Rightarrow> walk_result res" where
  "resolve_walk v file [] symlinks = Inr (Reached file)"
| "resolve_walk v file (t # ts) symlinks =
     (if \<not> S_ISDIR (i_mode file) then Inr (Failed (- ENOTDIR))
      else if \<not> check_perm v file 4 then Inr (Failed (- EACCES))
      else bindS (do_lookup v file t) (\<lambda>r.
        case r of
          Inl e \<Rightarrow> Inr (Failed e)
        | Inr file \<Rightarrow>
            if S_ISLNK (i_mode file) \<and> symlinks then
              (let (n, link) = vfs_readlink v file 60 in
               if n < 0 \<or> n \<ge> 60 then Inl Overrun
               else Inr (Symlink (c_string (take (nat n) link))))
            else resolve_walk v file ts symlinks))"

function do_vfs_resolve :: "'w vfs \<Rightarrow> string \<Rightarrow> bool \<Rightarrow> nat \<Rightarrow> (int + inode) res" where
  "do_vfs_resolve v path symlinks depth =
     (if depth \<ge> 8 then Inr (Inl (- ELOOP))
      else case vfs_getmnt v path of
        Inl e \<Rightarrow> Inr (Inl e)
      | Inr (relat, file) \<Rightarrow>
          (case resolve_walk v file (tokens relat slash) symlinks of
             Inl f \<Rightarrow> Inl f
           | Inr (Failed e) \<Rightarrow> Inr (Inl e)
           | Inr (Reached i) \<Rightarrow> Inr (Inr i)
           | Inr (Symlink link) \<Rightarrow> do_vfs_resolve v link True (Suc depth)))"
  by pat_completeness auto
termination by (relation "measure (\<lambda>(v, path, symlinks, depth). 8 - depth)") auto

declare do_vfs_resolve.simps [simp del]

definition vfs_resolve :: "'w vfs \<Rightarrow> string \<Rightarrow> bool \<Rightarrow> (int + inode) res" where
  "vfs_resolve v path symlinks = do_vfs_resolve v path symlinks 0"

subsection \<open>Creating and removing\<close>

text \<open>The results of the file system's \<open>mkdir\<close>, \<open>mknod\<close> and \<open>unlink\<close> are dropped, as in the code.\<close>

definition vfs_mkdir :: "'w vfs \<Rightarrow> string \<Rightarrow> nat \<Rightarrow> nat \<Rightarrow> nat \<Rightarrow> (int \<times> 'w vfs) res" where
  "vfs_mkdir v path mode uid gid =
     bindS (get_parent_dir v path) (\<lambda>r.
       case r of
         Inl e \<Rightarrow> Inr (e, v)
       | Inr (dir, name) \<Rightarrow>
           (case io_mkdir (v_ops v (i_ops dir)) of
              Some mk \<Rightarrow> Inr (0, v\<lparr>v_world := snd (mk (v_world v) dir name mode uid gid)\<rparr>)
            | None \<Rightarrow> Inr (0, v)))"

definition vfs_mknod :: "'w vfs \<Rightarrow> string \<Rightarrow> nat \<Rightarrow> nat \<Rightarrow> nat \<Rightarrow> nat \<Rightarrow> (int \<times> 'w vfs) res" where
  "vfs_mknod v path mode dev uid gid =
     bindS (get_parent_dir v path) (\<lambda>r.
       case r of
         Inl e \<Rightarrow> Inr (e, v)
       | Inr (dir, name) \<Rightarrow>
           (case io_mknod (v_ops v (i_ops dir)) of
              Some mk \<Rightarrow> Inr (0, v\<lparr>v_world := snd (mk (v_world v) dir name mode dev uid gid)\<rparr>)
            | None \<Rightarrow> Inr (0, v)))"

definition vfs_do_unlink :: "'w vfs \<Rightarrow> inode \<Rightarrow> string \<Rightarrow> 'w vfs" where
  "vfs_do_unlink v dir name =
     (case io_unlink (v_ops v (i_ops dir)) of
        Some ul \<Rightarrow> v\<lparr>v_world := snd (ul (v_world v) dir name)\<rparr>
      | None \<Rightarrow> v)"

definition vfs_unlink :: "'w vfs \<Rightarrow> string \<Rightarrow> (int \<times> 'w vfs) res" where
  "vfs_unlink v path =
     bindS (get_parent_dir v path) (\<lambda>r.
       case r of
         Inl e \<Rightarrow> Inr (e, v)
       | Inr (dir, name) \<Rightarrow>
           bindS (vfs_resolve v path True) (\<lambda>r.
             case r of
               Inl e \<Rightarrow> Inr (e, v)
             | Inr file \<Rightarrow>
                 if S_ISDIR (i_mode file) then Inr (- EISDIR, v)
                 else Inr (0, vfs_do_unlink v dir name)))"

subsection \<open>Opening and the rest\<close>

abbreviation (input) O_WRONLY :: nat where "O_WRONLY \<equiv> 0x1"
abbreviation (input) O_RDWR :: nat where "O_RDWR \<equiv> 0x2"
abbreviation (input) O_CREAT :: nat where "O_CREAT \<equiv> 0x40"
abbreviation (input) O_EXCL :: nat where "O_EXCL \<equiv> 0x80"
abbreviation (input) O_APPEND :: nat where "O_APPEND \<equiv> 0x400"
abbreviation (input) O_NOFOLLOW :: nat where "O_NOFOLLOW \<equiv> 0x20000"
abbreviation (input) O_PATH :: nat where "O_PATH \<equiv> 0x200000"

text \<open>The value returned, and the \<^verbatim>\<open>struct file\<close> where it was filled in.\<close>

definition vfs_open :: "'w vfs \<Rightarrow> string \<Rightarrow> nat \<Rightarrow> (int \<times> kfile option \<times> 'w vfs) res" where
  "vfs_open v path flags =
     bindS (vfs_resolve v path (flags AND O_NOFOLLOW = 0)) (\<lambda>r.
       case r of
         Inl e \<Rightarrow> Inr (e, None, v)
       | Inr inode \<Rightarrow>
           let file = \<lparr>f_inode = inode, f_off = 0, f_flags = flags, f_ops = i_fops inode\<rparr> in
           (case fo_open (v_fops v (i_fops inode)) of
              Some op \<Rightarrow> (let (e, file, w) = op (v_world v) inode file in Inr (e, Some file, v\<lparr>v_world := w\<rparr>))
            | None \<Rightarrow> Inr (0, Some file, v)))"

definition vfs_close :: "'w vfs \<Rightarrow> kfile \<Rightarrow> 'w vfs" where
  "vfs_close v f =
     (case fo_release (v_fops v (f_ops f)) of
        Some g \<Rightarrow> v\<lparr>v_world := snd (g (v_world v) f)\<rparr>
      | None \<Rightarrow> v)"

abbreviation (input) R_OK :: nat where "R_OK \<equiv> 1"
abbreviation (input) W_OK :: nat where "W_OK \<equiv> 2"
abbreviation (input) X_OK :: nat where "X_OK \<equiv> 4"

definition access_check :: "'w vfs \<Rightarrow> inode \<Rightarrow> nat \<Rightarrow> int" where
  "access_check v i mode =
     (if mode AND R_OK \<noteq> 0 \<and> \<not> check_perm v i 4 then - EACCES
      else if mode AND W_OK \<noteq> 0 \<and> \<not> check_perm v i 2 then - EACCES
      else if mode AND X_OK \<noteq> 0 \<and> \<not> check_perm v i 1 then - EACCES
      else 0)"

definition vfs_access :: "'w vfs \<Rightarrow> string \<Rightarrow> nat \<Rightarrow> (int \<times> 'w vfs) res" where
  "vfs_access v path mode =
     bindS (vfs_open v path 0) (\<lambda>(e, file, v').
       if e < 0 then Inr (e, v')
       else case file of None \<Rightarrow> Inl BadAccess | Some f \<Rightarrow> Inr (access_check v' (f_inode f) mode, v'))"

definition vfs_mmap :: "'w vfs \<Rightarrow> kfile \<Rightarrow> nat \<Rightarrow> 'w vfs" where
  "vfs_mmap v f area =
     (case fo_mmap (v_fops v (f_ops f)) of
        Some g \<Rightarrow> v\<lparr>v_world := snd (g (v_world v) f area)\<rparr>
      | None \<Rightarrow> v)"

definition vfs_chmod :: "'w vfs \<Rightarrow> kfile \<Rightarrow> nat \<Rightarrow> int \<times> 'w vfs" where
  "vfs_chmod v f mode =
     (case fo_chmod (v_fops v (f_ops f)) of
        Some g \<Rightarrow> (let (e, w) = g (v_world v) f mode in (e, v\<lparr>v_world := w\<rparr>))
      | None \<Rightarrow> (- ENOENT, v))"

definition vfs_chown :: "'w vfs \<Rightarrow> kfile \<Rightarrow> nat \<Rightarrow> nat \<Rightarrow> int \<times> 'w vfs" where
  "vfs_chown v f uid gid =
     (case fo_chown (v_fops v (f_ops f)) of
        Some g \<Rightarrow> (let (e, w) = g (v_world v) f uid gid in (e, v\<lparr>v_world := w\<rparr>))
      | None \<Rightarrow> (- ENOENT, v))"

definition vfs_symlink :: "'w vfs \<Rightarrow> string \<Rightarrow> string \<Rightarrow> (int \<times> 'w vfs) res" where
  "vfs_symlink v target link =
     bindS (vfs_access v link 0) (\<lambda>(e, v).
       if e = 0 then Inr (- EEXIST, v)
       else case v_curr v of
         None \<Rightarrow> Inl BadAccess
       | Some c \<Rightarrow>
           bindS (vfs_mknod v link (S_IFLNK OR 0x1ff) 0 (c_euid c) (c_egid c)) (\<lambda>(_, v).
           bindS (vfs_resolve v link False) (\<lambda>r.
             case r of
               Inl e \<Rightarrow> Inr (e, v)
             | Inr file \<Rightarrow>
                 (case io_symlink (v_ops v (i_ops file)) of
                    Some g \<Rightarrow> (let (e, w) = g (v_world v) file target in Inr (e, v\<lparr>v_world := w\<rparr>))
                  | None \<Rightarrow> Inr (- ENOENT, v)))))"

definition vfs_link :: "'w vfs \<Rightarrow> string \<Rightarrow> string \<Rightarrow> (int \<times> 'w vfs) res" where
  "vfs_link v old new =
     bindS (vfs_resolve v old True) (\<lambda>r.
       case r of
         Inl e \<Rightarrow> Inr (e, v)
       | Inr file \<Rightarrow>
           bindS (get_parent_dir v new) (\<lambda>r.
             case r of
               Inl e \<Rightarrow> Inr (e, v)
             | Inr (dir, name) \<Rightarrow>
                 (case io_link (v_ops v (i_ops file)) of
                    Some g \<Rightarrow> (let (e, w) = g (v_world v) file name dir in Inr (e, v\<lparr>v_world := w\<rparr>))
                  | None \<Rightarrow> Inr (- ENOENT, v))))"

definition vfs_rename :: "'w vfs \<Rightarrow> string \<Rightarrow> string \<Rightarrow> (int \<times> 'w vfs) res" where
  "vfs_rename v old new =
     bindS (vfs_link v old new) (\<lambda>(e, v).
       if e < 0 then Inr (e, v)
       else bindS (get_parent_dir v old) (\<lambda>r.
         case r of
           Inl e \<Rightarrow> Inr (e, v)
         | Inr (dir, name) \<Rightarrow> Inr (0, vfs_do_unlink v dir name)))"

definition vfs_rmdir :: "'w vfs \<Rightarrow> string \<Rightarrow> (int \<times> 'w vfs) res" where
  "vfs_rmdir v path =
     bindS (get_parent_dir v path) (\<lambda>r.
       case r of
         Inl e \<Rightarrow> Inr (e, v)
       | Inr (dir, name) \<Rightarrow> Inr (0, vfs_do_unlink v dir name))"

subsection \<open>Mounting\<close>

fun mount_fs_loop :: "'w vfs \<Rightarrow> (string \<times> ('w \<Rightarrow> string \<Rightarrow> nat \<Rightarrow> inode \<Rightarrow> int \<times> inode \<times> 'w)) list \<Rightarrow>
    string \<Rightarrow> string \<Rightarrow> string \<Rightarrow> nat \<Rightarrow> int \<times> 'w vfs" where
  "mount_fs_loop v [] dev mnt fs data = (- ENODEV, v)"
| "mount_fs_loop v ((name, mnt_fn) # ts) dev mnt fs data =
     (if strcmp name fs = Inr 0 then
        (let (e, fsroot, w) = mnt_fn (v_world v) dev data (zero_inode\<lparr>i_mode := S_IFDIR\<rparr>);
             v = v\<lparr>v_world := w\<rparr>
         in if e < 0 then (e, v)
            else (0, v\<lparr>v_mounts := kl_enqueue (v_mounts v) \<lparr>m_path = mnt, m_file = fsroot\<rparr>\<rparr>))
      else mount_fs_loop v ts dev mnt fs data)"

definition vfs_mount_fs :: "'w vfs \<Rightarrow> string \<Rightarrow> string \<Rightarrow> string \<Rightarrow> nat \<Rightarrow> int \<times> 'w vfs" where
  "vfs_mount_fs v dev mnt fs data = mount_fs_loop v (v_types v) dev mnt fs data"

fun umount_index :: "mount list \<Rightarrow> string \<Rightarrow> nat \<Rightarrow> nat option" where
  "umount_index [] mnt i = None"
| "umount_index (m # ms) mnt i = (if strcmp (m_path m) mnt = Inr 0 then Some i else umount_index ms mnt (Suc i))"

definition vfs_umount_fs :: "'w vfs \<Rightarrow> string \<Rightarrow> (int \<times> 'w vfs) res" where
  "vfs_umount_fs v mnt =
     (case umount_index (kl_items (v_mounts v)) mnt 0 of
        None \<Rightarrow> Inr (- ENOENT, v)
      | Some i \<Rightarrow> bindS (kl_remove (v_mounts v) i) (\<lambda>(_, ms). Inr (0, v\<lparr>v_mounts := ms\<rparr>)))"

definition vfs_register_fs :: "'w vfs \<Rightarrow> string \<Rightarrow> ('w \<Rightarrow> string \<Rightarrow> nat \<Rightarrow> inode \<Rightarrow> int \<times> inode \<times> 'w) \<Rightarrow> 'w vfs res" where
  "vfs_register_fs v fs mnt_fn =
     (if length (v_types v) < 64 then Inr (v\<lparr>v_types := v_types v @ [(fs, mnt_fn)]\<rparr>) else Inl Overrun)"

subsection \<open>Permissions\<close>

lemma in_groups_set [simp]: "in_groups g gs \<longleftrightarrow> g \<in> set gs"
  by (induction gs) auto

text \<open>The reference: the one class of bits that applies to a caller.\<close>

definition perm_class :: "cred \<Rightarrow> inode \<Rightarrow> nat" where
  "perm_class c i =
     (if c_euid c = i_uid i then 6
      else if c_egid c = i_gid i \<or> i_gid i \<in> set (c_groups c) then 3 else 0)"

lemma checkperm_class:
  assumes "c_euid c \<noteq> 0"
  shows "vfs_checkperm (Some c) i m = (if i_mode i AND push_bit (perm_class c i) m = 0 then -1 else 0)"
  using assms by (simp add: vfs_checkperm_def perm_class_def)

lemma and_single_bit: "x AND push_bit k (2 ^ b) = 0 \<longleftrightarrow> \<not> bit x (b + k)" for x :: nat
  by (simp add: push_bit_eq_mult and_exp_eq_0_iff_not_bit flip: power_add)

subsection \<open>Mount points\<close>

lemma common_prefix_take: "take (common_prefix xs ys) xs = take (common_prefix xs ys) ys"
  by (induction xs ys rule: common_prefix.induct) auto

lemma common_prefix_prefix: "prefix ys xs \<longleftrightarrow> common_prefix xs ys = length ys"
  by (induction xs ys rule: common_prefix.induct) auto

lemma common_prefix_le: "common_prefix xs ys \<le> length ys" "common_prefix xs ys \<le> length xs"
  by (induction xs ys rule: common_prefix.induct) auto

lemma mount_match:
  "take (common_prefix path mp) path = mp \<longleftrightarrow> prefix mp path"
  using common_prefix_take[of path mp] common_prefix_le[of path mp] common_prefix_prefix[of mp path]
  by (metis length_take min.absorb2 prefix_def take_is_prefix append_eq_conv_conj)

definition is_cand :: "string \<Rightarrow> mount \<Rightarrow> bool" where
  "is_cand path m \<longleftrightarrow> m_path m \<noteq> [] \<and> prefix (m_path m) path"

lemma getmnt_loop_spec:
  assumes "getmnt_loop path ms cand match = (c, k)"
    "cand = None \<longleftrightarrow> match = 0"
    "\<And>m. cand = Some m \<Longrightarrow> is_cand path m \<and> match = length (m_path m)"
  shows "(c = None \<longleftrightarrow> k = 0) \<and> (\<forall>m. c = Some m \<longrightarrow> is_cand path m \<and> k = length (m_path m)) \<and> match \<le> k \<and>
    (\<forall>m \<in> set ms. is_cand path m \<longrightarrow> length (m_path m) \<le> k) \<and> (c = cand \<or> (\<exists>m \<in> set ms. c = Some m))"
  using assms
proof (induction path ms cand match rule: getmnt_loop.induct)
  case (2 path m ms cand match)
  show ?case
  proof (cases "length (m_path m) > length path")
    case True
    then have nc: "\<not> is_cand path m" using prefix_length_le[of "m_path m" path] by (auto simp: is_cand_def)
    have "getmnt_loop path ms cand match = (c, k)" using 2(4) True by simp
    from 2(1)[OF True this 2(5,6)] nc show ?thesis by (simp del: split_paired_Ex) blast
  next
    case False
    let ?i = "common_prefix path (m_path m)"
    show ?thesis
    proof (cases "?i > match \<and> strcmp (take ?i path) (m_path m) = Inr 0")
      case True
      then have p: "prefix (m_path m) path" "?i = length (m_path m)" "m_path m \<noteq> []"
        using mount_match[of path "m_path m"] common_prefix_prefix[of "m_path m" path] by auto
      then have ic: "is_cand path m" by (simp add: is_cand_def)
      have "getmnt_loop path ms (Some m) ?i = (c, k)" using 2(4) False True by (simp add: Let_def)
      from 2(2)[OF False refl True this] True p ic
      have IH: "(c = None \<longleftrightarrow> k = 0) \<and> (\<forall>m. c = Some m \<longrightarrow> is_cand path m \<and> k = length (m_path m)) \<and> ?i \<le> k \<and>
        (\<forall>m \<in> set ms. is_cand path m \<longrightarrow> length (m_path m) \<le> k) \<and> (c = Some m \<or> (\<exists>m \<in> set ms. c = Some m))"
        by simp
      have "match \<le> k" "length (m_path m) \<le> k" using IH True p(2) by linarith+
      with IH show ?thesis by (simp del: split_paired_Ex)
    next
      case nt: False
      then have small: "is_cand path m \<Longrightarrow> length (m_path m) \<le> match"
        using mount_match[of path "m_path m"] common_prefix_prefix[of "m_path m" path] by (auto simp: is_cand_def)
      have "getmnt_loop path ms cand match = (c, k)" using 2(4) False nt by (simp add: Let_def split: if_splits)
      from 2(3)[OF False refl nt this 2(5,6)]
      have IH: "(c = None \<longleftrightarrow> k = 0) \<and> (\<forall>m. c = Some m \<longrightarrow> is_cand path m \<and> k = length (m_path m)) \<and> match \<le> k \<and>
        (\<forall>m \<in> set ms. is_cand path m \<longrightarrow> length (m_path m) \<le> k) \<and> (c = cand \<or> (\<exists>m \<in> set ms. c = Some m))" by simp
      have "is_cand path m \<Longrightarrow> length (m_path m) \<le> k" using IH small by linarith
      with IH show ?thesis by (simp del: split_paired_Ex) blast
    qed
  qed
qed auto

lemma vfs_getmnt_spec:
  "case vfs_getmnt v path of
     Inl e \<Rightarrow> e = - ENOENT \<and> (\<forall>m \<in> set (kl_items (v_mounts v)). \<not> is_cand path m)
   | Inr (rel, i) \<Rightarrow> (\<exists>m \<in> set (kl_items (v_mounts v)). m_path m \<noteq> [] \<and> path = m_path m @ rel \<and> m_file m = i \<and>
       (\<forall>m' \<in> set (kl_items (v_mounts v)). prefix (m_path m') path \<longrightarrow> length (m_path m') \<le> length (m_path m)))"
proof -
  obtain c k where ck: "getmnt_loop path (kl_items (v_mounts v)) None 0 = (c, k)" by fastforce
  note sp = getmnt_loop_spec[OF ck]
  show ?thesis
  proof (cases c)
    case None
    then show ?thesis using sp ck by (auto simp: vfs_getmnt_def is_cand_def)
  next
    case (Some m)
    then have m: "is_cand path m" "k = length (m_path m)" "m \<in> set (kl_items (v_mounts v))"
      "\<forall>m' \<in> set (kl_items (v_mounts v)). is_cand path m' \<longrightarrow> length (m_path m') \<le> k" using sp by auto
    then have "path = m_path m @ drop k path" by (auto simp: is_cand_def prefix_def)
    moreover have "length (m_path m') \<le> k" if "m' \<in> set (kl_items (v_mounts v))" "prefix (m_path m') path" for m'
      using that m by (cases "m_path m' = []") (auto simp: is_cand_def)
    ultimately show ?thesis using m ck Some by (auto simp: vfs_getmnt_def is_cand_def)
  qed
qed

subsection \<open>Canonical paths\<close>

text \<open>The reference on lists of components.\<close>

fun canon :: "string list \<Rightarrow> string list \<Rightarrow> string list" where
  "canon [] acc = acc"
| "canon (t # ts) acc =
     (if t = ''.'' then canon ts acc
      else if t = ''..'' then canon ts (butlast acc)
      else canon ts (acc @ [t]))"

definition join_path :: "string list \<Rightarrow> string" where
  "join_path cs = (if cs = [] then ''/'' else concat (map (\<lambda>c. CHR ''/'' # c) cs))"

definition canon_path :: "string \<Rightarrow> string" where
  "canon_path s = join_path (canon (components CHR ''/'' s) [])"

definition good_comp :: "string \<Rightarrow> bool" where
  "good_comp c \<longleftrightarrow> c \<noteq> [] \<and> CHR ''/'' \<notin> set c \<and> c \<noteq> ''.'' \<and> c \<noteq> ''..''"

lemma split_on_no_delim: "w \<in> set (split_on d s) \<Longrightarrow> d \<notin> set w \<and> set w \<subseteq> set s"
proof (induction s arbitrary: w)
  case (Cons a s)
  obtain x xs where x: "split_on d s = x # xs" using split_on_not_Nil[of d s] by (metis list.exhaust)
  then show ?case using Cons.IH[of x] Cons.IH[of w] Cons.prems by (auto split: if_splits)
qed simp

lemma components_props: "c \<in> set (components d s) \<Longrightarrow> c \<noteq> [] \<and> d \<notin> set c \<and> set c \<subseteq> set s"
  using split_on_no_delim[of c d s] by (auto simp: components_def)

lemma canon_set: "set (canon ts acc) \<subseteq> set acc \<union> {t \<in> set ts. t \<noteq> ''.'' \<and> t \<noteq> ''..''}"
proof (induction ts acc rule: canon.induct)
  case (2 t ts acc)
  then show ?case by (auto dest: in_set_butlastD split: if_splits)
qed simp

lemma canon_good: "\<forall>c \<in> set (canon (components CHR ''/'' s) []). good_comp c"
  using canon_set[of "components CHR ''/'' s" "[]"] components_props[of _ "CHR ''/''" s] by (fastforce simp: good_comp_def)

lemma canon_id: "\<forall>c \<in> set ts. good_comp c \<Longrightarrow> canon ts acc = acc @ ts"
  by (induction ts acc rule: canon.induct) (auto simp: good_comp_def)

lemma components_join: "\<forall>c \<in> set cs. good_comp c \<Longrightarrow> components CHR ''/'' (join_path cs) = cs"
proof -
  have "split_on d (concat (map (\<lambda>c. d # c) cs)) = [] # cs" if "cs \<noteq> []" "\<forall>c \<in> set cs. d \<notin> set c" for d :: char and cs
    using that
  proof (induction cs)
    case (Cons c cs)
    show ?case
    proof (cases "cs = []")
      case False
      then obtain r where r: "concat (map (\<lambda>c. d # c) cs) = d # r" by (cases cs) auto
      then have "split_on d r = cs" using Cons False by simp
      then show ?thesis using Cons r split_on_append[of d c r] by simp
    qed (use Cons split_on_word[of d c] in simp)
  qed simp
  then show ?thesis if "\<forall>c \<in> set cs. good_comp c"
    using that by (cases "cs = []") (auto simp: components_def join_path_def good_comp_def filter_id_conv)
qed

text \<open>Canonical paths are fixed points: nothing is left to resolve in them.\<close>

lemma canon_path_idem: "canon_path (canon_path s) = canon_path s"
proof -
  have "components CHR ''/'' (canon_path s) = canon (components CHR ''/'' s) []"
    unfolding canon_path_def using components_join[OF canon_good] .
  then show ?thesis using canon_id[OF canon_good, of s "[]"] by (simp add: canon_path_def)
qed

subsection \<open>The length of a canonical path\<close>

definition path_size :: "string list \<Rightarrow> nat" where
  "path_size cs = sum_list (map (\<lambda>c. Suc (length c)) cs)"

lemma path_size_simps [simp]: "path_size [] = 0" "path_size (c # cs) = Suc (length c) + path_size cs"
  "path_size (cs @ ds) = path_size cs + path_size ds"
  by (simp_all add: path_size_def)

lemma path_size_split: "path_size (split_on d s) = Suc (length s)"
  by (induction s) (auto split: list.splits)

lemma path_size_filter: "path_size (filter P cs) \<le> path_size cs"
  by (induction cs) auto

lemma path_size_butlast: "path_size (butlast cs) \<le> path_size cs"
  by (induction cs) auto

lemma path_size_canon: "path_size (canon ts acc) \<le> path_size acc + path_size ts"
proof (induction ts acc rule: canon.induct)
  case (2 t ts acc)
  then show ?case using path_size_butlast[of acc] by (auto split: if_splits)
qed simp

lemma path_size_components: "s \<noteq> [] \<Longrightarrow> hd s = d \<Longrightarrow> path_size (components d s) \<le> length s"
  using path_size_filter[of "\<lambda>w. w \<noteq> []" "split_on d (tl s)"] path_size_split[of d "tl s"]
  by (cases s) (auto simp: components_def)

lemma canon_path_length: "s \<noteq> [] \<Longrightarrow> hd s = CHR ''/'' \<Longrightarrow> length (canon_path s) \<le> length s"
proof -
  assume s: "s \<noteq> []" "hd s = CHR ''/''"
  let ?cs = "canon (components CHR ''/'' s) []"
  have "length (concat (map (\<lambda>c. CHR ''/'' # c) cs)) = path_size cs" for cs by (induction cs) auto
  moreover have "path_size ?cs \<le> length s"
    using path_size_canon[of "components CHR ''/'' s" "[]"] path_size_components[OF s] by simp
  ultimately show ?thesis using s by (cases s) (auto simp: canon_path_def join_path_def)
qed

subsection \<open>The canonical path the code computes\<close>

lemma mkcanon_loop_canon:
  "kl_size k = length (kl_items k) \<Longrightarrow> length (kl_items k) + length ts < 2 ^ 64 \<Longrightarrow> \<forall>t \<in> set ts. t \<noteq> [] \<Longrightarrow>
    kl_items (mkcanon_loop ts k) = canon ts (kl_items k) \<and>
    kl_size (mkcanon_loop ts k) = length (kl_items (mkcanon_loop ts k))"
proof (induction ts k rule: mkcanon_loop.induct)
  case (2 t ts k)
  consider "t = ''.''" | "t = ''..''" | "t \<noteq> ''.''" "t \<noteq> ''..''" by blast
  then show ?case
  proof cases
    case 2
    let ?k = "if kl_size k \<noteq> 0 then snd (kl_pop_back k) else k"
    have "kl_items ?k = butlast (kl_items k)" "kl_size ?k = length (kl_items ?k)"
      using "2.prems" by (auto simp: kl_pop_back_def sub64_small Suc_le_eq)
    then show ?thesis using "2.prems" "2.IH"(2) 2 by simp
  next
    case 3
    have "kl_items (kl_enqueue k t) = kl_items k @ [t]" "kl_size (kl_enqueue k t) = length (kl_items (kl_enqueue k t))"
      using "2.prems" by (simp_all add: kl_enqueue_def)
    then show ?thesis using "2.prems" "2.IH"(3) 3 by simp
  qed (use "2.prems" "2.IH"(1) in simp)
qed simp

lemma mkcanon_out_ok:
  "NUL \<in> set out \<Longrightarrow> length (c_string out) + path_size cs < length out \<Longrightarrow> \<forall>c \<in> set cs. NUL \<notin> set c \<Longrightarrow>
    \<exists>r. mkcanon_out out cs = Inr r \<and> c_string r = c_string out @ concat (map (\<lambda>c. CHR ''/'' # c) cs)"
proof (induction cs arbitrary: out)
  case (Cons c cs)
  obtain o1 where o1: "strcat out slash = Inr o1" "c_string o1 = c_string out @ slash" "length o1 = length out" "NUL \<in> set o1"
    using strcat_ok[of out slash] Cons.prems by auto
  obtain o2 where o2: "strcat o1 c = Inr o2" "c_string o2 = c_string out @ slash @ c" "length o2 = length out" "NUL \<in> set o2"
    using strcat_ok[of o1 c] Cons.prems o1 by auto
  show ?case using Cons.IH[of o2] Cons.prems o1 o2 by simp
qed simp

text \<open>The string that \<open>vfs_mkcanon\<close> builds before it splits it.\<close>

definition full_path :: "string \<Rightarrow> string option \<Rightarrow> string" where
  "full_path path work =
     (case work of
        None \<Rightarrow> path
      | Some wd \<Rightarrow> if path \<noteq> [] \<and> hd path = CHR ''/'' then path else wd @ slash @ path)"

lemma mkcanon_tmp:
  assumes "NUL \<notin> set (full_path path work)" "length tmp = 256"
  shows "if length (full_path path work) < 256 then
      \<exists>t. (case work of None \<Rightarrow> strcpy tmp path
            | Some wd \<Rightarrow> if path \<noteq> [] \<and> hd path = CHR ''/'' then strcpy tmp path
                else bindS (strcpy tmp wd) (\<lambda>tmp. bindS (strcat tmp slash) (\<lambda>tmp. strcat tmp path))) = Inr t \<and>
          c_string t = full_path path work
    else (case work of None \<Rightarrow> strcpy tmp path
            | Some wd \<Rightarrow> if path \<noteq> [] \<and> hd path = CHR ''/'' then strcpy tmp path
                else bindS (strcpy tmp wd) (\<lambda>tmp. bindS (strcat tmp slash) (\<lambda>tmp. strcat tmp path))) = Inl Overrun"
proof -
  have cpy: "if length s < 256 then \<exists>t. strcpy tmp s = Inr t \<and> c_string t = s \<and> length t = 256 \<and> NUL \<in> set t
      else strcpy tmp s = Inl Overrun" if "NUL \<notin> set s" for s
    using that assms(2) strcpy_c_string[of s tmp] strcpy_at_overrun[of 0 tmp s] by (auto simp: strcpy_def)
  show ?thesis
  proof (cases "\<exists>wd. work = Some wd \<and> \<not> (path \<noteq> [] \<and> hd path = CHR ''/'')")
    case False
    then have "full_path path work = path" by (auto simp: full_path_def split: option.splits)
    then show ?thesis using False cpy[of path] assms(1) by (auto split: option.splits)
  next
    case True
    then obtain wd where w: "work = Some wd" and rel: "\<not> (path \<noteq> [] \<and> hd path = CHR ''/'')" by blast
    then have fp: "full_path path work = wd @ slash @ path" by (auto simp: full_path_def)
    then have nn: "NUL \<notin> set wd" "NUL \<notin> set path" using assms(1) by auto
    have sel: "(if path \<noteq> [] \<and> hd path = CHR ''/'' then strcpy tmp path else e) = e" for e using rel by auto
    show ?thesis
    proof (cases "length wd < 256")
      case False
      then have "strcpy tmp wd = Inl Overrun" using cpy[OF nn(1)] by simp
      then show ?thesis using False fp w by (simp only: option.case sel) simp
    next
      case True
      then obtain t where t: "strcpy tmp wd = Inr t" "c_string t = wd" "length t = 256" "NUL \<in> set t" using cpy[OF nn(1)] by auto
      show ?thesis
      proof (cases "length wd < 255")
        case False
        then have "strcat t slash = Inl Overrun" using strcat_overrun[of t slash] t by simp
        then show ?thesis using False fp w t(1) by (simp only: option.case sel) simp
      next
        case True
        then obtain u where u: "strcat t slash = Inr u" "c_string u = wd @ slash" "length u = 256" "NUL \<in> set u"
          using strcat_ok[of t slash] t by auto
        have "if length (full_path path work) < 256 then \<exists>x. strcat u path = Inr x \<and> c_string x = full_path path work
            else strcat u path = Inl Overrun"
          using strcat_ok[of u path] strcat_overrun[of u path] u nn(2) fp by auto
        then show ?thesis using w t(1) u(1) by (simp only: option.case sel bindS_simps)
      qed
    qed
  qed
qed

lemma vfs_mkcanon_spec:
  assumes "NUL \<notin> set (full_path path work)" "length tmp = 256" "length out = 256"
    "full_path path work \<noteq> []" "hd (full_path path work) = CHR ''/''"
  shows "if length (full_path path work) < 256
    then \<exists>r. vfs_mkcanon tmp out path work = Inr r \<and> c_string r = canon_path (full_path path work)
    else vfs_mkcanon tmp out path work = Inl Overrun"
proof (cases "length (full_path path work) < 256")
  case False
  then show ?thesis using mkcanon_tmp[OF assms(1,2)] by (simp add: vfs_mkcanon_def)
next
  case True
  let ?s = "full_path path work"
  let ?cs = "canon (components CHR ''/'' ?s) []"
  let ?k = "mkcanon_loop (tokens ?s slash) kl_create"
  have cs: "components CHR ''/'' ?s = tokens ?s slash" by (simp add: tokens_components)
  have psz: "path_size (components CHR ''/'' ?s) < 256" using path_size_components[OF assms(4,5)] True by simp
  have "length cs \<le> path_size cs" for cs by (induction cs) auto
  from this[of "components CHR ''/'' ?s"] have "length (components CHR ''/'' ?s) < 256" using psz by simp
  then have k: "kl_items ?k = ?cs" "kl_size ?k = length ?cs"
    using mkcanon_loop_canon[of "kl_create" "tokens ?s slash"] components_props[of _ "CHR ''/''" ?s]
    by (auto simp: kl_create_def tokens_components)
  have nn: "\<forall>c \<in> set ?cs. NUL \<notin> set c"
    using canon_set[of "components CHR ''/'' ?s" "[]"] components_props[of _ "CHR ''/''" ?s] assms(1) by fastforce
  obtain t where t: "(case work of None \<Rightarrow> strcpy tmp path
      | Some wd \<Rightarrow> if path \<noteq> [] \<and> hd path = CHR ''/'' then strcpy tmp path
          else bindS (strcpy tmp wd) (\<lambda>tmp. bindS (strcat tmp slash) (\<lambda>tmp. strcat tmp path))) = Inr t" "c_string t = ?s"
    using mkcanon_tmp[OF assms(1,2)] True by auto
  let ?o = "out[0 := NUL]"
  have oz: "array_set out 0 NUL = Inr ?o" "NUL \<in> set ?o" "c_string ?o = []" "length ?o = 256"
    using assms(3) by (cases out; simp add: array_set_def c_string_def)+
  have "\<exists>r. bindS (if kl_size ?k = 0 then strcpy ?o slash else Inr ?o) (\<lambda>out. mkcanon_out out (kl_items ?k)) = Inr r \<and>
      c_string r = canon_path ?s"
  proof (cases "?cs = []")
    case True
    then show ?thesis using strcpy_c_string[of slash ?o] oz k by (auto simp: canon_path_def join_path_def)
  next
    case False
    have "path_size ?cs < 256" using path_size_canon[of "components CHR ''/'' ?s" "[]"] psz by simp
    then show ?thesis using mkcanon_out_ok[of ?o ?cs] oz nn False k by (simp add: canon_path_def join_path_def)
  qed
  then show ?thesis using True oz(1) by (simp add: vfs_mkcanon_def t Let_def)
qed

subsection \<open>Symbolic links\<close>

text \<open>One round of \<open>do_vfs_resolve\<close>: where a path leads without following the link it may end in.\<close>

definition hop :: "'w vfs \<Rightarrow> string \<Rightarrow> bool \<Rightarrow> walk_result res" where
  "hop v path symlinks =
     (case vfs_getmnt v path of
        Inl e \<Rightarrow> Inr (Failed e)
      | Inr (relat, file) \<Rightarrow> resolve_walk v file (tokens relat slash) symlinks)"

lemma do_vfs_resolve_hop:
  "do_vfs_resolve v path symlinks depth =
     (if depth \<ge> 8 then Inr (Inl (- ELOOP))
      else case hop v path symlinks of
        Inl f \<Rightarrow> Inl f
      | Inr (Failed e) \<Rightarrow> Inr (Inl e)
      | Inr (Reached i) \<Rightarrow> Inr (Inr i)
      | Inr (Symlink link) \<Rightarrow> do_vfs_resolve v link True (Suc depth))"
  by (subst do_vfs_resolve.simps) (auto simp: hop_def split: sum.splits walk_result.splits)

lemma resolve_chain:
  assumes "\<And>k. k < n \<Longrightarrow> hop v (ls k) True = Inr (Symlink (ls (Suc k)))" "hop v (ls n) True = Inr (Reached i)" "j \<le> n"
  shows "do_vfs_resolve v (ls j) True j = (if n < 8 then Inr (Inr i) else Inr (Inl (- ELOOP)))"
  using assms(3)
proof (induction "n - j" arbitrary: j)
  case 0
  then show ?case using assms(2) by (simp add: do_vfs_resolve_hop[of v "ls j"])
next
  case (Suc m)
  then have j: "j < n" by simp
  then have "do_vfs_resolve v (ls (Suc j)) True (Suc j) = (if n < 8 then Inr (Inr i) else Inr (Inl (- ELOOP)))"
    using Suc by simp
  then show ?case using assms(1)[OF j] j by (simp add: do_vfs_resolve_hop[of v "ls j"])
qed

lemma resolve_walk_link:
  assumes "S_ISDIR (i_mode d)" "check_perm v d 4" "do_lookup v d t = Inr (Inr l)" "S_ISLNK (i_mode l)"
    "vfs_readlink v l 60 = (n, link)" "0 \<le> n" "n < 60"
  shows "resolve_walk v d (t # ts) True = Inr (Symlink (c_string (take (nat n) link)))"
  using assms by simp

subsection \<open>A small tree\<close>

text \<open>
  A file system with one directory, writable by nobody, for the witnesses: a regular file
  \<^verbatim>\<open>f\<close>, a symbolic link \<^verbatim>\<open>l\<close> to it and a link \<^verbatim>\<open>loop\<close> to itself. Its state counts the files
  removed.
\<close>

definition tree_root :: inode where
  "tree_root = zero_inode\<lparr>i_mode := S_IFDIR OR 0x16d, i_ops := 1\<rparr>"

definition tree_file :: inode where
  "tree_file = zero_inode\<lparr>i_mode := S_IFREG OR 0x124, i_inode := 2, i_fops := 1\<rparr>"

definition tree_link :: "nat \<Rightarrow> inode" where
  "tree_link n = zero_inode\<lparr>i_mode := S_IFLNK OR 0x1ff, i_inode := n, i_ops := 2\<rparr>"

definition no_inode_ops :: "'w inode_ops" where
  "no_inode_ops = \<lparr>io_lookup = None, io_mknod = None, io_mkdir = None, io_getdents = None, io_unlink = None,
     io_readlink = None, io_symlink = None, io_link = None, io_set_atime = None, io_set_mtime = None\<rparr>"

definition no_file_ops :: "'w file_ops" where
  "no_file_ops = \<lparr>fo_open = None, fo_release = None, fo_read = None, fo_write = None, fo_ioctl = None,
     fo_mmap = None, fo_chmod = None, fo_chown = None\<rparr>"

definition tree_lookup :: "nat \<Rightarrow> inode \<Rightarrow> string \<Rightarrow> int + inode" where
  "tree_lookup w dir name =
     (if name = ''f'' then Inr tree_file
      else if name = ''l'' then Inr (tree_link 3)
      else if name = ''loop'' then Inr (tree_link 4)
      else Inl (- ENOENT))"

definition tree_readlink :: "nat \<Rightarrow> inode \<Rightarrow> nat \<Rightarrow> int \<times> char list" where
  "tree_readlink w i n = (if i_inode i = 3 then (2, ''/f'') else (5, ''/loop''))"

definition tree_vfs :: "nat vfs" where
  "tree_vfs = \<lparr>v_mounts = \<lparr>kl_items = [\<lparr>m_path = slash, m_file = tree_root\<rparr>], kl_size = 1\<rparr>, v_types = [],
     v_ops = (\<lambda>n. if n = 1 then no_inode_ops\<lparr>io_lookup := Some tree_lookup,
                                     io_unlink := Some (\<lambda>w dir name. (0, Suc w))\<rparr>
                  else if n = 2 then no_inode_ops\<lparr>io_readlink := Some tree_readlink\<rparr> else no_inode_ops),
     v_fops = (\<lambda>n. if n = 1 then no_file_ops\<lparr>fo_write := Some (\<lambda>w f buf off sz. ret (int sz, w + sz))\<rparr>
                   else no_file_ops),
     v_curr = Some \<lparr>c_euid = 1000, c_egid = 1000, c_groups = []\<rparr>, v_world = 0\<rparr>"

lemma tree_getmnt: "vfs_getmnt tree_vfs (CHR ''/'' # p) = Inr (p, tree_root)"
  by (simp add: vfs_getmnt_def tree_vfs_def Let_def)

lemma tree_tokens [simp]: "tokens ''f'' slash = [''f'']" "tokens ''l'' slash = [''l'']"
    "tokens ''loop'' slash = [''loop'']" "tokens ''l/x'' slash = [''l'', ''x'']" "tokens ''none'' slash = [''none'']"
  by (simp_all add: tokens_components components_def)

lemma tree_root_ok [simp]: "S_ISDIR (i_mode tree_root)" "check_perm tree_vfs tree_root 4" "\<not> check_perm tree_vfs tree_root 2"
  by (simp_all add: S_ISDIR_def tree_root_def check_perm_def vfs_checkperm_def tree_vfs_def zero_inode_def)

lemma tree_modes [simp]: "\<not> S_ISLNK (i_mode tree_file)" "S_ISLNK (i_mode (tree_link n))" "\<not> S_ISDIR (i_mode tree_file)"
  by (simp_all add: S_ISLNK_def S_ISDIR_def tree_file_def tree_link_def zero_inode_def)

lemma tree_do_lookup [simp]: "do_lookup tree_vfs tree_root t = Inr (tree_lookup 0 tree_root t)"
  by (simp add: do_lookup_def tree_vfs_def tree_root_def)

lemma tree_vfs_readlink [simp]: "vfs_readlink tree_vfs (tree_link n) 60 = tree_readlink 0 (tree_link n) 60"
  by (simp add: vfs_readlink_def tree_vfs_def tree_link_def)

lemma tree_readlink_eq [simp]: "tree_readlink w (tree_link n) k = (if n = 3 then (2, ''/f'') else (5, ''/loop''))"
  by (simp add: tree_readlink_def tree_link_def)

lemma tree_hop:
  "hop tree_vfs ''/f'' b = Inr (Reached tree_file)" "hop tree_vfs ''/l'' True = Inr (Symlink ''/f'')"
  "hop tree_vfs ''/loop'' True = Inr (Symlink ''/loop'')" "hop tree_vfs ''/l/x'' True = Inr (Symlink ''/f'')"
  "hop tree_vfs ''/none'' b = Inr (Failed (- ENOENT))"
  by (simp_all add: hop_def tree_getmnt tree_lookup_def c_string_def)

subsection \<open>Properties\<close>

text \<open>
  C26: \<open>vfs_getmnt\<close> picks, among the mount points whose path is a prefix of the string, the
  longest, and returns the rest of the string as the path relative to it; it fails with
  \<open>-ENOENT\<close> exactly when there is none. The comparison is on characters, not on components:
  a path that only begins with the characters of a mount point is taken to lie below it.
\<close>

theorem vfs_getmnt_longest_prefix:
  "case vfs_getmnt v path of
     Inl e \<Rightarrow> e = - ENOENT \<and> (\<forall>m \<in> set (kl_items (v_mounts v)). m_path m = [] \<or> \<not> prefix (m_path m) path)
   | Inr (rel, i) \<Rightarrow> (\<exists>m \<in> set (kl_items (v_mounts v)). m_path m \<noteq> [] \<and> path = m_path m @ rel \<and> m_file m = i \<and>
       (\<forall>m' \<in> set (kl_items (v_mounts v)). prefix (m_path m') path \<longrightarrow> length (m_path m') \<le> length (m_path m)))"
  using vfs_getmnt_spec[of v path] by (auto simp: is_cand_def split: sum.splits)

theorem vfs_getmnt_longest_prefix_witness:
  "vfs_getmnt tree_vfs ''/device'' = Inr (''device'', tree_root) \<and> (\<exists>m \<in> set (kl_items (v_mounts tree_vfs)). m_path m \<noteq> [] \<and> ''/device'' = m_path m @ ''device'')"
  using vfs_getmnt_longest_prefix[of tree_vfs "''/device''"] by (simp add: tree_getmnt) blast

text \<open>
  C17: for a path that is absolute, or relative to an absolute working directory,
  \<open>vfs_mkcanon\<close> writes the components with every \<^verbatim>\<open>.\<close> dropped and every \<^verbatim>\<open>..\<close> applied,
  exactly when the whole string fits its 256 byte buffer; it writes past the buffer
  otherwise. A canonical path is a fixed point and has no empty, \<^verbatim>\<open>.\<close> or \<^verbatim>\<open>..\<close> component.
\<close>

theorem vfs_mkcanon_canonical:
  assumes "NUL \<notin> set (full_path path work)" and "length tmp = 256" and "length out = 256"
    and "full_path path work \<noteq> []" and "hd (full_path path work) = CHR ''/''"
  shows "(if length (full_path path work) < 256
      then \<exists>r. vfs_mkcanon tmp out path work = Inr r \<and> c_string r = canon_path (full_path path work)
      else vfs_mkcanon tmp out path work = Inl Overrun) \<and>
    canon_path (canon_path s) = canon_path s \<and> (\<forall>c \<in> set (components CHR ''/'' (canon_path s)). good_comp c)"
proof -
  have "components CHR ''/'' (canon_path s) = canon (components CHR ''/'' s) []"
    unfolding canon_path_def using components_join[OF canon_good] .
  then show ?thesis using vfs_mkcanon_spec[OF assms] canon_path_idem[of s] canon_good[of s] by simp
qed

theorem vfs_mkcanon_canonical_witness:
  "\<exists>r. vfs_mkcanon (replicate 256 NUL) (replicate 256 NUL) ''../b/./c'' (Some ''/x/a'') = Inr r \<and> c_string r = ''/x/b/c''"
  using vfs_mkcanon_canonical[of "''../b/./c''" "Some ''/x/a''" "replicate 256 NUL" "replicate 256 NUL"]
  by (simp add: full_path_def canon_path_def components_def join_path_def)

text \<open>
  C27: \<open>vfs_checkperm\<close> for one permission bit: the superuser and the kernel itself pass;
  everybody else is judged by exactly one class of bits, the owner's, the group's (also
  through a supplementary group) or the others'.
\<close>

theorem vfs_checkperm_class:
  assumes "b < 3"
  shows "vfs_checkperm None i (2 ^ b) = 0 \<and>
    (vfs_checkperm (Some c) i (2 ^ b) = 0 \<longleftrightarrow> c_euid c = 0 \<or> bit (i_mode i) (b + perm_class c i))"
  using checkperm_class[of c i "2 ^ b"] and_single_bit[of "i_mode i" "perm_class c i" b]
  by (cases "c_euid c = 0") (auto simp: vfs_checkperm_def)

theorem vfs_checkperm_class_witness:
  "vfs_checkperm (v_curr tree_vfs) tree_root (2 ^ 1) = -1 \<or> bit (i_mode tree_root) 1"
proof -
  let ?c = "\<lparr>c_euid = 1000, c_egid = 1000, c_groups = []\<rparr>"
  have "perm_class ?c tree_root = 0" "v_curr tree_vfs = Some ?c"
    by (simp_all add: perm_class_def tree_root_def zero_inode_def tree_vfs_def)
  then show ?thesis using vfs_checkperm_class[of 1 tree_root ?c] checkperm_class[of ?c tree_root "2 ^ 1"] by auto
qed

text \<open>
  C37: resolving follows a chain of fewer than eight symbolic links to the inode at its end,
  and returns \<open>-ELOOP\<close> on a longer one; it always returns.
\<close>

theorem vfs_resolve_link_depth:
  assumes "\<And>k. k < n \<Longrightarrow> hop v (ls k) True = Inr (Symlink (ls (Suc k)))" and "hop v (ls n) True = Inr (Reached i)"
  shows "vfs_resolve v (ls 0) True = (if n < 8 then Inr (Inr i) else Inr (Inl (- ELOOP)))"
  using resolve_chain[OF assms, of 0] by (simp add: vfs_resolve_def)

theorem vfs_resolve_link_depth_witness: "vfs_resolve tree_vfs ''/l'' True = Inr (Inr tree_file)"
  using vfs_resolve_link_depth[of 1 tree_vfs "\<lambda>k. if k = 0 then ''/l'' else ''/f''" tree_file] by (simp add: tree_hop)

text \<open>
  A symbolic link in the middle of a path swallows the rest of it: once a component is a
  link, the path resolves to what the link alone resolves to, whatever components follow.
\<close>

theorem vfs_resolve_link_drops_rest:
  assumes "vfs_getmnt v path = Inr (rel, d)" and "tokens rel slash = t # ts"
    and "S_ISDIR (i_mode d)" and "check_perm v d 4" and "do_lookup v d t = Inr (Inr l)" and "S_ISLNK (i_mode l)"
    and "vfs_readlink v l 60 = (n, link)" and "0 \<le> n" and "n < 60"
  shows "vfs_resolve v path True = do_vfs_resolve v (c_string (take (nat n) link)) True 1"
  using resolve_walk_link[OF assms(3-9)] assms(1,2)
  by (simp add: vfs_resolve_def do_vfs_resolve_hop[of v path] hop_def)

theorem vfs_resolve_link_drops_rest_witness:
  "vfs_resolve tree_vfs ''/l/x'' True = Inr (Inr tree_file)"
proof -
  have "vfs_resolve tree_vfs ''/l/x'' True = do_vfs_resolve tree_vfs (c_string (take (nat 2) ''/f'')) True 1"
    by (rule vfs_resolve_link_drops_rest[where rel = "''l/x''" and d = tree_root and t = "''l''" and ts = "[''x'']" and l = "tree_link 3"])
      (simp_all add: tree_getmnt tree_lookup_def)
  then show ?thesis by (simp add: c_string_def do_vfs_resolve_hop tree_hop)
qed

text \<open>
  \<open>vfs_unlink\<close> removes a name whether or not the caller may write to its directory: the
  permission bits of the directory that holds the name do not enter.
\<close>

theorem vfs_unlink_unchecked:
  assumes "get_parent_dir v path = Inr (Inr (dir, name))" and "vfs_resolve v path True = Inr (Inr f)"
    and "\<not> S_ISDIR (i_mode f)" and "io_unlink (v_ops v (i_ops dir)) = Some ul" and "\<not> check_perm v dir 2"
  shows "vfs_unlink v path = Inr (0, v\<lparr>v_world := snd (ul (v_world v) dir name)\<rparr>)"
  using assms by (simp add: vfs_unlink_def vfs_do_unlink_def)

theorem vfs_unlink_unchecked_witness:
  "\<not> check_perm tree_vfs tree_root 2 \<and> vfs_unlink tree_vfs ''/f'' = Inr (0, tree_vfs\<lparr>v_world := 1\<rparr>)"
proof -
  have p: "get_parent_dir tree_vfs ''/f'' = Inr (Inr (tree_root, ''f''))" by (simp add: get_parent_dir_def tree_getmnt)
  have r: "vfs_resolve tree_vfs ''/f'' True = Inr (Inr tree_file)"
    by (simp add: vfs_resolve_def do_vfs_resolve_hop tree_hop)
  have u: "io_unlink (v_ops tree_vfs (i_ops tree_root)) = Some (\<lambda>w dir name. (0, Suc w))" "v_world tree_vfs = 0"
    by (simp_all add: tree_vfs_def tree_root_def)
  show ?thesis using vfs_unlink_unchecked[OF p r _ u(1)] u(2) by simp
qed

end
