(* ===== verification/Ext2.thy ===== *)
theory Ext2
  imports Vfs
begin

text \<open>
  The ext2 driver, \<^verbatim>\<open>src/kernel/dev/ext2/ext2.c\<close> and \<^verbatim>\<open>ext2.h\<close>: the structures on the disk, inodes, block
  maps, the allocators of blocks and inodes, directories, file contents, links and mounting. The
  device is its bytes; buffers of the driver are values; an access outside a buffer is the fault
  \<open>Overrun\<close> and a division by zero is \<open>KernelPanic\<close>.
\<close>

unbundle bit_operations_syntax

subsection \<open>Structures on the disk\<close>

record ext2_sb =
  sb_blk_cnt :: nat
  sb_log_block_sz :: nat
  sb_blks_per_grp :: nat
  sb_inodes_per_grp :: nat
  sb_ext2_sig :: nat
  sb_inode_sz :: nat

definition sb_decode :: "u8 list \<Rightarrow> ext2_sb" where
  "sb_decode bs = \<lparr>sb_blk_cnt = le_at bs 4 4, sb_log_block_sz = le_at bs 24 4, sb_blks_per_grp = le_at bs 32 4,
     sb_inodes_per_grp = le_at bs 40 4, sb_ext2_sig = le_at bs 56 2, sb_inode_sz = le_at bs 88 2\<rparr>"

record ext2_bgd =
  bg_block_bmp :: nat
  bg_inode_bmp :: nat
  bg_inode_tbl :: nat
  bg_free_blocks :: nat
  bg_free_inodes :: nat
  bg_dir_cnt :: nat
  bg_padding :: nat
  bg_res :: "u8 list"

abbreviation (input) sizeof_bgd :: nat where "sizeof_bgd \<equiv> 32"

definition bgd_decode :: "u8 list \<Rightarrow> ext2_bgd" where
  "bgd_decode bs = \<lparr>bg_block_bmp = le_at bs 0 4, bg_inode_bmp = le_at bs 4 4, bg_inode_tbl = le_at bs 8 4,
     bg_free_blocks = le_at bs 12 2, bg_free_inodes = le_at bs 14 2, bg_dir_cnt = le_at bs 16 2, bg_padding = le_at bs 18 2,
     bg_res = take 12 (drop 20 bs)\<rparr>"

definition bgd_encode :: "ext2_bgd \<Rightarrow> u8 list" where
  "bgd_encode g = le_bytes 4 (bg_block_bmp g) @ le_bytes 4 (bg_inode_bmp g) @ le_bytes 4 (bg_inode_tbl g) @
     le_bytes 2 (bg_free_blocks g) @ le_bytes 2 (bg_free_inodes g) @ le_bytes 2 (bg_dir_cnt g) @ le_bytes 2 (bg_padding g) @ bg_res g"

record ext2_inode =
  e_mode :: nat
  e_uid :: nat
  e_size :: nat
  e_atime :: nat
  e_ctime :: nat
  e_mtime :: nat
  e_dtime :: nat
  e_gid :: nat
  e_nlink :: nat
  e_sectors :: nat
  e_flags :: nat
  e_os_spec1 :: nat
  e_blocks :: "nat list"
  e_gen_num :: nat
  e_file_acl :: nat
  e_size_u :: nat
  e_frag_addr :: nat
  e_os_spec2 :: "u8 list"

abbreviation (input) sizeof_ext2_inode :: nat where "sizeof_ext2_inode \<equiv> 128"

definition ino_decode :: "u8 list \<Rightarrow> ext2_inode" where
  "ino_decode bs = \<lparr>e_mode = le_at bs 0 2, e_uid = le_at bs 2 2, e_size = le_at bs 4 4, e_atime = le_at bs 8 4, e_ctime = le_at bs 12 4,
     e_mtime = le_at bs 16 4, e_dtime = le_at bs 20 4, e_gid = le_at bs 24 2, e_nlink = le_at bs 26 2, e_sectors = le_at bs 28 4,
     e_flags = le_at bs 32 4, e_os_spec1 = le_at bs 36 4, e_blocks = map (\<lambda>i. le_at bs (40 + 4 * i) 4) [0..<15],
     e_gen_num = le_at bs 100 4, e_file_acl = le_at bs 104 4, e_size_u = le_at bs 108 4, e_frag_addr = le_at bs 112 4,
     e_os_spec2 = take 12 (drop 116 bs)\<rparr>"

definition ino_encode :: "ext2_inode \<Rightarrow> u8 list" where
  "ino_encode e = le_bytes 2 (e_mode e) @ le_bytes 2 (e_uid e) @ le_bytes 4 (e_size e) @ le_bytes 4 (e_atime e) @ le_bytes 4 (e_ctime e) @
     le_bytes 4 (e_mtime e) @ le_bytes 4 (e_dtime e) @ le_bytes 2 (e_gid e) @ le_bytes 2 (e_nlink e) @ le_bytes 4 (e_sectors e) @
     le_bytes 4 (e_flags e) @ le_bytes 4 (e_os_spec1 e) @ concat (map (le_bytes 4) (e_blocks e)) @
     le_bytes 4 (e_gen_num e) @ le_bytes 4 (e_file_acl e) @ le_bytes 4 (e_size_u e) @ le_bytes 4 (e_frag_addr e) @ e_os_spec2 e"

definition INOSIZE :: "ext2_inode \<Rightarrow> nat" where
  "INOSIZE e = e_size_u e * 2 ^ 32 + e_size e"

subsection \<open>Blocks\<close>

text \<open>
  The device under a volume is its bytes: the driver ignores the results of its reads and writes,
  and on a working device each of them moves all bytes.
\<close>

type_synonym disk = "nat \<Rightarrow> u8"

record ext2_volume =
  vl_addr :: nat
  vl_blksize :: nat
  vl_groups :: "ext2_bgd list"
  vl_sb :: ext2_sb

definition read_blocks :: "disk \<Rightarrow> ext2_volume \<Rightarrow> nat \<Rightarrow> nat \<Rightarrow> u8 list" where
  "read_blocks d v blk cnt = map d [blk * vl_blksize v..<blk * vl_blksize v + vl_blksize v * cnt]"

definition write_blocks :: "disk \<Rightarrow> ext2_volume \<Rightarrow> u8 list \<Rightarrow> nat \<Rightarrow> nat \<Rightarrow> disk" where
  "write_blocks d v buf blk cnt =
     (\<lambda>i. if blk * vl_blksize v \<le> i \<and> i < blk * vl_blksize v + vl_blksize v * cnt then buf ! (i - blk * vl_blksize v) else d i)"

abbreviation (input) SUPER_BLK :: nat where "SUPER_BLK \<equiv> 1"
abbreviation (input) BGDS_BLK :: nat where "BGDS_BLK \<equiv> 2"

definition ext2_rewrite_bgds :: "disk \<Rightarrow> ext2_volume \<Rightarrow> disk res" where
  "ext2_rewrite_bgds d v =
     (let buf = read_blocks d v BGDS_BLK 1; gs = concat (map bgd_encode (vl_groups v)) in
      if length gs > vl_blksize v then Inl Overrun
      else Inr (write_blocks d v (overlay buf 0 gs) BGDS_BLK 1))"

text \<open>
  Where an inode lies: its block, and its offset there. \<open>num - 1\<close> is computed in 32 bits; a
  division by zero ends in a panic.
\<close>

definition inode_pos :: "ext2_volume \<Rightarrow> nat \<Rightarrow> (nat \<times> nat) res" where
  "inode_pos v num =
     (let ipg = sb_inodes_per_grp (vl_sb v); bs = vl_blksize v; n = (num + 2 ^ 32 - 1) mod 2 ^ 32 in
      if ipg = 0 \<or> bs = 0 then Inl KernelPanic
      else if n div ipg \<ge> length (vl_groups v) then Inl Overrun
      else
        let grpoff = n mod ipg; tbl = bg_inode_tbl (vl_groups v ! (n div ipg)); isz = sb_inode_sz (vl_sb v) in
        Inr (add64 (mul64 tbl bs) (mul64 grpoff isz) div bs, mul64 grpoff isz mod bs))"

definition ext2_read_inode :: "disk \<Rightarrow> ext2_volume \<Rightarrow> nat \<Rightarrow> ext2_inode res" where
  "ext2_read_inode d v num =
     bindS (inode_pos v num) (\<lambda>(blk, p).
       if p + sizeof_ext2_inode > vl_blksize v then Inl Overrun
       else Inr (ino_decode (take sizeof_ext2_inode (drop p (read_blocks d v blk 1)))))"

definition ext2_write_inode :: "disk \<Rightarrow> ext2_volume \<Rightarrow> nat \<Rightarrow> ext2_inode \<Rightarrow> disk res" where
  "ext2_write_inode d v num e =
     bindS (inode_pos v num) (\<lambda>(blk, p).
       if p + sizeof_ext2_inode > vl_blksize v then Inl Overrun
       else Inr (write_blocks d v (overlay (read_blocks d v blk 1) p (ino_encode e)) blk 1))"

text \<open>The operation tables of the driver have a number in the switch; the address of the volume is the private data.\<close>

abbreviation (input) ext2_iops :: nat where "ext2_iops \<equiv> 3"
abbreviation (input) ext2_fops :: nat where "ext2_fops \<equiv> 3"

definition inode2file :: "ext2_volume \<Rightarrow> nat \<Rightarrow> ext2_inode \<Rightarrow> inode \<Rightarrow> inode" where
  "inode2file v num e f = f\<lparr>i_ops := ext2_iops, i_fops := ext2_fops, i_inode := num, i_size := INOSIZE e, i_priv := vl_addr v,
     i_nlink := e_nlink e,
     i_atime := int (e_atime e), i_ctime := int (e_ctime e), i_mtime := int (e_mtime e), i_mode := e_mode e, i_uid := e_uid e, i_gid := e_gid e,
     i_blksize := int (vl_blksize v), i_blocks := int (mul64 (e_sectors e) (vl_blksize v div 512))\<rparr>"

subsection \<open>Block maps of files\<close>

abbreviation (input) INO_SIND :: nat where "INO_SIND \<equiv> 12"
abbreviation (input) INO_DIND :: nat where "INO_DIND \<equiv> 13"
abbreviation (input) INO_TIND :: nat where "INO_TIND \<equiv> 14"

text \<open>An entry of a block of 32-bit pointers.\<close>

definition ptr_at :: "u8 list \<Rightarrow> nat \<Rightarrow> nat res" where
  "ptr_at buf k = (if 4 * k + 4 \<le> length buf then Inr (le_at buf (4 * k) 4) else Inl Overrun)"

definition dind_of :: "ext2_volume \<Rightarrow> nat" where
  "dind_of v = add32 INO_SIND (vl_blksize v div 4)"

definition tind_of :: "ext2_volume \<Rightarrow> nat" where
  "tind_of v = add32 (dind_of v) ((vl_blksize v div 4) * (vl_blksize v div 4))"

definition ext2_inode_blk :: "disk \<Rightarrow> ext2_volume \<Rightarrow> ext2_inode \<Rightarrow> nat \<Rightarrow> nat res" where
  "ext2_inode_blk d v e i =
     (let bpp = vl_blksize v div 4 in
      if i < INO_SIND then Inr (e_blocks e ! i)
      else if i < dind_of v then ptr_at (read_blocks d v (e_blocks e ! INO_SIND) 1) (i - INO_SIND)
      else if bpp = 0 then Inl KernelPanic
      else if i < tind_of v then
        bindS (ptr_at (read_blocks d v (e_blocks e ! INO_DIND) 1) ((i - dind_of v) div bpp)) (\<lambda>p.
          ptr_at (read_blocks d v p 1) ((i - dind_of v) mod bpp))
      else
        bindS (ptr_at (read_blocks d v (e_blocks e ! INO_TIND) 1) ((i - dind_of v) div bpp)) (\<lambda>p.
        bindS (ptr_at (read_blocks d v p 1) ((i - tind_of v) div bpp)) (\<lambda>q.
          ptr_at (read_blocks d v q 1) ((i - tind_of v) mod bpp))))"

definition ext2_set_inode_blk :: "disk \<Rightarrow> ext2_volume \<Rightarrow> ext2_inode \<Rightarrow> nat \<Rightarrow> nat \<Rightarrow> (disk \<times> ext2_inode) res" where
  "ext2_set_inode_blk d v e i blk =
     (if i < INO_SIND then
        Inr (d, e\<lparr>e_blocks := (e_blocks e)[i := blk], e_sectors := add32 (e_sectors e) (vl_blksize v div 512)\<rparr>)
      else if i < dind_of v then
        let b = e_blocks e ! INO_SIND; buf = read_blocks d v b 1 in
        if 4 * (i - INO_SIND) + 4 \<le> length buf then
          Inr (write_blocks d v (overlay buf (4 * (i - INO_SIND)) (le_bytes 4 blk)) b 1, e)
        else Inl Overrun
      else Inr (d, e))"

definition ext2_dirent_type :: "nat \<Rightarrow> nat" where
  "ext2_dirent_type m =
     (let t = m AND S_IFMT in
      if t = S_IFREG then 1 else if t = S_IFDIR then 2 else if t = S_IFCHR then 3 else if t = S_IFBLK then 4
      else if t = S_IFIFO then 5 else if t = 0xc000 then 6 else if t = S_IFLNK then 7 else 0)"

text \<open>The first clear bit of a bitmap, and the bitmap with that bit set.\<close>

definition clear_bit :: "u8 list \<Rightarrow> nat option" where
  "clear_bit buf = find (\<lambda>j. \<not> bit (buf ! (j div 8)) (j mod 8)) [0..<length buf * 8]"

definition mark_bit :: "u8 list \<Rightarrow> nat \<Rightarrow> u8 list" where
  "mark_bit buf j = buf[j div 8 := buf ! (j div 8) OR push_bit (j mod 8) 1]"

fun alloc_blk_loop :: "disk \<Rightarrow> ext2_volume \<Rightarrow> nat list \<Rightarrow> (nat \<times> disk \<times> ext2_volume) res" where
  "alloc_blk_loop d v [] = Inr (0, d, v)"
| "alloc_blk_loop d v (i # is) =
     (let g = vl_groups v ! i; buf = read_blocks d v (bg_block_bmp g) 1 in
      if bg_free_blocks g = 0 then alloc_blk_loop d v is
      else case clear_bit buf of
        None \<Rightarrow> alloc_blk_loop d v is
      | Some j \<Rightarrow>
          let d = write_blocks d v (mark_bit buf j) (bg_block_bmp g) 1;
              v = v\<lparr>vl_groups := (vl_groups v)[i := g\<lparr>bg_free_blocks := bg_free_blocks g - 1\<rparr>]\<rparr> in
          bindS (ext2_rewrite_bgds d v) (\<lambda>d. Inr ((i * sb_blks_per_grp (vl_sb v) + j + 1) mod 2 ^ 32, d, v)))"

definition ext2_alloc_blk :: "disk \<Rightarrow> ext2_volume \<Rightarrow> (nat \<times> disk \<times> ext2_volume) res" where
  "ext2_alloc_blk d v = alloc_blk_loop d v [0..<length (vl_groups v)]"

fun alloc_ino_loop :: "disk \<Rightarrow> ext2_volume \<Rightarrow> nat list \<Rightarrow> (nat \<times> disk \<times> ext2_volume) res" where
  "alloc_ino_loop d v [] = Inr (0, d, v)"
| "alloc_ino_loop d v (i # is) =
     (let g = vl_groups v ! i; buf = read_blocks d v (bg_inode_bmp g) 1 in
      if bg_free_inodes g = 0 then alloc_ino_loop d v is
      else case clear_bit buf of
        None \<Rightarrow> alloc_ino_loop d v is
      | Some j \<Rightarrow>
          let d = write_blocks d v (mark_bit buf j) (bg_inode_bmp g) 1;
              v = v\<lparr>vl_groups := (vl_groups v)[i := g\<lparr>bg_free_inodes := bg_free_inodes g - 1\<rparr>]\<rparr> in
          bindS (ext2_rewrite_bgds d v) (\<lambda>d. Inr ((i * sb_inodes_per_grp (vl_sb v) + j + 1) mod 2 ^ 32, d, v)))"

definition ext2_alloc_inode :: "disk \<Rightarrow> ext2_volume \<Rightarrow> (nat \<times> disk \<times> ext2_volume) res" where
  "ext2_alloc_inode d v = alloc_ino_loop d v [0..<length (vl_groups v)]"

definition todenttype :: "nat \<Rightarrow> nat" where
  "todenttype t = (if t = 1 then 8 else if t = 2 then 4 else if t = 3 then 2 else if t = 4 then 6 else if t = 5 then 1
     else if t = 6 then 12 else if t = 7 then 10 else 0)"

subsection \<open>Directories\<close>

record ext2_dirent =
  ed_inode :: nat
  ed_size :: nat
  ed_name_len :: nat
  ed_type :: nat

definition dirent_at :: "u8 list \<Rightarrow> nat \<Rightarrow> ext2_dirent res" where
  "dirent_at buf p =
     (if p + 8 \<le> length buf then Inr \<lparr>ed_inode = le_at buf p 4, ed_size = le_at buf (p + 4) 2, ed_name_len = le_at buf (p + 6) 1, ed_type = le_at buf (p + 7) 1\<rparr>
      else Inl Overrun)"

definition dirent_bytes :: "ext2_dirent \<Rightarrow> u8 list" where
  "dirent_bytes e = le_bytes 4 (ed_inode e) @ le_bytes 2 (ed_size e) @ le_bytes 1 (ed_name_len e) @ le_bytes 1 (ed_type e)"

abbreviation (input) sizeof_ext2_dirent :: nat where "sizeof_ext2_dirent \<equiv> 8"

text \<open>The characters of a name in a buffer, and the bytes of a name.\<close>

definition chars :: "u8 list \<Rightarrow> char list" where
  "chars bs = map (\<lambda>b. char_of (unat b)) bs"

definition name_bytes :: "string \<Rightarrow> u8 list" where
  "name_bytes s = map (\<lambda>c. word_of_nat (of_char c)) s"

text \<open>The test on an entry: the length first, and then the bytes.\<close>

definition name_match :: "string \<Rightarrow> u8 list \<Rightarrow> nat \<Rightarrow> ext2_dirent \<Rightarrow> bool res" where
  "name_match name buf p e =
     (if length name = ed_name_len e then bindS (strncmp name (chars (drop (p + 8) buf)) (ed_name_len e)) (\<lambda>r. Inr (r = 0))
      else Inr False)"

text \<open>\<open>sectors * 512\<close> is computed in 32 bits.\<close>

definition dir_end :: "ext2_inode \<Rightarrow> nat" where
  "dir_end e = (e_sectors e * 512) mod 2 ^ 32"

definition file_blk :: "disk \<Rightarrow> ext2_volume \<Rightarrow> ext2_inode \<Rightarrow> nat \<Rightarrow> u8 list res" where
  "file_blk d v e blk = bindS (ext2_inode_blk d v e (blk mod 2 ^ 32)) (\<lambda>b. Inr (read_blocks d v b 1))"

definition dir_advance :: "disk \<Rightarrow> ext2_volume \<Rightarrow> ext2_inode \<Rightarrow> u8 list \<Rightarrow> nat \<Rightarrow> nat \<Rightarrow> (u8 list \<times> nat \<times> nat) res" where
  "dir_advance d v e buf offset blk =
     (if offset \<ge> vl_blksize v then bindS (file_blk d v e (blk + 1)) (\<lambda>buf. Inr (buf, 0, blk + 1))
      else Inr (buf, offset, blk))"

text \<open>
  The loops over a directory end when every entry has a size; an entry of size 0 is read forever, which
  is the value \<open>None\<close>.
\<close>

partial_function (option) getdents_loop ::
    "disk \<Rightarrow> ext2_volume \<Rightarrow> ext2_inode \<Rightarrow> nat \<Rightarrow> u8 list \<Rightarrow> nat \<Rightarrow> nat \<Rightarrow> int \<Rightarrow> (nat \<times> dirent) list \<Rightarrow> (nat \<times> dirent) list run" where
  "getdents_loop d v e n buf offset blk off out =
     (if offset + blk * vl_blksize v < dir_end e then
        case dirent_at buf offset of Inl f \<Rightarrow> Some (Inl f) | Inr de \<Rightarrow>
          if ed_inode de = 0 then getdents_loop d v e n buf (offset + ed_size de) blk off out
          else if off \<noteq> 0 then getdents_loop d v e n buf (offset + ed_size de) blk (off - 1) out
          else if length out * 280 + 280 \<ge> n then Some (Inr out)
          else if offset + 8 + ed_name_len de > length buf then Some (Inl Overrun)
          else
            let out = out @ [(ed_inode de, \<lparr>d_type = todenttype (ed_type de), d_off = 280 * (length out + 1), d_name = chars (take (ed_name_len de) (drop (offset + 8) buf))\<rparr>)] in
            case dir_advance d v e buf (offset + ed_size de) blk of Inl f \<Rightarrow> Some (Inl f) | Inr (buf, offset, blk) \<Rightarrow>
              getdents_loop d v e n buf offset blk (off - 1) out
      else Some (Inr out))"

definition ext2_getdents :: "disk \<Rightarrow> ext2_volume \<Rightarrow> inode \<Rightarrow> int \<Rightarrow> nat \<Rightarrow> (int \<times> (nat \<times> dirent) list) run" where
  "ext2_getdents d v dir off n =
     (case bindS (ext2_read_inode d v (i_inode dir)) (\<lambda>e. bindS (file_blk d v e 0) (\<lambda>buf. Inr (e, buf))) of
        Inl f \<Rightarrow> Some (Inl f)
      | Inr (e, buf) \<Rightarrow> bindR (getdents_loop d v e n buf 0 0 off []) (\<lambda>out. ret (int (length out * 280), out)))"

partial_function (option) lookup_loop ::
    "disk \<Rightarrow> ext2_volume \<Rightarrow> ext2_inode \<Rightarrow> string \<Rightarrow> u8 list \<Rightarrow> nat \<Rightarrow> nat \<Rightarrow> nat option run" where
  "lookup_loop d v e name buf offset blk =
     (if offset + blk * vl_blksize v < dir_end e then
        case dirent_at buf offset of Inl f \<Rightarrow> Some (Inl f) | Inr de \<Rightarrow>
        case name_match name buf offset de of Inl f \<Rightarrow> Some (Inl f) | Inr m \<Rightarrow>
          if m then Some (Inr (Some (ed_inode de)))
          else case dir_advance d v e buf (offset + ed_size de) blk of Inl f \<Rightarrow> Some (Inl f) | Inr (buf, offset, blk) \<Rightarrow>
            lookup_loop d v e name buf offset blk
      else Some (Inr None))"

definition ext2_lookup :: "disk \<Rightarrow> ext2_volume \<Rightarrow> inode \<Rightarrow> string \<Rightarrow> (int + inode) run" where
  "ext2_lookup d v dir name =
     (case bindS (ext2_read_inode d v (i_inode dir)) (\<lambda>e. bindS (file_blk d v e 0) (\<lambda>buf. Inr (e, buf))) of
        Inl f \<Rightarrow> Some (Inl f)
      | Inr (e, buf) \<Rightarrow> bindR (lookup_loop d v e name buf 0 0) (\<lambda>r.
          case r of
            None \<Rightarrow> ret (Inl (- ENOENT))
          | Some num \<Rightarrow> if length name \<ge> 256 then Some (Inl Overrun)
              else Some (bindS (ext2_read_inode d v num) (\<lambda>cino. Inr (Inr (inode2file v num cino zero_inode))))))"

definition ext2_set_atime :: "disk \<Rightarrow> ext2_volume \<Rightarrow> inode \<Rightarrow> int \<Rightarrow> (inode \<times> disk) res" where
  "ext2_set_atime d v i t =
     bindS (ext2_read_inode d v (i_inode i)) (\<lambda>e.
     bindS (ext2_write_inode d v (i_inode i) (e\<lparr>e_atime := nat (t mod 2 ^ 32)\<rparr>)) (\<lambda>d. Inr (i\<lparr>i_atime := t\<rparr>, d)))"

definition ext2_set_mtime :: "disk \<Rightarrow> ext2_volume \<Rightarrow> inode \<Rightarrow> int \<Rightarrow> (inode \<times> disk) res" where
  "ext2_set_mtime d v i t =
     bindS (ext2_read_inode d v (i_inode i)) (\<lambda>e.
     bindS (ext2_write_inode d v (i_inode i) (e\<lparr>e_mtime := nat (t mod 2 ^ 32)\<rparr>)) (\<lambda>d. Inr (i\<lparr>i_atime := t\<rparr>, d)))"

definition zero_ext2_inode :: ext2_inode where
  "zero_ext2_inode = \<lparr>e_mode = 0, e_uid = 0, e_size = 0, e_atime = 0, e_ctime = 0, e_mtime = 0, e_dtime = 0, e_gid = 0, e_nlink = 0,
     e_sectors = 0, e_flags = 0, e_os_spec1 = 0, e_blocks = replicate 15 0, e_gen_num = 0, e_file_acl = 0, e_size_u = 0, e_frag_addr = 0,
     e_os_spec2 = replicate 12 0\<rparr>"

text \<open>\<open>now\<close> is the result of \<open>time_getepoch\<close>.\<close>

definition ext2_init_inode :: "nat \<Rightarrow> inode \<Rightarrow> ext2_inode" where
  "ext2_init_inode now f =
     zero_ext2_inode\<lparr>e_mode := i_mode f mod 2 ^ 16, e_uid := i_uid f mod 2 ^ 16, e_gid := i_gid f mod 2 ^ 16, e_size := i_size f mod 2 ^ 32,
       e_sectors := 0, e_nlink := 1, e_ctime := now mod 2 ^ 32, e_atime := now mod 2 ^ 32, e_mtime := now mod 2 ^ 32\<rparr>"

text \<open>
  The place for an entry of \<open>sz\<close> bytes: \<open>Some (blk, offset, expect, size)\<close> is the entry behind which it
  fits, with the block read last; \<open>None\<close> with the block number at which the loop ended.
\<close>

definition dirent_expect :: "ext2_dirent \<Rightarrow> nat" where
  "dirent_expect e = ((sizeof_ext2_dirent + ed_name_len e) AND 0xfffffffc) + 4"

definition append_here :: "u8 list \<Rightarrow> nat \<Rightarrow> ext2_dirent \<Rightarrow> ext2_dirent \<Rightarrow> string \<Rightarrow> u8 list res" where
  "append_here buf offset entry de name =
     (let expect = dirent_expect entry;
          new = take (ed_size de) (dirent_bytes (de\<lparr>ed_size := ed_size entry - expect\<rparr>) @ name_bytes name) in
      if offset + expect + ed_size de > length buf then Inl Overrun
      else Inr (overlay (overlay buf (offset + expect) new) (offset + 4) (le_bytes 2 expect)))"

partial_function (option) append_loop ::
    "disk \<Rightarrow> ext2_volume \<Rightarrow> ext2_inode \<Rightarrow> ext2_dirent \<Rightarrow> string \<Rightarrow> u8 list \<Rightarrow> nat \<Rightarrow> nat \<Rightarrow> (disk option \<times> nat) run" where
  "append_loop d v e de name buf offset blk =
     (if offset + blk * vl_blksize v < dir_end e then
        case dirent_at buf offset of Inl f \<Rightarrow> Some (Inl f) | Inr entry \<Rightarrow>
          if dirent_expect entry < ed_size entry \<and> ed_size entry - dirent_expect entry \<ge> ed_size de then
            Some (bindS (append_here buf offset entry de name) (\<lambda>buf.
              bindS (ext2_inode_blk d v e (blk mod 2 ^ 32)) (\<lambda>b. Inr (Some (write_blocks d v buf b 1), blk))))
          else case dir_advance d v e buf (offset + ed_size entry) blk of Inl f \<Rightarrow> Some (Inl f) | Inr (buf, offset, blk) \<Rightarrow>
            append_loop d v e de name buf offset blk
      else Some (Inr (None, blk)))"

definition append_block :: "disk \<Rightarrow> ext2_volume \<Rightarrow> nat \<Rightarrow> ext2_inode \<Rightarrow> ext2_dirent \<Rightarrow> string \<Rightarrow> nat \<Rightarrow> (disk \<times> ext2_volume) res" where
  "append_block d v dnum e de name blk =
     (if vl_blksize v div 512 = 0 then Inl KernelPanic
      else
        bindS (ext2_alloc_blk d v) (\<lambda>(nb, d, v).
        bindS (ext2_set_inode_blk d v e (e_sectors e div (vl_blksize v div 512)) nb) (\<lambda>(d, e).
          let new = take (ed_size de) (dirent_bytes de @ name_bytes name) in
          if ed_size de > vl_blksize v then Inl Overrun
          else
            let buf = overlay (overlay (replicate (vl_blksize v) 0) 0 new) 4 (le_bytes 2 (vl_blksize v)) in
            bindS (ext2_inode_blk d v e (blk mod 2 ^ 32)) (\<lambda>b.
            bindS (ext2_write_inode (write_blocks d v buf b 1) v dnum e) (\<lambda>d. Inr (d, v))))))"

text \<open>An entry is passed with its name; its \<open>size\<close> is 8 bytes and the name.\<close>

definition ext2_append_dirent :: "disk \<Rightarrow> ext2_volume \<Rightarrow> inode \<Rightarrow> ext2_dirent \<Rightarrow> string \<Rightarrow> (disk \<times> ext2_volume) run" where
  "ext2_append_dirent d v dir de name =
     (case bindS (ext2_read_inode d v (i_inode dir)) (\<lambda>e. bindS (file_blk d v e 0) (\<lambda>buf. Inr (e, buf))) of
        Inl f \<Rightarrow> Some (Inl f)
      | Inr (e, buf) \<Rightarrow> bindR (append_loop d v e de name buf 0 0) (\<lambda>(r, blk).
          case r of Some d' \<Rightarrow> ret (d', v) | None \<Rightarrow> Some (append_block d v (i_inode dir) e de name blk)))"

definition mk_dirent :: "nat \<Rightarrow> nat \<Rightarrow> string \<Rightarrow> ext2_dirent" where
  "mk_dirent num mode name =
     \<lparr>ed_inode = num, ed_size = (sizeof_ext2_dirent + length name) mod 2 ^ 16, ed_name_len = length name mod 2 ^ 8, ed_type = ext2_dirent_type mode\<rparr>"

definition ext2_mkentry :: "nat \<Rightarrow> disk \<Rightarrow> ext2_volume \<Rightarrow> inode \<Rightarrow> inode \<Rightarrow> string \<Rightarrow> (inode \<times> disk \<times> ext2_volume) run" where
  "ext2_mkentry now d v dir f name =
     (case bindS (ext2_alloc_inode d v) (\<lambda>(num, d, v).
           let f = f\<lparr>i_inode := num\<rparr> in
           bindS (ext2_read_inode d v num) (\<lambda>_.
           bindS (ext2_write_inode d v num (ext2_init_inode now f)) (\<lambda>d. Inr (f, d, v)))) of
        Inl x \<Rightarrow> Some (Inl x)
      | Inr (f, d, v) \<Rightarrow>
          bindR (ext2_append_dirent d v dir (mk_dirent (i_inode f) (i_mode f) name) name) (\<lambda>(d, v). ret (f, d, v)))"

text \<open>
  \<open>heap\<close> stands for the bytes behind the heap block of the entry \<open>..\<close>, which the copy of \<open>parent->size\<close>
  bytes reads.
\<close>

definition ext2_mkdir :: "nat \<Rightarrow> u8 list \<Rightarrow> disk \<Rightarrow> ext2_volume \<Rightarrow> inode \<Rightarrow> string \<Rightarrow> nat \<Rightarrow> nat \<Rightarrow> nat \<Rightarrow> (int \<times> disk \<times> ext2_volume) run" where
  "ext2_mkdir now heap d v dir name mode uid gid =
     (let f = zero_inode\<lparr>i_uid := uid, i_gid := gid, i_mode := (mode AND 0xfff) OR S_IFDIR, i_size := 1024\<rparr> in
      bindR (ext2_mkentry now d v dir f name) (\<lambda>(f, d, v). Some (
        bindS (ext2_read_inode d v (i_inode f)) (\<lambda>e.
        bindS (ext2_inode_blk d v e 0) (\<lambda>b.
          let buf = read_blocks d v b 1;
              psize = (vl_blksize v + 2 ^ 16 - 9) mod 2 ^ 16;
              dot = dirent_bytes \<lparr>ed_inode = i_inode f, ed_size = 9, ed_name_len = 1, ed_type = 2\<rparr> @ name_bytes ''.'';
              parent = dirent_bytes \<lparr>ed_inode = i_inode dir, ed_size = psize, ed_name_len = 2, ed_type = 2\<rparr> @ name_bytes ''..'' in
          if 9 + psize > vl_blksize v \<or> psize > length (parent @ heap) then Inl Overrun
          else Inr (0, write_blocks d v (overlay (overlay buf 0 dot) 9 (take psize (parent @ heap))) b 1, v))))))"

definition ext2_mknod :: "nat \<Rightarrow> disk \<Rightarrow> ext2_volume \<Rightarrow> inode \<Rightarrow> string \<Rightarrow> nat \<Rightarrow> nat \<Rightarrow> nat \<Rightarrow> nat \<Rightarrow> (int \<times> disk \<times> ext2_volume) run" where
  "ext2_mknod now d v dir name mode dev uid gid =
     (let f = zero_inode\<lparr>i_mode := mode, i_uid := uid, i_gid := gid\<rparr>;
          f = (if dev \<noteq> 0 then f\<lparr>i_rdev := dev\<rparr> else f) in
      bindR (ext2_mkentry now d v dir f name) (\<lambda>(_, d, v). ret (0, d, v)))"

definition unlink_here :: "u8 list \<Rightarrow> nat \<Rightarrow> nat \<Rightarrow> u8 list res" where
  "unlink_here buf offset sz =
     (if offset + sz > length buf \<or> offset + 6 > length buf then Inl Overrun
      else Inr (overlay (overlay buf offset (replicate sz 0)) (offset + 4) (le_bytes 2 sz)))"

partial_function (option) unlink_loop ::
    "disk \<Rightarrow> ext2_volume \<Rightarrow> ext2_inode \<Rightarrow> string \<Rightarrow> u8 list \<Rightarrow> nat \<Rightarrow> nat \<Rightarrow> (int \<times> disk) run" where
  "unlink_loop d v e name buf offset blk =
     (if offset + blk * vl_blksize v < dir_end e then
        case dirent_at buf offset of Inl f \<Rightarrow> Some (Inl f) | Inr de \<Rightarrow>
        case name_match name buf offset de of Inl f \<Rightarrow> Some (Inl f) | Inr m \<Rightarrow>
          if m then
            Some (bindS (unlink_here buf offset (ed_size de)) (\<lambda>buf.
              bindS (ext2_inode_blk d v e (blk mod 2 ^ 32)) (\<lambda>b. Inr (0, write_blocks d v buf b 1))))
          else case dir_advance d v e buf (offset + ed_size de) blk of Inl f \<Rightarrow> Some (Inl f) | Inr (buf, offset, blk) \<Rightarrow>
            unlink_loop d v e name buf offset blk
      else Some (Inr (- ENOENT, d)))"

definition ext2_unlink :: "disk \<Rightarrow> ext2_volume \<Rightarrow> inode \<Rightarrow> string \<Rightarrow> (int \<times> disk) run" where
  "ext2_unlink d v dir name =
     (case bindS (ext2_read_inode d v (i_inode dir)) (\<lambda>e. bindS (file_blk d v e 0) (\<lambda>buf. Inr (e, buf))) of
        Inl f \<Rightarrow> Some (Inl f)
      | Inr (e, buf) \<Rightarrow> unlink_loop d v e name buf 0 0)"

subsection \<open>File contents\<close>

fun resize_loop :: "disk \<Rightarrow> ext2_volume \<Rightarrow> ext2_inode \<Rightarrow> nat \<Rightarrow> (disk \<times> ext2_volume \<times> ext2_inode) res" where
  "resize_loop d v e 0 = Inr (d, v, e)"
| "resize_loop d v e (Suc cnt) =
     (if vl_blksize v div 512 = 0 then Inl KernelPanic
      else
        bindS (ext2_alloc_blk d v) (\<lambda>(nb, d, v).
        bindS (ext2_set_inode_blk d v e (e_sectors e div (vl_blksize v div 512)) nb) (\<lambda>(d, e).
          resize_loop d v e cnt)))"

definition ext2_resize :: "disk \<Rightarrow> ext2_volume \<Rightarrow> inode \<Rightarrow> nat \<Rightarrow> (inode \<times> disk \<times> ext2_volume) res" where
  "ext2_resize d v f sz =
     bindS (ext2_read_inode d v (i_inode f)) (\<lambda>e.
       if vl_blksize v = 0 then Inl KernelPanic
       else
         let diff = sub64 sz (i_size f);
             cnt = (if diff mod vl_blksize v \<noteq> 0 then diff div vl_blksize v + 1 else diff div vl_blksize v) in
         bindS (resize_loop d v e cnt) (\<lambda>(d, v, e).
         bindS (ext2_write_inode d v (i_inode f) (e\<lparr>e_size := sz mod 2 ^ 32, e_size_u := sz div 2 ^ 32\<rparr>)) (\<lambda>d.
           Inr (f\<lparr>i_size := sz\<rparr>, d, v))))"

text \<open>The part of block \<open>i\<close> that a read copies: its first byte and the number of bytes.\<close>

definition read_part :: "nat \<Rightarrow> nat \<Rightarrow> nat \<Rightarrow> nat \<Rightarrow> nat \<Rightarrow> nat \<Rightarrow> nat \<Rightarrow> nat \<times> nat" where
  "read_part bs startblk modoff endblk modend sz i =
     (let start = (if i = startblk then modoff else 0);
          bytes = (if i = startblk then bs - start else bs) in
      (start, if i = endblk then if modend < sz then modend else sz else bytes))"

fun read_loop :: "disk \<Rightarrow> ext2_volume \<Rightarrow> ext2_inode \<Rightarrow> (nat \<Rightarrow> nat \<times> nat) \<Rightarrow> nat list \<Rightarrow> u8 list res" where
  "read_loop d v e part [] = Inr []"
| "read_loop d v e part (i # is) =
     bindS (file_blk d v e i) (\<lambda>fullbuf.
       case part i of (start, bytes) \<Rightarrow>
       if start + bytes > length fullbuf then Inl Overrun
       else bindS (read_loop d v e part is) (\<lambda>rest. Inr (take bytes (drop start fullbuf) @ rest)))"

text \<open>A 32-bit counter that has to pass \<open>2 ^ 32 - 1\<close> never does: the loop does not end.\<close>

definition ext2_read :: "disk \<Rightarrow> ext2_volume \<Rightarrow> kfile \<Rightarrow> int \<Rightarrow> nat \<Rightarrow> (int \<times> u8 list) run" where
  "ext2_read d v file off sz =
     (let o64 = u64_of off; fsize = i_size (f_inode file); bs = vl_blksize v in
      if o64 > fsize then ret (0, [])
      else
        let over = add64 o64 sz > fsize; sz = (if over then sub64 fsize o64 else sz) in
        if over \<and> sz = 0 then ret (0, [])
        else if bs = 0 then Some (Inl KernelPanic)
        else
          let startblk = o64 div bs mod 2 ^ 32; modoff = o64 mod bs;
              endblk = add64 sz o64 div bs mod 2 ^ 32; modend = add64 sz o64 mod bs in
          case ext2_read_inode d v (i_inode (f_inode file)) of
            Inl x \<Rightarrow> Some (Inl x)
          | Inr e \<Rightarrow>
              if startblk \<le> endblk \<and> endblk = 2 ^ 32 - 1 then None
              else Some (bindS (read_loop d v e (read_part bs startblk modoff endblk modend sz) [startblk..<endblk + 1]) (\<lambda>out. Inr (s64 sz, out))))"

definition write_part :: "nat \<Rightarrow> nat \<Rightarrow> nat \<Rightarrow> nat \<Rightarrow> nat \<Rightarrow> nat \<Rightarrow> nat \<times> nat" where
  "write_part bs startblk modoff endblk modend i =
     (let start = (if i = startblk then modoff else 0); wsize = bs - start in
      (start, if i = endblk then (wsize + modend + 2 ^ 32 - bs) mod 2 ^ 32 else wsize))"

fun write_loop :: "disk \<Rightarrow> ext2_volume \<Rightarrow> ext2_inode \<Rightarrow> (nat \<Rightarrow> nat \<times> nat) \<Rightarrow> u8 list \<Rightarrow> nat list \<Rightarrow> disk res" where
  "write_loop d v e part buf [] = Inr d"
| "write_loop d v e part buf (i # is) =
     bindS (ext2_inode_blk d v e i) (\<lambda>b.
       let fullbuf = read_blocks d v b 1 in
       case part i of (start, wsize) \<Rightarrow>
       if start + wsize > length fullbuf \<or> wsize > length buf then Inl Overrun
       else write_loop (write_blocks d v (overlay fullbuf start (take wsize buf)) b 1) v e part (drop wsize buf) is)"

definition ext2_write :: "disk \<Rightarrow> ext2_volume \<Rightarrow> kfile \<Rightarrow> u8 list \<Rightarrow> int \<Rightarrow> nat \<Rightarrow> (int \<times> kfile \<times> disk \<times> ext2_volume) run" where
  "ext2_write d v file buf off sz =
     (let o64 = u64_of off; bs = vl_blksize v in
      case (if i_size (f_inode file) < add64 o64 sz then ext2_resize d v (f_inode file) (add64 o64 sz) else Inr (f_inode file, d, v)) of
        Inl x \<Rightarrow> Some (Inl x)
      | Inr (ino, d, v) \<Rightarrow>
          case ext2_read_inode d v (i_inode ino) of
            Inl x \<Rightarrow> Some (Inl x)
          | Inr e \<Rightarrow>
              if bs = 0 then Some (Inl KernelPanic)
              else
                let startblk = o64 div bs mod 2 ^ 32; modoff = o64 mod bs;
                    endblk = add64 sz o64 div bs mod 2 ^ 32; modend = add64 sz o64 mod bs in
                if startblk \<le> endblk \<and> endblk = 2 ^ 32 - 1 then None
                else Some (bindS (write_loop d v e (write_part bs startblk modoff endblk modend) buf [startblk..<endblk + 1]) (\<lambda>d.
                  Inr (s64 sz, file\<lparr>f_inode := ino\<rparr>, d, v))))"

subsection \<open>Attributes and links\<close>

definition ext2_chmod :: "disk \<Rightarrow> ext2_volume \<Rightarrow> kfile \<Rightarrow> nat \<Rightarrow> (int \<times> disk) res" where
  "ext2_chmod d v file mode =
     bindS (ext2_read_inode d v (i_inode (f_inode file))) (\<lambda>e.
     bindS (ext2_write_inode d v (i_inode (f_inode file)) (e\<lparr>e_mode := (e_mode e AND S_IFMT) OR (mode AND 0xfff)\<rparr>)) (\<lambda>d. Inr (0, d)))"

definition ext2_chown :: "disk \<Rightarrow> ext2_volume \<Rightarrow> kfile \<Rightarrow> nat \<Rightarrow> nat \<Rightarrow> (int \<times> disk) res" where
  "ext2_chown d v file uid gid =
     bindS (ext2_read_inode d v (i_inode (f_inode file))) (\<lambda>e.
       let e = (if uid \<noteq> 2 ^ 32 - 1 then e\<lparr>e_uid := uid mod 2 ^ 16\<rparr> else e);
           e = (if gid \<noteq> 2 ^ 32 - 1 then e\<lparr>e_gid := gid mod 2 ^ 16\<rparr> else e) in
       bindS (ext2_write_inode d v (i_inode (f_inode file)) e) (\<lambda>d. Inr (0, d)))"

text \<open>
  A symbolic link is kept in the bytes of the block map, at offset 40 of the inode; the rest of the
  inode behind it has 88 bytes.
\<close>

definition ext2_readlink :: "disk \<Rightarrow> ext2_volume \<Rightarrow> inode \<Rightarrow> nat \<Rightarrow> (int \<times> char list) res" where
  "ext2_readlink d v f n =
     (if \<not> S_ISLNK (i_mode f) then Inr (- EINVAL, [])
      else
        bindS (ext2_read_inode d v (i_inode f)) (\<lambda>e.
          let n = (if INOSIZE e < n then INOSIZE e else n) in
          if n > 88 then Inl Overrun else Inr (int n, chars (take n (drop 40 (ino_encode e))))))"

definition ext2_symlink :: "disk \<Rightarrow> ext2_volume \<Rightarrow> inode \<Rightarrow> string \<Rightarrow> (int \<times> inode \<times> disk) res" where
  "ext2_symlink d v f link =
     bindS (ext2_read_inode d v (i_inode f)) (\<lambda>e.
       if length link > 88 then Inl Overrun
       else
         let e = (ino_decode (overlay (ino_encode e) 40 (name_bytes link)))\<lparr>e_size := length link\<rparr> in
         bindS (ext2_write_inode d v (i_inode f) e) (\<lambda>d. Inr (0, f\<lparr>i_size := INOSIZE e\<rparr>, d)))"

definition ext2_link :: "disk \<Rightarrow> ext2_volume \<Rightarrow> inode \<Rightarrow> string \<Rightarrow> inode \<Rightarrow> (int \<times> disk \<times> ext2_volume) run" where
  "ext2_link d v old name dir =
     bindR (ext2_append_dirent d v dir (mk_dirent (i_inode old) (i_mode old) name) name) (\<lambda>(d, v). ret (0, d, v))"

subsection \<open>Mounting\<close>

text \<open>
  \<open>opened\<close> is what \<open>vfs_open\<close> gave for the device: an error or its bytes; \<open>a\<close> is the address of the
  new volume. The shift count is the low 5 bits of \<open>log_block_sz\<close>, as the processor takes it.
\<close>

definition ext2_mount :: "nat \<Rightarrow> int + disk \<Rightarrow> inode \<Rightarrow> (int + ext2_volume \<times> inode) res" where
  "ext2_mount a opened fsroot =
     (case opened of
        Inl err \<Rightarrow> Inr (Inl err)
      | Inr d \<Rightarrow>
          let sb = sb_decode (map d [1024..<1536]) in
          if sb_ext2_sig sb \<noteq> 0xef53 then Inr (Inl (- EINVAL))
          else if sb_blks_per_grp sb = 0 then Inl KernelPanic
          else
            let bs = 1024 * 2 ^ (sb_log_block_sz sb mod 32) mod 2 ^ 32;
                n = (if sb_blk_cnt sb mod sb_blks_per_grp sb \<noteq> 0 then sb_blk_cnt sb div sb_blks_per_grp sb + 1
                     else sb_blk_cnt sb div sb_blks_per_grp sb) in
            if bs = 0 then Inl KernelPanic
            else
              let v = \<lparr>vl_addr = a, vl_blksize = bs, vl_groups = [], vl_sb = sb\<rparr>;
                  buf = read_blocks d v (SUPER_BLK + 1) (n * sizeof_bgd div bs + 1);
                  v = v\<lparr>vl_groups := map (\<lambda>i. bgd_decode (take sizeof_bgd (drop (sizeof_bgd * i) buf))) [0..<n]\<rparr> in
              bindS (ext2_read_inode d v 2) (\<lambda>e. Inr (Inr (v, inode2file v 2 e fsroot))))"

end
