(* ===== verification/Ext2_Files.thy ===== *)
theory Ext2_Files
  imports Ext2
begin

text \<open>
  Inodes, blocks and file contents of ext2: an inode that is written is read back and no other inode
  changes, the block allocator sets one clear bit, and reading and writing a file work on the bytes
  that its block map gives.
\<close>

unbundle bit_operations_syntax

section \<open>Fields, blocks and inodes\<close>

lemma length_read_blocks [simp]: "length (read_blocks d v b n) = vl_blksize v * n"
  by (simp add: read_blocks_def)

text \<open>Bytes of the device from an address on, and the device with bytes replaced there.\<close>

definition peek :: "disk \<Rightarrow> nat \<Rightarrow> nat \<Rightarrow> u8 list" where
  "peek d a n = map d [a..<a + n]"

definition patch :: "disk \<Rightarrow> nat \<Rightarrow> u8 list \<Rightarrow> disk" where
  "patch d a xs = (\<lambda>i. if a \<le> i \<and> i < a + length xs then xs ! (i - a) else d i)"

lemma length_peek [simp]: "length (peek d a n) = n"
  by (simp add: peek_def)

lemma nth_peek [simp]: "i < n \<Longrightarrow> peek d a n ! i = d (a + i)"
  by (simp add: peek_def)

lemma peek_patch: "peek (patch d a xs) a (length xs) = xs"
  by (rule nth_equalityI) (simp_all add: patch_def)

lemma peek_patch_other: "peek (patch d a xs) b n = peek d b n" if "b + n \<le> a \<or> a + length xs \<le> b"
  using that by (intro nth_equalityI) (auto simp: patch_def)

lemma patch_Nil [simp]: "patch d a [] = d"
  by (auto simp: patch_def fun_eq_iff)

lemma patch_peek: "patch d a (peek d a n) = d"
  by (auto simp: patch_def fun_eq_iff)

lemma read_blocks_peek: "read_blocks d v b (Suc 0) = peek d (b * vl_blksize v) (vl_blksize v)"
  by (simp add: read_blocks_def peek_def)

lemma read_part_peek: "take n (drop p (read_blocks d v b (Suc 0))) = peek d (b * vl_blksize v + p) n" if "p + n \<le> vl_blksize v"
  using that by (intro nth_equalityI) (simp_all add: read_blocks_peek add.assoc)

lemma write_blocks_patch: "write_blocks d v buf b (Suc 0) = patch d (b * vl_blksize v) buf" if "length buf = vl_blksize v"
  using that by (simp add: write_blocks_def patch_def)

lemma write_overlay: "write_blocks d v (overlay (read_blocks d v b (Suc 0)) p xs) b (Suc 0) = patch d (b * vl_blksize v + p) xs"
  if "p + length xs \<le> vl_blksize v"
proof
  fix i
  let ?a = "b * vl_blksize v" and ?R = "read_blocks d v b (Suc 0)"
  show "write_blocks d v (overlay ?R p xs) b (Suc 0) i = patch d (?a + p) xs i"
  proof (cases "?a \<le> i \<and> i < ?a + vl_blksize v")
    case True
    then obtain j where j: "i = ?a + j" "j < vl_blksize v"
      by (metis le_add_diff_inverse nat_add_left_cancel_less)
    then have "overlay ?R p xs ! j = (if p \<le> j \<and> j < p + length xs then xs ! (j - p) else d (?a + j))"
      using nth_overlay[of p xs ?R j] that by (simp add: read_blocks_peek)
    with j show ?thesis
      by (simp add: write_blocks_def patch_def)
  next
    case False
    with that show ?thesis
      by (auto simp: write_blocks_def patch_def)
  qed
qed

subsection \<open>Inodes\<close>

text \<open>An inode whose fields have their widths, and a volume whose inode tables lie apart.\<close>

definition ino_ok :: "ext2_inode \<Rightarrow> bool" where
  "ino_ok e \<longleftrightarrow> e_mode e < 2 ^ 16 \<and> e_uid e < 2 ^ 16 \<and> e_size e < 2 ^ 32 \<and> e_atime e < 2 ^ 32 \<and> e_ctime e < 2 ^ 32 \<and> e_mtime e < 2 ^ 32 \<and>
     e_dtime e < 2 ^ 32 \<and> e_gid e < 2 ^ 16 \<and> e_nlink e < 2 ^ 16 \<and> e_sectors e < 2 ^ 32 \<and> e_flags e < 2 ^ 32 \<and> e_os_spec1 e < 2 ^ 32 \<and>
     length (e_blocks e) = 15 \<and> (\<forall>b\<in>set (e_blocks e). b < 2 ^ 32) \<and> e_gen_num e < 2 ^ 32 \<and> e_file_acl e < 2 ^ 32 \<and> e_size_u e < 2 ^ 32 \<and>
     e_frag_addr e < 2 ^ 32 \<and> length (e_os_spec2 e) = 12"

lemma concat_le4: "drop (4 * i) (concat (map (le_bytes 4) bs) @ ys) = le_bytes 4 (bs ! i) @ drop (4 * Suc i) (concat (map (le_bytes 4) bs) @ ys)"
  if "i < length bs"
  using that
proof (induction bs arbitrary: i)
  case (Cons b bs)
  then show ?case
    by (cases i) simp_all
qed simp

lemma length_concat_le4 [simp]: "length (concat (map (le_bytes 4) bs)) = 4 * length bs"
  by (induction bs) simp_all

lemma le_at_blocks: "le_at (concat (map (le_bytes 4) bs) @ ys) (4 * i) 4 = bs ! i mod 256 ^ 4" if "i < length bs"
  unfolding le_at_def concat_le4[OF that] by simp

lemma length_ino_encode: "length (e_blocks e) = 15 \<Longrightarrow> length (e_os_spec2 e) = 12 \<Longrightarrow> length (ino_encode e) = 128"
  by (simp add: ino_encode_def)

lemma ino_encode_blocks: "drop 40 (ino_encode e) = concat (map (le_bytes 4) (e_blocks e)) @
    le_bytes 4 (e_gen_num e) @ le_bytes 4 (e_file_acl e) @ le_bytes 4 (e_size_u e) @ le_bytes 4 (e_frag_addr e) @ e_os_spec2 e"
  by (simp add: ino_encode_def)

lemma le_at_drop: "le_at bs (p + q) n = le_at (drop p bs) q n"
  by (simp add: le_at_def add.commute)

lemma ino_decode_encode: "ino_decode (ino_encode e) = e" if "ino_ok e"
proof -
  have "map (\<lambda>i. le_at (ino_encode e) (40 + 4 * i) 4) [0..<15] = e_blocks e"
    using that by (intro nth_equalityI) (simp_all add: ino_ok_def le_at_drop ino_encode_blocks le_at_blocks)
  moreover have "take 12 (drop 116 (ino_encode e)) = e_os_spec2 e"
    using that by (simp add: ino_encode_def ino_ok_def)
  moreover have "le_at (ino_encode e) 0 2 = e_mode e" "le_at (ino_encode e) 2 2 = e_uid e" "le_at (ino_encode e) 4 4 = e_size e"
      "le_at (ino_encode e) 8 4 = e_atime e" "le_at (ino_encode e) 12 4 = e_ctime e" "le_at (ino_encode e) 16 4 = e_mtime e"
      "le_at (ino_encode e) 20 4 = e_dtime e" "le_at (ino_encode e) 24 2 = e_gid e" "le_at (ino_encode e) 26 2 = e_nlink e"
      "le_at (ino_encode e) 28 4 = e_sectors e" "le_at (ino_encode e) 32 4 = e_flags e" "le_at (ino_encode e) 36 4 = e_os_spec1 e"
      "le_at (ino_encode e) 100 4 = e_gen_num e" "le_at (ino_encode e) 104 4 = e_file_acl e" "le_at (ino_encode e) 108 4 = e_size_u e"
      "le_at (ino_encode e) 112 4 = e_frag_addr e"
    using that by (simp_all add: ino_encode_def ino_ok_def le_at_simps)
  ultimately show ?thesis
    by (simp only: ino_decode_def) simp
qed

lemma ino_ok_decode: "ino_ok (ino_decode bs)" if "length bs = 128"
proof -
  have w: "le_at bs p n < 256 ^ n" if "p + n \<le> 128" for p n
    using le_of_bound[of "take n (drop p bs)"] that \<open>length bs = 128\<close> by (simp add: le_at_def min_absorb2)
  have b: "le_at bs (40 + 4 * i) 4 < 2 ^ 32" if "i < 15" for i
    using w[of "40 + 4 * i" 4] that by simp
  show ?thesis
    using w[of 0 2] w[of 2 2] w[of 4 4] w[of 8 4] w[of 12 4] w[of 16 4] w[of 20 4] w[of 24 2] w[of 26 2] w[of 28 4] w[of 32 4] w[of 36 4]
      w[of 100 4] w[of 104 4] w[of 108 4] w[of 112 4] b that
    by (auto simp: ino_decode_def ino_ok_def)
qed

abbreviation (input) ipg_of :: "ext2_volume \<Rightarrow> nat" where "ipg_of v \<equiv> sb_inodes_per_grp (vl_sb v)"
abbreviation (input) isz_of :: "ext2_volume \<Rightarrow> nat" where "isz_of v \<equiv> sb_inode_sz (vl_sb v)"

definition tbl_at :: "ext2_volume \<Rightarrow> nat \<Rightarrow> nat" where
  "tbl_at v g = bg_inode_tbl (vl_groups v ! g) * vl_blksize v"

definition vol_ok :: "ext2_volume \<Rightarrow> bool" where
  "vol_ok v \<longleftrightarrow> 0 < vl_blksize v \<and> 0 < ipg_of v \<and> 128 \<le> isz_of v \<and> isz_of v dvd vl_blksize v \<and>
     length (vl_groups v) * ipg_of v < 2 ^ 32 \<and> (\<forall>g < length (vl_groups v). tbl_at v g + ipg_of v * isz_of v < 2 ^ 64) \<and>
     (\<forall>g < length (vl_groups v). \<forall>h < length (vl_groups v). g \<noteq> h \<longrightarrow> tbl_at v g + ipg_of v * isz_of v \<le> tbl_at v h \<or> tbl_at v h + ipg_of v * isz_of v \<le> tbl_at v g)"

definition ino_num :: "ext2_volume \<Rightarrow> nat \<Rightarrow> bool" where
  "ino_num v n \<longleftrightarrow> 0 < n \<and> n \<le> length (vl_groups v) * ipg_of v"

definition inode_at :: "ext2_volume \<Rightarrow> nat \<Rightarrow> nat" where
  "inode_at v n = tbl_at v ((n - 1) div ipg_of v) + (n - 1) mod ipg_of v * isz_of v"

lemma mod_dvd_room:
  fixes p b s :: nat
  assumes "s dvd b" "s dvd p" "0 < b"
  shows "p mod b + s \<le> b"
proof -
  obtain k where "b = s * k"
    using assms(1) by (rule dvdE)
  moreover obtain j where "p mod b = s * j"
    using assms(1,2) by (meson dvdE dvd_mod)
  moreover have "p mod b < b"
    using assms(3) by simp
  ultimately have "s * j < s * k"
    by simp
  then have "j + 1 \<le> k"
    by simp
  then have "s * (j + 1) \<le> s * k"
    by (rule mult_le_mono2)
  then show ?thesis
    using \<open>b = s * k\<close> \<open>p mod b = s * j\<close> by simp
qed

lemma inode_pos_ok:
  assumes "vol_ok v" "ino_num v n"
  obtains blk p where "inode_pos v n = Inr (blk, p)" "blk * vl_blksize v + p = inode_at v n" "p + 128 \<le> vl_blksize v"
proof -
  let ?bs = "vl_blksize v" and ?i = "ipg_of v" and ?s = "isz_of v"
  let ?g = "(n - 1) div ?i" and ?k = "(n - 1) mod ?i"
  have bs: "0 < ?bs" and i: "0 < ?i" and s: "128 \<le> ?s" "?s dvd ?bs"
    using assms by (auto simp: vol_ok_def)
  have "n - 1 < length (vl_groups v) * ?i" "n < 2 ^ 32"
    using assms by (auto simp: ino_num_def vol_ok_def)
  then have g: "?g < length (vl_groups v)" and n: "(n + 2 ^ 32 - 1) mod 2 ^ 32 = n - 1"
    using assms(2) by (simp_all add: less_mult_imp_div_less ino_num_def mod_if)
  have "?k < ?i"
    using i by simp
  then have "?k * ?s \<le> ?i * ?s"
    by (intro mult_le_mono) simp_all
  moreover have t: "tbl_at v ?g + ?i * ?s < 2 ^ 64"
    using assms(1) g unfolding vol_ok_def by blast
  ultimately have "tbl_at v ?g < 2 ^ 64" "?k * ?s < 2 ^ 64" "tbl_at v ?g + ?k * ?s < 2 ^ 64"
    by linarith+
  then have w: "mul64 (bg_inode_tbl (vl_groups v ! ?g)) ?bs = tbl_at v ?g" "mul64 ?k ?s = ?k * ?s" "add64 (tbl_at v ?g) (?k * ?s) = inode_at v n"
    unfolding tbl_at_def inode_at_def by (simp_all only: mul64_small add64_small)
  have pos: "inode_pos v n = Inr (inode_at v n div ?bs, ?k * ?s mod ?bs)"
    using bs i g unfolding inode_pos_def Let_def n by (simp add: w[simplified])
  have "inode_at v n mod ?bs = ?k * ?s mod ?bs"
    by (simp add: inode_at_def tbl_at_def)
  then have "inode_at v n div ?bs * ?bs + ?k * ?s mod ?bs = inode_at v n"
    by (metis div_mult_mod_eq)
  moreover have "?k * ?s mod ?bs + 128 \<le> ?bs"
    using mod_dvd_room[OF s(2) _ bs, of "?k * ?s"] s(1) by simp
  ultimately show ?thesis
    using that pos by blast
qed

lemma read_inode_peek: "ext2_read_inode d v n = Inr (ino_decode (peek d (inode_at v n) 128))" if v: "vol_ok v" "ino_num v n"
proof -
  obtain blk p where "inode_pos v n = Inr (blk, p)" "blk * vl_blksize v + p = inode_at v n" "p + 128 \<le> vl_blksize v"
    using v by (rule inode_pos_ok)
  then show ?thesis
    by (simp add: ext2_read_inode_def read_part_peek)
qed

lemma write_inode_patch: "ext2_write_inode d v n e = Inr (patch d (inode_at v n) (ino_encode e))" if v: "vol_ok v" "ino_num v n" and "length (ino_encode e) = 128"
proof -
  obtain blk p where "inode_pos v n = Inr (blk, p)" "blk * vl_blksize v + p = inode_at v n" "p + 128 \<le> vl_blksize v"
    using v by (rule inode_pos_ok)
  with \<open>length (ino_encode e) = 128\<close> show ?thesis
    by (simp add: ext2_write_inode_def write_overlay)
qed

lemma inode_at_apart: "inode_at v n + 128 \<le> inode_at v m \<or> inode_at v m + 128 \<le> inode_at v n"
  if "vol_ok v" "ino_num v n" "ino_num v m" "n \<noteq> m"
proof -
  let ?i = "ipg_of v" and ?s = "isz_of v"
  have i: "0 < ?i" and s: "128 \<le> ?s"
    using that by (auto simp: vol_ok_def)
  have g: "(k - 1) div ?i < length (vl_groups v)" if "ino_num v k" for k
    using that i by (intro less_mult_imp_div_less) (auto simp: ino_num_def)
  have room: "(k - 1) mod ?i * ?s + ?s \<le> ?i * ?s" for k
  proof -
    have "Suc ((k - 1) mod ?i) * ?s \<le> ?i * ?s"
      using i by (intro mult_le_mono1) (simp add: Suc_leI)
    then show ?thesis
      by simp
  qed
  show ?thesis
  proof (cases "(n - 1) div ?i = (m - 1) div ?i")
    case True
    then have ne: "(n - 1) mod ?i \<noteq> (m - 1) mod ?i"
      using that(2-4) div_mult_mod_eq[of "n - 1" ?i] div_mult_mod_eq[of "m - 1" ?i] by (auto simp: ino_num_def)
    have sep: "a * ?s + ?s \<le> b * ?s" if "a < b" for a b :: nat
    proof -
      have "Suc a * ?s \<le> b * ?s"
        using that by (intro mult_le_mono1) simp
      then show ?thesis
        by simp
    qed
    show ?thesis
      using ne sep[of "(n - 1) mod ?i" "(m - 1) mod ?i"] sep[of "(m - 1) mod ?i" "(n - 1) mod ?i"] s True
      unfolding inode_at_def by (cases "(n - 1) mod ?i < (m - 1) mod ?i") auto
  next
    case False
    with that g have "tbl_at v ((n - 1) div ?i) + ?i * ?s \<le> tbl_at v ((m - 1) div ?i) \<or> tbl_at v ((m - 1) div ?i) + ?i * ?s \<le> tbl_at v ((n - 1) div ?i)"
      unfolding vol_ok_def by blast
    then show ?thesis
      using room[of n] room[of m] s unfolding inode_at_def by linarith
  qed
qed

text \<open>
  C35: Writing an inode and reading it gives it back, every other inode of the volume is read as before,
  and no byte outside the 128 bytes of the inode changes, when the inode tables of the groups lie apart
  and an inode does not cross a block.
\<close>

theorem ext2_inode_roundtrip:
  assumes "vol_ok v" and "ino_num v n" and "ino_ok e"
  shows "\<exists>d'. ext2_write_inode d v n e = Inr d' \<and> ext2_read_inode d' v n = Inr e \<and>
    (\<forall>m. ino_num v m \<and> m \<noteq> n \<longrightarrow> ext2_read_inode d' v m = ext2_read_inode d v m) \<and>
    (\<forall>i. i < inode_at v n \<or> inode_at v n + 128 \<le> i \<longrightarrow> d' i = d i)"
proof -
  let ?d = "patch d (inode_at v n) (ino_encode e)"
  have len: "length (ino_encode e) = 128"
    using assms(3) by (simp add: length_ino_encode ino_ok_def)
  have "ext2_read_inode ?d v n = Inr e"
    using peek_patch[of d "inode_at v n" "ino_encode e"] len assms by (simp add: read_inode_peek ino_decode_encode)
  moreover have "ext2_read_inode ?d v m = ext2_read_inode d v m" if "ino_num v m" "m \<noteq> n" for m
    using inode_at_apart[OF assms(1) that(1) assms(2) that(2)] that assms(1) len by (simp add: read_inode_peek peek_patch_other)
  moreover have "?d i = d i" if "i < inode_at v n \<or> inode_at v n + 128 \<le> i" for i
    using that len by (auto simp: patch_def)
  ultimately show ?thesis
    using write_inode_patch[OF assms(1,2) len] by blast
qed

definition demo_vol :: ext2_volume where
  "demo_vol = \<lparr>vl_addr = 4096, vl_blksize = 1024,
     vl_groups = [\<lparr>bg_block_bmp = 3, bg_inode_bmp = 4, bg_inode_tbl = 5, bg_free_blocks = 8, bg_free_inodes = 8, bg_dir_cnt = 1, bg_padding = 0, bg_res = replicate 12 0\<rparr>],
     vl_sb = \<lparr>sb_blk_cnt = 64, sb_log_block_sz = 0, sb_blks_per_grp = 8192, sb_inodes_per_grp = 16, sb_ext2_sig = 0xef53, sb_inode_sz = 128\<rparr>\<rparr>"

lemma demo_vol_ok: "vol_ok demo_vol"
  by (simp add: vol_ok_def demo_vol_def tbl_at_def)

lemma demo_ino_num: "ino_num demo_vol n \<longleftrightarrow> 0 < n \<and> n \<le> 16"
  by (simp add: ino_num_def demo_vol_def)

lemma zero_ino_ok: "ino_ok zero_ext2_inode"
  by (simp add: ino_ok_def zero_ext2_inode_def)

theorem ext2_inode_roundtrip_witness:
  "vol_ok demo_vol \<and> ino_num demo_vol 2 \<and> ino_ok zero_ext2_inode \<and>
   (\<exists>d'. ext2_write_inode (\<lambda>_. 7) demo_vol 2 zero_ext2_inode = Inr d' \<and> ext2_read_inode d' demo_vol 2 = Inr zero_ext2_inode)"
  using ext2_inode_roundtrip[OF demo_vol_ok _ zero_ino_ok, of 2 "\<lambda>_. 7"] demo_vol_ok zero_ino_ok by (auto simp: demo_ino_num)

subsection \<open>Allocating blocks\<close>

definition bmp_bit :: "disk \<Rightarrow> ext2_volume \<Rightarrow> nat \<Rightarrow> nat \<Rightarrow> bool" where
  "bmp_bit d v g j \<longleftrightarrow> bit (d (bg_block_bmp (vl_groups v ! g) * vl_blksize v + j div 8)) (j mod 8)"

definition usable :: "disk \<Rightarrow> ext2_volume \<Rightarrow> nat \<Rightarrow> bool" where
  "usable d v g \<longleftrightarrow> bg_free_blocks (vl_groups v ! g) \<noteq> 0 \<and> (\<exists>j < vl_blksize v * 8. \<not> bmp_bit d v g j)"

text \<open>The descriptors of the groups fit their block, and no bitmap lies in it or in another bitmap.\<close>

definition groups_ok :: "ext2_volume \<Rightarrow> bool" where
  "groups_ok v \<longleftrightarrow> length (vl_groups v) * 32 \<le> vl_blksize v \<and> (\<forall>g\<in>set (vl_groups v). length (bg_res g) = 12 \<and> bg_block_bmp g \<noteq> BGDS_BLK) \<and>
     distinct (map bg_block_bmp (vl_groups v))"

lemma length_bgds: "\<forall>g\<in>set gs. length (bg_res g) = 12 \<Longrightarrow> length (concat (map bgd_encode gs)) = length gs * 32"
  by (induction gs) (simp_all add: bgd_encode_def)

lemma rewrite_bgds_patch: "ext2_rewrite_bgds d v = Inr (patch d (BGDS_BLK * vl_blksize v) (concat (map bgd_encode (vl_groups v))))"
  if "length (vl_groups v) * 32 \<le> vl_blksize v" "\<forall>g\<in>set (vl_groups v). length (bg_res g) = 12"
proof -
  let ?gs = "concat (map bgd_encode (vl_groups v))"
  have "length ?gs \<le> vl_blksize v"
    using that by (simp add: length_bgds)
  then show ?thesis
    using write_overlay[of 0 ?gs v d BGDS_BLK] by (simp add: ext2_rewrite_bgds_def Let_def)
qed

lemma clear_bit_read:
  "clear_bit (read_blocks d v b (Suc 0)) = find (\<lambda>j. \<not> bit (d (b * vl_blksize v + j div 8)) (j mod 8)) [0..<vl_blksize v * 8]"
proof -
  have "read_blocks d v b (Suc 0) ! (j div 8) = d (b * vl_blksize v + j div 8)" if "j < vl_blksize v * 8" for j
    using that by (simp add: read_blocks_peek less_mult_imp_div_less)
  then show ?thesis
    unfolding clear_bit_def by (intro find_cong) simp_all
qed

lemma mark_bit_write:
  "write_blocks d v (mark_bit (read_blocks d v b (Suc 0)) j) b (Suc 0) =
     patch d (b * vl_blksize v + j div 8) [d (b * vl_blksize v + j div 8) OR push_bit (j mod 8) 1]" if "j < vl_blksize v * 8"
proof -
  let ?R = "read_blocks d v b (Suc 0)"
  have j: "j div 8 < vl_blksize v"
    using that by (simp add: less_mult_imp_div_less)
  then have "mark_bit ?R j = overlay ?R (j div 8) [d (b * vl_blksize v + j div 8) OR push_bit (j mod 8) 1]"
    by (simp add: mark_bit_def overlay_def upd_conv_take_nth_drop read_blocks_peek)
  with j show ?thesis
    by (simp add: write_overlay)
qed

lemma set_bit_iff: "bit (x OR push_bit k 1 :: u8) m \<longleftrightarrow> bit x m \<or> m = k" if "k < 8"
  using that by (auto simp: bit_or_iff push_bit_of_1 bit_exp_iff)

definition blk_marked :: "disk \<Rightarrow> ext2_volume \<Rightarrow> nat \<Rightarrow> nat \<Rightarrow> disk \<times> ext2_volume" where
  "blk_marked d v g j =
     (let a = bg_block_bmp (vl_groups v ! g) * vl_blksize v + j div 8;
          v' = v\<lparr>vl_groups := (vl_groups v)[g := (vl_groups v ! g)\<lparr>bg_free_blocks := bg_free_blocks (vl_groups v ! g) - 1\<rparr>]\<rparr> in
      (patch (patch d a [d a OR push_bit (j mod 8) 1]) (BGDS_BLK * vl_blksize v) (concat (map bgd_encode (vl_groups v'))), v'))"

lemma blk_marked_groups:
  assumes "groups_ok v" "g < length (vl_groups v)" "blk_marked d v g j = (d', v')"
  shows "\<forall>x\<in>set (vl_groups v'). length (bg_res x) = 12" "length (vl_groups v') = length (vl_groups v)" "vl_blksize v' = vl_blksize v"
proof -
  have "\<forall>x\<in>insert ((vl_groups v ! g)\<lparr>bg_free_blocks := bg_free_blocks (vl_groups v ! g) - 1\<rparr>) (set (vl_groups v)). length (bg_res x) = 12"
    using assms(1,2) by (simp add: groups_ok_def)
  then show "\<forall>x\<in>set (vl_groups v'). length (bg_res x) = 12"
    using assms(3) set_update_subset_insert[of "vl_groups v" g] unfolding blk_marked_def Let_def by fastforce
  show "length (vl_groups v') = length (vl_groups v)" "vl_blksize v' = vl_blksize v"
    using assms(3) by (auto simp: blk_marked_def Let_def)
qed

lemma alloc_blk_step:
  assumes "groups_ok v" "g < length (vl_groups v)"
  shows "alloc_blk_loop d v (g # is) =
    (if usable d v g then
       let j = (LEAST j. \<not> bmp_bit d v g j); (d', v') = blk_marked d v g j in Inr ((g * sb_blks_per_grp (vl_sb v) + j + 1) mod 2 ^ 32, d', v')
     else alloc_blk_loop d v is)"
proof (cases "clear_bit (read_blocks d v (bg_block_bmp (vl_groups v ! g)) (Suc 0))")
  case None
  then have "\<not> usable d v g"
    by (auto simp: clear_bit_read find_None_iff usable_def bmp_bit_def)
  with None show ?thesis
    by (simp add: Let_def)
next
  case (Some j)
  then have j: "j < vl_blksize v * 8" "\<not> bmp_bit d v g j" and least: "\<forall>k < j. bmp_bit d v g k"
    by (auto simp: clear_bit_read find_Some_iff bmp_bit_def)
  then have L: "(LEAST j. \<not> bmp_bit d v g j) = j"
    by (intro Least_equality) (auto simp: not_less[symmetric])
  let ?v = "snd (blk_marked d v g j)"
  have "ext2_rewrite_bgds x ?v = Inr (patch x (BGDS_BLK * vl_blksize v) (concat (map bgd_encode (vl_groups ?v))))" for x
    using blk_marked_groups[OF assms surjective_pairing] rewrite_bgds_patch[of ?v x] assms(1) by (simp add: groups_ok_def)
  with Some j show ?thesis
    by (auto simp: L usable_def mark_bit_write blk_marked_def Let_def)
qed

lemma alloc_blk_first:
  assumes "groups_ok v" "\<forall>g\<in>set is. g < length (vl_groups v)"
  shows "alloc_blk_loop d v is =
    (case find (usable d v) is of
       None \<Rightarrow> Inr (0, d, v)
     | Some g \<Rightarrow> let j = (LEAST j. \<not> bmp_bit d v g j); (d', v') = blk_marked d v g j in Inr ((g * sb_blks_per_grp (vl_sb v) + j + 1) mod 2 ^ 32, d', v'))"
  using assms(2)
proof (induction "is")
  case (Cons g "is")
  then show ?case
    using alloc_blk_step[OF assms(1), of g d "is"] by (simp del: alloc_blk_loop.simps(2))
qed simp

lemma blk_marked_bits:
  assumes "groups_ok v" "g < length (vl_groups v)" "j < vl_blksize v * 8" "blk_marked d v g j = (d', v')"
    and "h < length (vl_groups v)" "k < vl_blksize v * 8"
  shows "bmp_bit d' v' h k \<longleftrightarrow> bmp_bit d v h k \<or> (h = g \<and> k = j)"
proof -
  let ?bs = "vl_blksize v" and ?b = "\<lambda>h. bg_block_bmp (vl_groups v ! h)"
  have bmp: "bg_block_bmp (vl_groups v' ! h) = ?b h" "vl_blksize v' = ?bs"
    using assms(2,4,5) by (auto simp: blk_marked_def Let_def nth_list_update)
  have kd: "k div 8 < ?bs" "j div 8 < ?bs"
    using assms(3,6) by (simp_all add: less_mult_imp_div_less)
  have blocks: "a * ?bs + k div 8 = b * ?bs + m \<longleftrightarrow> a = b \<and> k div 8 = m" if "m < ?bs" for a b m
    using kd(1) that by (metis add.commute add_right_cancel div_mult_self1 div_eq_0_iff mod_mult_self1 mod_less add.right_neutral le_zero_eq not_less_zero)
  have len: "length (concat (map bgd_encode (vl_groups v'))) \<le> ?bs"
    using blk_marked_groups[OF assms(1,2,4)] assms(1) by (simp add: length_bgds groups_ok_def)
  have ne: "?b h \<noteq> BGDS_BLK"
    using assms(1,5) by (simp add: groups_ok_def)
  have off: "\<not> (BGDS_BLK * ?bs \<le> ?b h * ?bs + k div 8 \<and> ?b h * ?bs + k div 8 < BGDS_BLK * ?bs + ?bs)"
    using blocks[of _ "?b h" 2] ne by (metis kd(1) le_add_diff_inverse less_diff_conv2 nat_add_left_cancel_less blocks)
  have d': "d' = patch (patch d (?b g * ?bs + j div 8) [d (?b g * ?bs + j div 8) OR push_bit (j mod 8) 1]) (BGDS_BLK * ?bs) (concat (map bgd_encode (vl_groups v')))"
    using assms(4) by (auto simp: blk_marked_def Let_def)
  have "d' (?b h * ?bs + k div 8) = (if ?b h = ?b g \<and> k div 8 = j div 8 then d (?b h * ?bs + k div 8) OR push_bit (j mod 8) 1 else d (?b h * ?bs + k div 8))"
  proof -
    have "d' (?b h * ?bs + k div 8) = patch d (?b g * ?bs + j div 8) [d (?b g * ?bs + j div 8) OR push_bit (j mod 8) 1] (?b h * ?bs + k div 8)"
      using off len unfolding d' patch_def[of _ "BGDS_BLK * ?bs"] by (meson nat_add_left_cancel_le order_less_le_trans)
    also have "\<dots> = (if ?b h * ?bs + k div 8 = ?b g * ?bs + j div 8 then d (?b h * ?bs + k div 8) OR push_bit (j mod 8) 1 else d (?b h * ?bs + k div 8))"
      by (auto simp: patch_def)
    finally show ?thesis
      by (simp only: blocks[OF kd(2)])
  qed
  moreover have "?b h = ?b g \<longleftrightarrow> h = g"
    using assms(1,2,5) by (auto simp: groups_ok_def distinct_conv_nth)
  moreover have "k = j \<longleftrightarrow> k div 8 = j div 8 \<and> k mod 8 = j mod 8"
    by (metis div_mult_mod_eq)
  ultimately show ?thesis
    by (auto simp: bmp_bit_def bmp set_bit_iff[unfolded push_bit_of_1])
qed

text \<open>
  C23: ext2_alloc_blk returns 0 and changes nothing when every group is full, and otherwise takes the
  first clear bit of the first group that has one: it sets exactly this bit, counts it in the
  descriptor of the group, writes the descriptors back, and changes no other byte of the device.
\<close>

theorem ext2_alloc_blk_marks:
  assumes "groups_ok v" and "length (vl_groups v) * sb_blks_per_grp (vl_sb v) + vl_blksize v * 8 < 2 ^ 32"
  shows "if \<exists>g < length (vl_groups v). usable d v g then
      \<exists>g j d' v'. ext2_alloc_blk d v = Inr (g * sb_blks_per_grp (vl_sb v) + j + 1, d', v') \<and>
        g < length (vl_groups v) \<and> usable d v g \<and> (\<forall>h < g. \<not> usable d v h) \<and>
        j < vl_blksize v * 8 \<and> \<not> bmp_bit d v g j \<and> (\<forall>k < j. bmp_bit d v g k) \<and>
        (\<forall>h < length (vl_groups v). \<forall>k < vl_blksize v * 8. bmp_bit d' v' h k \<longleftrightarrow> bmp_bit d v h k \<or> h = g \<and> k = j) \<and>
        v' = v\<lparr>vl_groups := (vl_groups v)[g := (vl_groups v ! g)\<lparr>bg_free_blocks := bg_free_blocks (vl_groups v ! g) - 1\<rparr>]\<rparr> \<and>
        peek d' (2 * vl_blksize v) (32 * length (vl_groups v)) = concat (map bgd_encode (vl_groups v')) \<and>
        (\<forall>i. i \<noteq> bg_block_bmp (vl_groups v ! g) * vl_blksize v + j div 8 \<and> (i < 2 * vl_blksize v \<or> 3 * vl_blksize v \<le> i) \<longrightarrow> d' i = d i)
    else ext2_alloc_blk d v = Inr (0, d, v)"
proof (cases "find (usable d v) [0..<length (vl_groups v)]")
  case None
  then have "\<not> (\<exists>g < length (vl_groups v). usable d v g)"
    by (auto simp: find_None_iff)
  moreover have "ext2_alloc_blk d v = Inr (0, d, v)"
    using alloc_blk_first[OF assms(1), of "[0..<length (vl_groups v)]" d] None by (simp add: ext2_alloc_blk_def)
  ultimately show ?thesis
    by (simp only: if_False)
next
  case (Some g)
  let ?bs = "vl_blksize v" and ?j = "LEAST j. \<not> bmp_bit d v g j"
  obtain d' v' where m: "blk_marked d v g ?j = (d', v')"
    by (cases "blk_marked d v g ?j")
  have g: "g < length (vl_groups v)" "usable d v g" "\<forall>h < g. \<not> usable d v h"
    using Some by (auto simp: find_Some_iff)
  then obtain k where k: "k < ?bs * 8" "\<not> bmp_bit d v g k"
    by (auto simp: usable_def)
  have j: "?j < ?bs * 8" "\<not> bmp_bit d v g ?j" "\<forall>k < ?j. bmp_bit d v g k"
    using k(1) Least_le[of "\<lambda>j. \<not> bmp_bit d v g j", OF k(2)] LeastI[of "\<lambda>j. \<not> bmp_bit d v g j", OF k(2)] not_less_Least
    by (simp, simp, blast)
  have "(g + 1) * sb_blks_per_grp (vl_sb v) \<le> length (vl_groups v) * sb_blks_per_grp (vl_sb v)"
    using g(1) by (intro mult_le_mono1) simp
  then have n: "(g * sb_blks_per_grp (vl_sb v) + ?j + 1) mod 2 ^ 32 = g * sb_blks_per_grp (vl_sb v) + ?j + 1"
    using assms(2) j(1) by (intro mod_less) (simp add: algebra_simps)
  have r: "ext2_alloc_blk d v = Inr (g * sb_blks_per_grp (vl_sb v) + ?j + 1, d', v')"
    using alloc_blk_first[OF assms(1), of "[0..<length (vl_groups v)]" d] unfolding ext2_alloc_blk_def Some n
    by (simp add: m Let_def n[simplified])
  have v': "v' = v\<lparr>vl_groups := (vl_groups v)[g := (vl_groups v ! g)\<lparr>bg_free_blocks := bg_free_blocks (vl_groups v ! g) - 1\<rparr>]\<rparr>"
    and d': "d' = patch (patch d (bg_block_bmp (vl_groups v ! g) * ?bs + ?j div 8) [d (bg_block_bmp (vl_groups v ! g) * ?bs + ?j div 8) OR push_bit (?j mod 8) 1])
      (2 * ?bs) (concat (map bgd_encode (vl_groups v')))"
    using m by (auto simp: blk_marked_def Let_def)
  have len: "length (concat (map bgd_encode (vl_groups v'))) = 32 * length (vl_groups v)" "32 * length (vl_groups v) \<le> ?bs"
    using blk_marked_groups[OF assms(1) g(1) m] assms(1) by (simp_all add: length_bgds groups_ok_def)
  have "peek d' (2 * ?bs) (32 * length (vl_groups v)) = concat (map bgd_encode (vl_groups v'))"
    using peek_patch[of _ "2 * ?bs" "concat (map bgd_encode (vl_groups v'))"] unfolding d' len(1) .
  moreover have "d' i = d i" if "i \<noteq> bg_block_bmp (vl_groups v ! g) * ?bs + ?j div 8" "i < 2 * ?bs \<or> 3 * ?bs \<le> i" for i
    using that len unfolding d' by (auto simp: patch_def)
  moreover note blk_marked_bits[OF assms(1) g(1) j(1) m]
  moreover have "\<exists>g < length (vl_groups v). usable d v g"
    using g by blast
  ultimately show ?thesis
    using r g j v' by (simp only: if_True) blast
qed

definition demo_disk :: disk where
  "demo_disk = (\<lambda>i. if i = 3 * 1024 then 0x0f else if 3 * 1024 < i \<and> i < 4 * 1024 then 0xff else 0)"

theorem ext2_alloc_blk_marks_witness:
  "groups_ok demo_vol \<and> usable demo_disk demo_vol 0 \<and> (\<exists>d' v'. ext2_alloc_blk demo_disk demo_vol = Inr (5, d', v'))"
proof -
  have ok: "groups_ok demo_vol"
    by (simp add: groups_ok_def demo_vol_def)
  have n: "length (vl_groups demo_vol) * sb_blks_per_grp (vl_sb demo_vol) + vl_blksize demo_vol * 8 < 2 ^ 32" "length (vl_groups demo_vol) = 1"
    by (simp_all add: demo_vol_def)
  have bits: "bmp_bit demo_disk demo_vol 0 j \<longleftrightarrow> j < 4" if "j < 5" for j
  proof -
    have "j \<in> {0, 1, 2, 3, 4}"
      using that by auto
    then show ?thesis
      by (auto simp: bmp_bit_def demo_disk_def demo_vol_def bit_iff_odd)
  qed
  have u: "usable demo_disk demo_vol 0"
    unfolding usable_def using bits[of 4] by (intro conjI exI[of _ 4]) (simp_all add: demo_vol_def)
  then have ex: "\<exists>g < length (vl_groups demo_vol). usable demo_disk demo_vol g"
    using n(2) by auto
  obtain g j d' v' where r: "ext2_alloc_blk demo_disk demo_vol = Inr (g * sb_blks_per_grp (vl_sb demo_vol) + j + 1, d', v')"
      "g < 1" "\<not> bmp_bit demo_disk demo_vol g j" "\<forall>k < j. bmp_bit demo_disk demo_vol g k"
    using ext2_alloc_blk_marks[OF ok n(1), of demo_disk, unfolded if_P[OF ex], unfolded n(2)] by (elim exE conjE) (rule that; assumption)
  then have g: "g = 0"
    by simp
  have "\<not> j < 4" "\<not> 4 < j"
    using r(3,4) bits[of j] bits[of 4] unfolding g by auto
  then have "j = 4"
    by simp
  with r(1) g ok u show ?thesis
    by auto
qed

subsection \<open>Contents of files\<close>

text \<open>
  The reference: the block map of a file by addresses on the device, and the bytes of the file.
\<close>

definition ptr32 :: "disk \<Rightarrow> nat \<Rightarrow> nat" where
  "ptr32 d a = le_of (peek d a 4)"

definition bmap :: "disk \<Rightarrow> ext2_volume \<Rightarrow> ext2_inode \<Rightarrow> nat \<Rightarrow> nat" where
  "bmap d v e i =
     (let bs = vl_blksize v; bpp = bs div 4; k = i - 12 - bpp in
      if i < 12 then e_blocks e ! i
      else if i < 12 + bpp then ptr32 d (e_blocks e ! 12 * bs + 4 * (i - 12))
      else ptr32 d (ptr32 d (e_blocks e ! 13 * bs + 4 * (k div bpp)) * bs + 4 * (k mod bpp)))"

definition file_byte :: "disk \<Rightarrow> ext2_volume \<Rightarrow> ext2_inode \<Rightarrow> nat \<Rightarrow> u8" where
  "file_byte d v e k = d (bmap d v e (k div vl_blksize v) * vl_blksize v + k mod vl_blksize v)"

text \<open>The number of blocks that direct, singly and doubly indirect pointers reach.\<close>

definition max_blocks :: "ext2_volume \<Rightarrow> nat" where
  "max_blocks v = 12 + vl_blksize v div 4 + (vl_blksize v div 4)\<^sup>2"

definition sizes_ok :: "ext2_volume \<Rightarrow> bool" where
  "sizes_ok v \<longleftrightarrow> 4 \<le> vl_blksize v \<and> max_blocks v < 2 ^ 32"

lemma ptr_at_read: "ptr_at (read_blocks d v b (Suc 0)) k = Inr (ptr32 d (b * vl_blksize v + 4 * k))" if "k < vl_blksize v div 4"
proof -
  have "4 * k + 4 \<le> vl_blksize v"
    using that by linarith
  then show ?thesis
    by (simp add: ptr_at_def ptr32_def le_at_def read_part_peek)
qed

lemma inode_blk_bmap: "ext2_inode_blk d v e i = Inr (bmap d v e i)" if "sizes_ok v" "i < max_blocks v"
proof -
  let ?p = "vl_blksize v div 4"
  have p: "0 < ?p"
    using that(1) unfolding sizes_ok_def by linarith
  have lims: "dind_of v = 12 + ?p" "tind_of v = 12 + ?p + ?p * ?p"
    using that(1) by (simp_all add: dind_of_def tind_of_def sizes_ok_def max_blocks_def power2_eq_square add32_def)
  have "(i - (12 + ?p)) div ?p < ?p" if "12 + ?p \<le> i"
    using \<open>i < max_blocks v\<close> that by (intro less_mult_imp_div_less) (simp add: max_blocks_def power2_eq_square less_diff_conv2)
  with that p show ?thesis
    by (auto simp: ext2_inode_blk_def lims Let_def ptr_at_read bmap_def max_blocks_def power2_eq_square)
qed

lemma file_blk_bmap: "file_blk d v e i = Inr (peek d (bmap d v e i * vl_blksize v) (vl_blksize v))" if "sizes_ok v" "i < max_blocks v"
  using that inode_blk_bmap[OF that, of d e] by (simp add: file_blk_def read_blocks_peek sizes_ok_def)

lemma block_bytes: "take n (drop s (peek d (bmap d v e i * vl_blksize v) (vl_blksize v))) = map (file_byte d v e) [i * vl_blksize v + s..<i * vl_blksize v + s + n]"
  if "s + n \<le> vl_blksize v"
proof (rule nth_equalityI)
  fix j
  assume "j < length (take n (drop s (peek d (bmap d v e i * vl_blksize v) (vl_blksize v))))"
  then have j: "j < n" "s + j < vl_blksize v"
    using that by simp_all
  then have "(i * vl_blksize v + s + j) div vl_blksize v = i" "(i * vl_blksize v + s + j) mod vl_blksize v = s + j"
    by (simp_all add: add.assoc)
  with j show "take n (drop s (peek d (bmap d v e i * vl_blksize v) (vl_blksize v))) ! j = map (file_byte d v e) [i * vl_blksize v + s..<i * vl_blksize v + s + n] ! j"
    by (simp add: file_byte_def add.assoc)
qed (use that in simp)

text \<open>A range of bytes, by the blocks and the offsets at both ends.\<close>

definition byte_range :: "nat \<Rightarrow> nat \<Rightarrow> nat \<Rightarrow> nat \<Rightarrow> nat \<Rightarrow> nat \<Rightarrow> nat \<Rightarrow> bool" where
  "byte_range bs off sz s mo e me \<longleftrightarrow> off = s * bs + mo \<and> off + sz = e * bs + me \<and> mo < bs \<and> me < bs"

lemma byte_range_div: "byte_range bs off sz (off div bs) (off mod bs) ((off + sz) div bs) ((off + sz) mod bs)" if "0 < bs"
  using that by (simp add: byte_range_def)

lemma byte_range_le: "s \<le> e" if "byte_range bs off sz s mo e me"
proof (rule ccontr)
  assume "\<not> s \<le> e"
  then have "Suc e * bs \<le> s * bs"
    by (intro mult_le_mono1) simp
  with that show False
    by (auto simp: byte_range_def)
qed

text \<open>The first byte that a block contributes, and how many.\<close>

lemma byte_range_part:
  assumes "byte_range bs off sz s mo e me" "s \<le> i" "i \<le> e"
  defines "st \<equiv> if i = s then mo else 0"
  shows "max off (i * bs) = i * bs + st"
    and "i < e \<Longrightarrow> i * bs + bs \<le> off + sz \<and> max off (Suc i * bs) = i * bs + bs"
    and "i = e \<Longrightarrow> i * bs + st + ((if i = s then sz else me)) = off + sz \<and> (i \<noteq> s \<longrightarrow> me \<le> sz) \<and> (i = s \<longrightarrow> me = mo + sz)"
proof -
  have le: "Suc s * bs \<le> i * bs" if "s < i"
    using that by (intro mult_le_mono1) simp
  show "max off (i * bs) = i * bs + st"
    using assms(1,2) le unfolding st_def byte_range_def by (cases "i = s") auto
  show "i * bs + bs \<le> off + sz \<and> max off (Suc i * bs) = i * bs + bs" if "i < e"
  proof -
    have "Suc i * bs \<le> e * bs" "s * bs \<le> i * bs"
      using that assms(2) by (intro mult_le_mono1; simp)+
    then have "i * bs + bs \<le> off + sz" "off \<le> i * bs + bs"
      using assms(1) unfolding byte_range_def mult_Suc by linarith+
    then show ?thesis
      by (simp add: max_absorb2 add.commute)
  qed
  show "i * bs + st + ((if i = s then sz else me)) = off + sz \<and> (i \<noteq> s \<longrightarrow> me \<le> sz) \<and> (i = s \<longrightarrow> me = mo + sz)" if "i = e"
    using assms(1,2) le that unfolding st_def byte_range_def by (cases "i = s") auto
qed

lemma read_loop_bytes:
  assumes r: "byte_range (vl_blksize v) off sz s mo e me" and "sizes_ok v" "e < max_blocks v" and "s \<le> i" "i \<le> e"
  shows "read_loop d v ino (read_part (vl_blksize v) s mo e me sz) [i..<Suc e] = Inr (map (file_byte d v ino) [max off (i * vl_blksize v)..<off + sz])"
  using assms(4,5)
proof (induction "e - i" arbitrary: i)
  case 0
  let ?bs = "vl_blksize v" and ?st = "if i = s then mo else 0"
  have i: "i = e"
    using 0 by simp
  let ?n = "if me < sz then me else sz"
  note p = byte_range_part[OF r 0(2,3)]
  have n: "?n = (if i = s then sz else me)" "?st + ?n \<le> ?bs"
    using p(3)[OF i] r unfolding byte_range_def by auto
  have "read_part ?bs s mo e me sz i = (?st, ?n)"
    using i by (simp add: read_part_def Let_def)
  moreover have "max off (i * ?bs) = i * ?bs + ?st" "off + sz = i * ?bs + ?st + ?n"
    using p(1) p(3)[OF i] n(1) by simp_all
  ultimately show ?case
    using n(2) assms(2,3) block_bytes[OF n(2), of d ino i] unfolding i by (simp add: file_blk_bmap del: upt_Suc add: upt_rec[of e])
next
  case (Suc k)
  let ?bs = "vl_blksize v" and ?st = "if i = s then mo else 0"
  have i: "i < e"
    using Suc(2) by simp
  note p = byte_range_part[OF r Suc(3,4)]
  have st: "?st + (?bs - ?st) \<le> ?bs" "?st + (?bs - ?st) = ?bs"
    using r by (auto simp: byte_range_def)
  have "read_part ?bs s mo e me sz i = (?st, ?bs - ?st)"
    using i by (simp add: read_part_def Let_def)
  moreover have "[max off (i * ?bs)..<off + sz] = [i * ?bs + ?st..<i * ?bs + ?bs] @ [i * ?bs + ?bs..<off + sz]"
    using p(1) p(2)[OF i] st by (metis add_le_cancel_left le_add_diff_inverse upt_add_eq_append le_add1)
  moreover have "read_loop d v ino (read_part ?bs s mo e me sz) [Suc i..<Suc e] = Inr (map (file_byte d v ino) [i * ?bs + ?bs..<off + sz])"
    using Suc(1)[of "Suc i"] Suc(2,3) i p(2)[OF i] by simp
  moreover have "[i..<Suc e] = i # [Suc i..<Suc e]"
    using i by (simp add: upt_conv_Cons)
  ultimately show ?case
    using assms(2,3) i block_bytes[OF st(1), of d ino i] st by (simp add: file_blk_bmap del: upt_Suc add: add.assoc)
qed

lemma ext2_read_spec:
  assumes "sizes_ok v" and "ext2_read_inode d v (i_inode (f_inode file)) = Inr e"
    and "off + sz < 2 ^ 63" and "i_size (f_inode file) < 2 ^ 63" and "i_size (f_inode file) div vl_blksize v < max_blocks v"
  shows "ext2_read d v file (int off) sz =
    (let cnt = min sz (i_size (f_inode file) - off) in ret (int cnt, map (file_byte d v e) [off..<off + cnt]))"
proof -
  let ?bs = "vl_blksize v" and ?f = "i_size (f_inode file)"
  let ?cnt = "min sz (?f - off)"
  have o: "u64_of (int off) = off" "add64 off sz = off + sz" "s64 ?cnt = int ?cnt"
    using assms(3,4) by (simp_all add: add64_small s64_small)
  have bs: "0 < ?bs"
    using assms(1) by (simp add: sizes_ok_def)
  consider "off > ?f" | "off = ?f" "0 < sz" | "off \<le> ?f" "\<not> (off = ?f \<and> 0 < sz)"
    by linarith
  then show ?thesis
  proof cases
    case 1
    then show ?thesis
      by (simp add: ext2_read_def o Let_def)
  next
    case 2
    then show ?thesis
      unfolding ext2_read_def Let_def o using assms(4) by (simp add: sub64_small)
  next
    case 3
    let ?e = "(off + ?cnt) div ?bs"
    have c: "(if off + sz > ?f then sub64 ?f off else sz) = ?cnt" "\<not> (off + sz > ?f \<and> ?cnt = 0)" "add64 ?cnt off = off + ?cnt"
      using 3 assms(3,4) by (auto simp: sub64_small add64_small min_def)
    have "?e \<le> ?f div ?bs"
      using 3 by (intro div_le_mono) auto
    with assms(1,5) have e: "?e < max_blocks v" "?e mod 2 ^ 32 = ?e" "?e \<noteq> 2 ^ 32 - 1"
      by (auto simp: sizes_ok_def)
    have r: "byte_range ?bs off ?cnt (off div ?bs) (off mod ?bs) ?e ((off + ?cnt) mod ?bs)"
      using bs by (rule byte_range_div)
    have le: "off div ?bs \<le> ?e"
      by (rule byte_range_le[OF r])
    then have s: "off div ?bs mod 2 ^ 32 = off div ?bs"
      using e assms(1) by (simp add: sizes_ok_def)
    have "read_loop d v e (read_part ?bs (off div ?bs) (off mod ?bs) ?e ((off + ?cnt) mod ?bs) ?cnt) [off div ?bs..<Suc ?e] =
        Inr (map (file_byte d v e) [off..<off + ?cnt])"
      using read_loop_bytes[OF r assms(1) e(1) order_refl le, of d e] by simp
    moreover have "\<not> ?f < off"
      using 3 by simp
    ultimately show ?thesis
      unfolding ext2_read_def Let_def o c(1) if_not_P[OF c(2)] c(3) s e(2) using bs e(3) assms(2) by (simp add: del: upt_Suc)
  qed
qed

text \<open>
  The blocks of a file lie apart from each other, from the blocks of pointers to them and from the
  table block that holds the inode.
\<close>

definition data_blocks :: "disk \<Rightarrow> ext2_volume \<Rightarrow> ext2_inode \<Rightarrow> nat \<Rightarrow> nat set" where
  "data_blocks d v e fsize = bmap d v e ` {i. i * vl_blksize v < fsize}"

definition ptr_blocks :: "disk \<Rightarrow> ext2_volume \<Rightarrow> ext2_inode \<Rightarrow> nat set" where
  "ptr_blocks d v e = {e_blocks e ! 12, e_blocks e ! 13} \<union> (\<lambda>k. ptr32 d (e_blocks e ! 13 * vl_blksize v + 4 * k)) ` {..<vl_blksize v div 4}"

definition file_apart :: "disk \<Rightarrow> ext2_volume \<Rightarrow> nat \<Rightarrow> ext2_inode \<Rightarrow> nat \<Rightarrow> bool" where
  "file_apart d v n e fsize \<longleftrightarrow> inj_on (bmap d v e) {i. i * vl_blksize v < fsize} \<and> data_blocks d v e fsize \<inter> ptr_blocks d v e = {} \<and>
     inode_at v n div vl_blksize v \<notin> data_blocks d v e fsize"

text \<open>Two devices that differ in the blocks of \<open>B\<close> only.\<close>

definition same_outside :: "nat \<Rightarrow> nat set \<Rightarrow> disk \<Rightarrow> disk \<Rightarrow> bool" where
  "same_outside bs B d d' \<longleftrightarrow> (\<forall>i. i div bs \<notin> B \<longrightarrow> d' i = d i)"

lemma same_outside_refl: "same_outside bs B d d"
  by (simp add: same_outside_def)

lemma same_outside_patch: "same_outside bs B d (patch d' (b * bs + s) xs)" if "same_outside bs B d d'" "b \<in> B" "s + length xs \<le> bs"
proof -
  have "i div bs = b" if "b * bs + s \<le> i" "i < b * bs + s + length xs" for i
  proof -
    have "b * bs \<le> i" "i < Suc b * bs"
      using that \<open>s + length xs \<le> bs\<close> by simp_all
    then show ?thesis
      by (intro div_nat_eqI) (simp_all add: mult.commute)
  qed
  with that show ?thesis
    by (auto simp: same_outside_def patch_def)
qed

lemma same_outside_block: "d' (b * bs + i) = d (b * bs + i)" if "same_outside bs B d d'" "b \<notin> B" "i < bs"
  using that by (simp add: same_outside_def)

lemma same_outside_ptr: "ptr32 d' (b * bs + 4 * k) = ptr32 d (b * bs + 4 * k)" if "same_outside bs B d d'" "b \<notin> B" "k < bs div 4"
proof -
  have "4 * k + 3 < bs"
    using that(3) by linarith
  then have "peek d' (b * bs + 4 * k) 4 = peek d (b * bs + 4 * k) 4"
    using same_outside_block[OF that(1,2)] by (intro nth_equalityI) (simp_all add: add.assoc)
  then show ?thesis
    by (simp add: ptr32_def)
qed

lemma same_outside_bmap: "bmap d' v e i = bmap d v e i"
  if "same_outside (vl_blksize v) B d d'" "B \<inter> ptr_blocks d v e = {}" "sizes_ok v" "i < max_blocks v"
proof -
  let ?p = "vl_blksize v div 4"
  have "0 < ?p"
    using that(3) unfolding sizes_ok_def by linarith
  moreover have "(i - 12 - ?p) div ?p < ?p" if "12 + ?p \<le> i"
    using \<open>i < max_blocks v\<close> that by (intro less_mult_imp_div_less) (simp add: max_blocks_def power2_eq_square less_diff_conv2)
  moreover have "e_blocks e ! 12 \<notin> B" "e_blocks e ! 13 \<notin> B" "\<forall>k < ?p. ptr32 d (e_blocks e ! 13 * vl_blksize v + 4 * k) \<notin> B"
    using that(2) by (auto simp: ptr_blocks_def)
  ultimately show ?thesis
    using same_outside_ptr[OF that(1)] by (auto simp: bmap_def Let_def)
qed

lemma file_byte_patch:
  assumes "inj_on B {i. i * bs < fsize}" "i * bs < fsize" "k < fsize" "s + length xs \<le> bs" "0 < bs" "i * bs + s + length xs \<le> fsize"
  shows "patch d (B i * bs + s) xs (B (k div bs) * bs + k mod bs) =
    (if i * bs + s \<le> k \<and> k < i * bs + s + length xs then xs ! (k - (i * bs + s)) else d (B (k div bs) * bs + k mod bs))"
proof (cases "k div bs = i")
  case True
  then have "k = i * bs + k mod bs"
    by (metis div_mult_mod_eq)
  then obtain m where "k = i * bs + m" "k mod bs = m"
    by blast
  with True show ?thesis
    by (auto simp: patch_def)
next
  case False
  have "k div bs * bs \<le> k"
    by (rule div_times_less_eq_dividend)
  then have "k div bs * bs < fsize"
    using assms(3) by linarith
  with False assms(1,2) have ne: "B (k div bs) \<noteq> B i"
    by (auto dest: inj_onD)
  have m: "k mod bs < bs"
    using assms(5) by simp
  have "\<not> (B i * bs + s \<le> B (k div bs) * bs + k mod bs \<and> B (k div bs) * bs + k mod bs < B i * bs + s + length xs)"
  proof
    assume h: "B i * bs + s \<le> B (k div bs) * bs + k mod bs \<and> B (k div bs) * bs + k mod bs < B i * bs + s + length xs"
    then have "B i * bs < Suc (B (k div bs)) * bs" "B (k div bs) * bs < Suc (B i) * bs"
      using m assms(4) unfolding mult_Suc by linarith+
    then show False
      using ne unfolding mult_less_cancel2 by linarith
  qed
  moreover have "\<not> (i * bs + s \<le> k \<and> k < i * bs + s + length xs)"
  proof
    assume h: "i * bs + s \<le> k \<and> k < i * bs + s + length xs"
    then have "i * bs \<le> k" "k < Suc i * bs"
      using assms(4) by simp_all
    then have "k div bs = i"
      by (intro div_nat_eqI) (simp_all add: mult.commute)
    with False show False ..
  qed
  ultimately show ?thesis
    unfolding patch_def by (simp only: if_False)
qed

abbreviation (input) mapped_byte :: "(nat \<Rightarrow> nat) \<Rightarrow> nat \<Rightarrow> disk \<Rightarrow> nat \<Rightarrow> u8" where
  "mapped_byte B bs d k \<equiv> d (B (k div bs) * bs + k mod bs)"

lemma write_part_range:
  assumes "byte_range bs off sz s mo e me" "s \<le> i" "i \<le> e" "bs < 2 ^ 32"
  obtains st w where "write_part bs s mo e me i = (st, w)" "st + w \<le> bs" "max off (i * bs) = i * bs + st"
    "i * bs + st + w \<le> off + sz" "i < e \<longrightarrow> i * bs + st + w = max off (Suc i * bs)" "i = e \<longrightarrow> i * bs + st + w = off + sz"
proof -
  let ?st = "if i = s then mo else 0"
  note p = byte_range_part[OF assms(1-3)]
  have st: "?st < bs" and me: "me < bs"
    using assms(1) by (auto simp: byte_range_def)
  show ?thesis
  proof (cases "i = e")
    case True
    then have w: "i * bs + ?st + (if i = s then sz else me) = off + sz" "i = s \<longrightarrow> me = mo + sz"
      using p(3) by blast+
    have "(bs - ?st + me + 2 ^ 32 - bs) mod 2 ^ 32 = (if i = s then sz else me)"
    proof (cases "i = s")
      case True
      with w(2) me have "mo \<le> bs" "bs - mo + me + 2 ^ 32 - bs = sz + 2 ^ 32" "sz < 2 ^ 32"
        using assms(4) by simp_all
      with True show ?thesis
        by simp
    next
      case False
      then show ?thesis
        using me assms(4) by simp
    qed
    then have "write_part bs s mo e me i = (?st, if i = s then sz else me)"
      using True by (simp only: write_part_def Let_def if_True simp_thms)
    moreover have "?st + (if i = s then sz else me) \<le> bs"
      using w(2) me by auto
    ultimately show ?thesis
      using that p(1) w(1) True by simp
  next
    case False
    then have i: "i < e"
      using assms(3) by simp
    have "write_part bs s mo e me i = (?st, bs - ?st)"
      using False by (simp add: write_part_def Let_def)
    then show ?thesis
      using that p(1) p(2)[OF i] st False by simp
  qed
qed

lemma bs_bound: "sizes_ok v \<Longrightarrow> vl_blksize v < 2 ^ 32"
proof -
  assume "sizes_ok v"
  then have "(vl_blksize v div 4)\<^sup>2 < (2 ^ 16)\<^sup>2"
    by (simp add: sizes_ok_def max_blocks_def)
  then have "vl_blksize v div 4 < 2 ^ 16"
    by (rule power2_less_imp_less) simp
  then show ?thesis
    by simp
qed

text \<open>One round of the loop writes the bytes of its block and nothing else of the file.\<close>

lemma write_block_step:
  fixes d dd v ino fsize i st xs
  defines "B \<equiv> bmap d v ino" and "D \<equiv> data_blocks d v ino fsize" and "bs \<equiv> vl_blksize v"
  defines "d1 \<equiv> write_blocks dd v (overlay (read_blocks dd v (B i) (Suc 0)) st xs) (B i) (Suc 0)"
  assumes v: "sizes_ok v" "i < max_blocks v" and a: "inj_on B {i. i * bs < fsize}" "D \<inter> ptr_blocks d v ino = {}"
    and dd: "same_outside bs D d dd" and xs: "st + length xs \<le> bs" "i * bs + st + length xs \<le> fsize"
  shows "ext2_inode_blk dd v ino i = Inr (B i)" and "same_outside bs D d d1"
    and "\<forall>k < fsize. mapped_byte B bs d1 k = (if i * bs + st \<le> k \<and> k < i * bs + st + length xs then xs ! (k - (i * bs + st)) else mapped_byte B bs dd k)"
proof -
  show "ext2_inode_blk dd v ino i = Inr (B i)"
    using inode_blk_bmap[OF v, of dd ino] same_outside_bmap[OF dd[unfolded bs_def] a(2) v] by (simp add: B_def)
  have d1: "d1 = patch dd (B i * bs + st) xs"
    unfolding d1_def bs_def by (rule write_overlay) (use xs(1) in \<open>simp add: bs_def\<close>)
  have bs: "0 < bs"
    using v(1) by (simp add: bs_def sizes_ok_def)
  show "same_outside bs D d d1"
  proof (cases "xs = []")
    case False
    then have "i * bs < fsize"
      using xs(2) by (cases xs) auto
    then have "B i \<in> D"
      by (auto simp: B_def D_def data_blocks_def bs_def)
    then show ?thesis
      unfolding d1 by (rule same_outside_patch[OF dd _ xs(1)])
  qed (use dd d1 in simp)
  show "\<forall>k < fsize. mapped_byte B bs d1 k = (if i * bs + st \<le> k \<and> k < i * bs + st + length xs then xs ! (k - (i * bs + st)) else mapped_byte B bs dd k)"
  proof (cases "xs = []")
    case False
    then have "i * bs < fsize"
      using xs(2) by (cases xs) auto
    then show ?thesis
      unfolding d1 using file_byte_patch[OF a(1) _ _ xs(1) bs xs(2)] by blast
  qed (use d1 in auto)
qed

lemma write_loop_bytes:
  fixes d v ino fsize s mo e me
  defines "B \<equiv> bmap d v ino" and "D \<equiv> data_blocks d v ino fsize" and "bs \<equiv> vl_blksize v"
  assumes r: "byte_range bs off sz s mo e me" and v: "sizes_ok v" "e < max_blocks v" and f: "off + sz \<le> fsize"
    and a: "inj_on B {i. i * bs < fsize}" "D \<inter> ptr_blocks d v ino = {}"
  shows "s \<le> i \<Longrightarrow> i \<le> e \<Longrightarrow> same_outside bs D d dd \<Longrightarrow> length rest = off + sz - max off (i * bs) \<Longrightarrow>
    \<exists>d'. write_loop dd v ino (write_part bs s mo e me) rest [i..<Suc e] = Inr d' \<and> same_outside bs D d d' \<and>
      (\<forall>k < fsize. mapped_byte B bs d' k = (if max off (i * bs) \<le> k \<and> k < off + sz then rest ! (k - max off (i * bs)) else mapped_byte B bs dd k))"
proof (induction "e - i" arbitrary: i dd rest)
  case (0 i dd rest)
  then have i: "i = e"
    by simp
  obtain st w where w: "write_part bs s mo e me i = (st, w)" "st + w \<le> bs" "max off (i * bs) = i * bs + st" "i * bs + st + w = off + sz"
    using write_part_range[OF r 0(2,3)] bs_bound[OF v(1)] i unfolding bs_def by metis
  have len: "length rest = w"
    using 0(5) w(3,4) by simp
  note st = write_block_step[OF v(1), of i d ino fsize dd st rest, folded B_def D_def bs_def, OF v(2)[folded i] a 0(4)]
  have "write_loop dd v ino (write_part bs s mo e me) rest [i..<Suc e] =
      Inr (write_blocks dd v (overlay (read_blocks dd v (B i) (Suc 0)) st rest) (B i) (Suc 0))"
    using st(1) w len f unfolding i by (simp add: bs_def upt_rec[of e] del: upt_Suc)
  with st(2,3) w f len show ?case
    by simp
next
  case (Suc n i dd rest)
  then have i: "i < e"
    by simp
  obtain st w where w: "write_part bs s mo e me i = (st, w)" "st + w \<le> bs" "max off (i * bs) = i * bs + st" "i * bs + st + w \<le> off + sz"
      "i * bs + st + w = max off (Suc i * bs)"
    using write_part_range[OF r Suc(3,4)] bs_bound[OF v(1)] i unfolding bs_def by metis
  have len: "w \<le> length rest" "length (take w rest) = w"
    using Suc(6) w(3,4) by simp_all
  have im: "i < max_blocks v"
    using i v(2) by simp
  note st = write_block_step[OF v(1), of i d ino fsize dd st "take w rest", folded B_def D_def bs_def, OF im a Suc(5)]
  let ?d1 = "write_blocks dd v (overlay (read_blocks dd v (B i) (Suc 0)) st (take w rest)) (B i) (Suc 0)"
  have x: "st + length (take w rest) \<le> bs" "i * bs + st + length (take w rest) \<le> fsize"
    using w(2,4) f unfolding len(2) by linarith+
  note s1 = st(1)[OF x] st(2)[OF x] st(3)[OF x, unfolded len(2)]
  have l: "length (drop w rest) = off + sz - max off (Suc i * bs)"
    unfolding length_drop Suc(6) w(3) w(5)[symmetric] by (rule diff_diff_left)
  have h: "n = e - Suc i" "s \<le> Suc i" "Suc i \<le> e"
    using Suc(2,3) i by simp_all
  obtain d' where d': "write_loop ?d1 v ino (write_part bs s mo e me) (drop w rest) [Suc i..<Suc e] = Inr d'" "same_outside bs D d d'"
      "\<forall>k < fsize. mapped_byte B bs d' k = (if i * bs + st + w \<le> k \<and> k < off + sz then drop w rest ! (k - (i * bs + st + w)) else mapped_byte B bs ?d1 k)"
    using Suc(1)[OF h s1(2) l, folded w(5)] by (elim exE conjE) (rule that; assumption)
  have "write_loop dd v ino (write_part bs s mo e me) rest [i..<Suc e] = Inr d'"
    using s1(1) w len d'(1) i by (simp add: bs_def upt_conv_Cons del: upt_Suc)
  moreover have "mapped_byte B bs d' k = (if max off (i * bs) \<le> k \<and> k < off + sz then rest ! (k - max off (i * bs)) else mapped_byte B bs dd k)" if "k < fsize" for k
  proof (cases "i * bs + st + w \<le> k")
    case True
    then have "rest ! (k - (i * bs + st)) = drop w rest ! (k - (i * bs + st + w))"
      using len(1) by (simp add: add.commute)
    with True show ?thesis
      using d'(3)[rule_format, OF that] s1(3)[rule_format, OF that] unfolding w(3) by simp
  next
    case False
    then have "take w rest ! (k - (i * bs + st)) = rest ! (k - (i * bs + st))" if "i * bs + st \<le> k"
      using that by simp
    with False w(4) show ?thesis
      using d'(3)[rule_format, OF that] s1(3)[rule_format, OF that] unfolding w(3) by simp
  qed
  ultimately show ?case
    using d'(2) by blast
qed

text \<open>
  C20: Reading a file returns its bytes from the offset on, as many as were asked for and the file has,
  for every file that direct, singly and doubly indirect blocks reach; behind the end of the file
  nothing is read.
\<close>

theorem ext2_read_bytes:
  assumes "sizes_ok v" and "ext2_read_inode d v (i_inode (f_inode file)) = Inr e"
    and "off + sz < 2 ^ 63" and "i_size (f_inode file) < 2 ^ 63" and "i_size (f_inode file) div vl_blksize v < max_blocks v"
  shows "ext2_read d v file (int off) sz =
    (let cnt = min sz (i_size (f_inode file) - off) in ret (int cnt, map (file_byte d v e) [off..<off + cnt]))"
  using assms by (rule ext2_read_spec)

text \<open>A file of 1500 bytes in the blocks 20 and 21.\<close>

definition demo_ino :: ext2_inode where
  "demo_ino = zero_ext2_inode\<lparr>e_mode := 0x81a4, e_size := 1500, e_sectors := 4, e_blocks := [20, 21] @ replicate 13 0\<rparr>"

definition demo_file_disk :: disk where
  "demo_file_disk = patch (\<lambda>_. 0) (inode_at demo_vol 12) (ino_encode demo_ino)"

definition demo_file :: kfile where
  "demo_file = \<lparr>f_inode = inode2file demo_vol 12 demo_ino zero_inode, f_off = 0, f_flags = 2, f_ops = 3\<rparr>"

lemma demo_ino_ok: "ino_ok demo_ino"
  by (simp add: ino_ok_def demo_ino_def zero_ext2_inode_def)

lemma demo_file_read: "ext2_read_inode demo_file_disk demo_vol 12 = Inr demo_ino"
  using peek_patch[of "\<lambda>_. 0" "inode_at demo_vol 12" "ino_encode demo_ino"] demo_ino_ok
  by (simp add: read_inode_peek demo_vol_ok demo_ino_num demo_file_disk_def length_ino_encode[OF conjunct1 conjunct2] ino_decode_encode ino_ok_def length_ino_encode)

lemma demo_file_sel: "i_inode (f_inode demo_file) = 12" "i_size (f_inode demo_file) = 1500" "vl_blksize demo_vol = 1024"
  by (simp_all add: demo_file_def inode2file_def INOSIZE_def demo_ino_def zero_ext2_inode_def demo_vol_def)

lemma demo_sizes: "sizes_ok demo_vol" "max_blocks demo_vol = 65804"
  by (simp_all add: sizes_ok_def max_blocks_def demo_vol_def power2_eq_square)

theorem ext2_read_bytes_witness:
  "ext2_read demo_file_disk demo_vol demo_file (int 1400) 200 = ret (100, map (file_byte demo_file_disk demo_vol demo_ino) [1400..<1500])"
  using ext2_read_bytes[of demo_vol demo_file_disk demo_file demo_ino 1400 200] demo_file_read by (simp add: demo_file_sel demo_sizes Let_def)

lemma same_outside_inode: "ext2_read_inode d' v n = ext2_read_inode d v n"
  if v: "vol_ok v" "ino_num v n" and s: "same_outside (vl_blksize v) B d d'" "inode_at v n div vl_blksize v \<notin> B"
proof -
  obtain blk p where p: "blk * vl_blksize v + p = inode_at v n" "p + 128 \<le> vl_blksize v"
    using inode_pos_ok[OF v] by metis
  have "(blk * vl_blksize v + p) div vl_blksize v = blk"
    using p(2) by simp
  then have "blk \<notin> B"
    using s(2) unfolding p(1) by simp
  then have "d' (inode_at v n + j) = d (inode_at v n + j)" if "j < 128" for j
    using same_outside_block[OF s(1), of blk "p + j"] that p by (simp add: add.assoc[symmetric])
  then have "peek d' (inode_at v n) 128 = peek d (inode_at v n) 128"
    by (intro nth_equalityI) simp_all
  with v show ?thesis
    by (simp add: read_inode_peek)
qed

text \<open>
  C10: Writing inside a file and reading the same range gives back the bytes that were written; every
  other byte of the file is as before, and so is every block of the device that holds no data of the file,
  when the blocks of the file lie apart from each other, from the pointers to them and from its inode.
\<close>

theorem ext2_write_read_back:
  assumes "sizes_ok v" "vol_ok v" "ino_num v (i_inode (f_inode file))" and "ext2_read_inode d v (i_inode (f_inode file)) = Inr e"
    and "off + length buf \<le> i_size (f_inode file)" "i_size (f_inode file) < 2 ^ 63" "i_size (f_inode file) div vl_blksize v < max_blocks v"
    and "file_apart d v (i_inode (f_inode file)) e (i_size (f_inode file))"
  shows "\<exists>d'. ext2_write d v file buf (int off) (length buf) = ret (int (length buf), file, d', v) \<and>
    ext2_read d' v file (int off) (length buf) = ret (int (length buf), buf) \<and>
    (\<forall>k < i_size (f_inode file). file_byte d' v e k = (if off \<le> k \<and> k < off + length buf then buf ! (k - off) else file_byte d v e k)) \<and>
    same_outside (vl_blksize v) (data_blocks d v e (i_size (f_inode file))) d d'"
proof -
  let ?bs = "vl_blksize v" and ?f = "i_size (f_inode file)" and ?n = "length buf" and ?D = "data_blocks d v e (i_size (f_inode file))"
  let ?s = "off div ?bs" and ?e = "(off + ?n) div ?bs"
  have bs: "0 < ?bs"
    using assms(1) by (simp add: sizes_ok_def)
  have r: "byte_range ?bs off ?n ?s (off mod ?bs) ?e ((off + ?n) mod ?bs)"
    using bs by (rule byte_range_div)
  have le: "?s \<le> ?e"
    by (rule byte_range_le[OF r])
  have "?e \<le> ?f div ?bs"
    using assms(5) by (rule div_le_mono)
  with assms(1,7) le have e: "?e < max_blocks v" "?e mod 2 ^ 32 = ?e" "?e \<noteq> 2 ^ 32 - 1" "?s mod 2 ^ 32 = ?s"
    by (auto simp: sizes_ok_def)
  have a: "inj_on (bmap d v e) {i. i * ?bs < ?f}" "?D \<inter> ptr_blocks d v e = {}" "inode_at v (i_inode (f_inode file)) div ?bs \<notin> ?D"
    using assms(8) by (simp_all add: file_apart_def)
  have o: "u64_of (int off) = off" "add64 off ?n = off + ?n" "add64 ?n off = off + ?n" "s64 ?n = int ?n"
    using assms(5,6) by (simp_all add: add64_small s64_small)
  have m: "max off (?s * ?bs) = off"
    by (simp add: max_absorb1)
  obtain d' where d': "write_loop d v e (write_part ?bs ?s (off mod ?bs) ?e ((off + ?n) mod ?bs)) buf [?s..<Suc ?e] = Inr d'" "same_outside ?bs ?D d d'"
      "\<forall>k < ?f. mapped_byte (bmap d v e) ?bs d' k = (if off \<le> k \<and> k < off + ?n then buf ! (k - off) else mapped_byte (bmap d v e) ?bs d k)"
    using write_loop_bytes[OF r assms(1) e(1) assms(5) a(1,2) order_refl le same_outside_refl, of buf, unfolded m] by auto
  have fb: "file_byte d' v e k = (if off \<le> k \<and> k < off + ?n then buf ! (k - off) else file_byte d v e k)" if "k < ?f" for k
  proof -
    have "k div ?bs < max_blocks v"
      using that assms(7) by (meson div_le_mono less_imp_le order_le_less_trans)
    then show ?thesis
      using d'(3) that same_outside_bmap[OF d'(2) a(2) assms(1)] by (simp add: file_byte_def)
  qed
  have "ext2_write d v file buf (int off) ?n = ret (int ?n, file, d', v)"
    unfolding ext2_write_def Let_def o e(2,4) using bs e(3) d'(1) assms(4,5) by (simp del: upt_Suc)
  moreover have "ext2_read_inode d' v (i_inode (f_inode file)) = Inr e"
    using same_outside_inode[OF assms(2,3) d'(2) a(3)] assms(4) by simp
  then have "ext2_read d' v file (int off) ?n = ret (int ?n, map (file_byte d' v e) [off..<off + ?n])"
    using ext2_read_spec[OF assms(1) _ _ assms(6,7)] assms(5,6) by (simp add: Let_def min_absorb1)
  moreover have "map (file_byte d' v e) [off..<off + ?n] = buf"
    using fb assms(5) by (intro nth_equalityI) simp_all
  ultimately show ?thesis
    using fb d'(2) by auto
qed

lemma demo_apart: "file_apart demo_file_disk demo_vol 12 demo_ino 1500"
proof -
  have i: "{i. i * vl_blksize demo_vol < 1500} = {0, 1}" "inode_at demo_vol 12 = 6528"
    by (auto simp: demo_vol_def inode_at_def tbl_at_def)
  have p: "ptr32 demo_file_disk (0 * vl_blksize demo_vol + 4 * k) = 0" if "k < 256" for k
  proof -
    have "peek demo_file_disk (4 * k) 4 = replicate 4 0"
      using that by (intro nth_equalityI) (simp_all add: demo_file_disk_def patch_def i(2))
    then show ?thesis
      by (simp add: ptr32_def numeral_eq_Suc)
  qed
  have b: "bmap demo_file_disk demo_vol demo_ino 0 = 20" "bmap demo_file_disk demo_vol demo_ino 1 = 21" "e_blocks demo_ino ! 12 = 0" "e_blocks demo_ino ! 13 = 0"
    by (simp_all add: bmap_def demo_ino_def)
  then have "ptr_blocks demo_file_disk demo_vol demo_ino \<subseteq> {0}"
    using p by (auto simp: ptr_blocks_def demo_file_sel)
  with b show ?thesis
    unfolding file_apart_def data_blocks_def i by (auto simp: demo_file_sel)
qed

theorem ext2_write_read_back_witness:
  "\<exists>d'. ext2_write demo_file_disk demo_vol demo_file [1, 2, 3] (int 1023) 3 = ret (3, demo_file, d', demo_vol) \<and>
     ext2_read d' demo_vol demo_file (int 1023) 3 = ret (3, [1, 2, 3])"
  using ext2_write_read_back[of demo_vol demo_file demo_file_disk demo_ino 1023 "[1, 2, 3]"] demo_file_read demo_apart demo_vol_ok
  by (auto simp: demo_file_sel demo_sizes demo_ino_num numeral_3_eq_3)

end
