(* ===== verification/Ext2_Dirs.thy ===== *)
theory Ext2_Dirs
  imports Ext2_Files
begin

text \<open>
  Directories and symbolic links of ext2. The locale \<open>dir_loop\<close> is the loop that lookup, unlink and the
  search for room share; on a well-formed directory the operations work on a map from names to inode
  numbers.
\<close>

unbundle bit_operations_syntax

subsection \<open>Directories as lists of entries\<close>

text \<open>An entry as it lies in a block: its fields, its name and the bytes behind the name.\<close>

record dent =
  dn_ino :: nat
  dn_type :: nat
  dn_name :: string
  dn_pad :: "u8 list"

definition dent_size :: "dent \<Rightarrow> nat" where
  "dent_size x = 8 + length (dn_name x) + length (dn_pad x)"

definition dent_head :: "dent \<Rightarrow> ext2_dirent" where
  "dent_head x = \<lparr>ed_inode = dn_ino x, ed_size = dent_size x, ed_name_len = length (dn_name x), ed_type = dn_type x\<rparr>"

definition dent_bytes :: "dent \<Rightarrow> u8 list" where
  "dent_bytes x = dirent_bytes (dent_head x) @ name_bytes (dn_name x) @ dn_pad x"

definition dent_ok :: "dent \<Rightarrow> bool" where
  "dent_ok x \<longleftrightarrow> dn_ino x < 2 ^ 32 \<and> dn_type x < 2 ^ 8 \<and> length (dn_name x) < 2 ^ 8 \<and> dent_size x < 2 ^ 16"

lemma dent_head_sel [simp]:
  "ed_inode (dent_head x) = dn_ino x" "ed_size (dent_head x) = dent_size x" "ed_name_len (dent_head x) = length (dn_name x)" "ed_type (dent_head x) = dn_type x"
  by (simp_all add: dent_head_def)

lemma length_dirent_bytes [simp]: "length (dirent_bytes e) = 8"
  by (simp add: dirent_bytes_def)

lemma length_name_bytes [simp]: "length (name_bytes s) = length s"
  by (simp add: name_bytes_def)

lemma length_dent_bytes [simp]: "length (dent_bytes x) = dent_size x"
  by (simp add: dent_bytes_def dent_size_def)

lemma char_of_byte: "char_of (unat (word_of_nat (of_char c) :: u8)) = c"
proof -
  have "(of_char c :: nat) < 256"
    by (metis nat_of_char_less_256)
  then have "unat (word_of_nat (of_char c) :: u8) = of_char c"
    by (simp add: unsigned_of_nat take_bit_eq_mod)
  then show ?thesis
    by simp
qed

lemma chars_name [simp]: "chars (name_bytes s) = s"
  by (simp add: chars_def name_bytes_def char_of_byte comp_def)

lemma chars_append: "chars (a @ b) = chars a @ chars b"
  by (simp add: chars_def)

lemma dirent_at_dent: "dirent_at (pre @ dent_bytes x @ post) (length pre) = Inr (dent_head x)" if "dent_ok x"
proof -
  let ?b = "dent_bytes x @ post"
  have at: "le_at (pre @ ?b) (length pre + k) n = le_at ?b k n" for k n
    by (simp add: le_at_def)
  have "le_at ?b 0 4 = dn_ino x" "le_at ?b 4 2 = dent_size x" "le_at ?b 6 1 = length (dn_name x)" "le_at ?b 7 1 = dn_type x"
    using that by (simp_all add: dent_ok_def dent_bytes_def dirent_bytes_def dent_head_def le_at_simps)
      (simp_all add: le_at_def unsigned_of_nat take_bit_eq_mod)
  then show ?thesis
    using at[of 0 4] at[of 4 2] at[of 6 1] at[of 7 1] by (simp add: dirent_at_def dent_head_def dent_size_def)
qed

lemma name_match_dent: "name_match name (pre @ dent_bytes x @ post) (length pre) (dent_head x) = Inr (name = dn_name x)"
proof (cases "length name = length (dn_name x)")
  case True
  let ?t = "dn_name x @ chars (dn_pad x @ post)"
  have "chars (drop (length pre + 8) (pre @ dent_bytes x @ post)) = ?t"
    by (simp add: dent_bytes_def chars_append)
  moreover obtain r where "strncmp name ?t (length (dn_name x)) = Inr r" "r = 0 \<longleftrightarrow> take (length (dn_name x)) name = take (length (dn_name x)) ?t"
    using strncmp_eq[of "length (dn_name x)" name ?t] True by auto
  ultimately show ?thesis
    using True by (simp add: name_match_def dent_head_def del: append_assoc)
next
  case False
  then show ?thesis
    by (auto simp: name_match_def dent_head_def)
qed

abbreviation (input) dents_bytes :: "dent list \<Rightarrow> u8 list" where
  "dents_bytes xs \<equiv> concat (map dent_bytes xs)"

text \<open>The entries of every block of a directory.\<close>

definition dir_rep :: "disk \<Rightarrow> ext2_volume \<Rightarrow> ext2_inode \<Rightarrow> dent list list \<Rightarrow> bool" where
  "dir_rep d v e ess \<longleftrightarrow> sizes_ok v \<and> ess \<noteq> [] \<and> length ess < max_blocks v \<and> length ess * vl_blksize v < 2 ^ 32 \<and> e_sectors e * 512 = length ess * vl_blksize v \<and>
     (\<forall>i < length ess. ess ! i \<noteq> [] \<and> (\<forall>x\<in>set (ess ! i). dent_ok x) \<and> peek d (bmap d v e i * vl_blksize v) (vl_blksize v) = dents_bytes (ess ! i))"

text \<open>The entries in the order of the loops, each with its block and its offset there.\<close>

fun block_slots :: "nat \<Rightarrow> nat \<Rightarrow> dent list \<Rightarrow> (nat \<times> nat \<times> dent) list" where
  "block_slots i p [] = []"
| "block_slots i p (x # xs) = (i, p, x) # block_slots i (p + dent_size x) xs"

definition dir_slots :: "dent list list \<Rightarrow> nat \<Rightarrow> (nat \<times> nat \<times> dent) list" where
  "dir_slots ess i = concat (map (\<lambda>k. block_slots k 0 (ess ! k)) [i..<length ess])"

lemma block_slots_dents: "map (snd \<circ> snd) (block_slots i p xs) = xs"
  by (induction i p xs rule: block_slots.induct) simp_all

lemma dir_slots_dents: "map (snd \<circ> snd) (dir_slots ess 0) = concat ess"
proof -
  have "map (snd \<circ> snd) (dir_slots ess 0) = concat (map (\<lambda>k. ess ! k) [0..<length ess])"
    by (simp add: dir_slots_def map_concat comp_def block_slots_dents[unfolded comp_def])
  then show ?thesis
    by (simp add: map_nth)
qed

lemma block_slotsD: "(i, q, x) \<in> set (block_slots k p xs) \<Longrightarrow>
    i = k \<and> (\<exists>as bs. xs = as @ x # bs \<and> q = p + length (dents_bytes as))"
proof (induction k p xs rule: block_slots.induct)
  case (2 k p y ys)
  show ?case
  proof (cases "(i, q, x) = (k, p, y)")
    case True
    then show ?thesis
      by (intro conjI exI[of _ "[]"] exI[of _ ys]) auto
  next
    case False
    with 2 obtain as bs where "i = k" "ys = as @ x # bs" "q = p + dent_size y + length (dents_bytes as)"
      by auto
    then show ?thesis
      by (intro conjI exI[of _ "y # as"] exI[of _ bs]) auto
  qed
qed simp

lemma dir_slotsD:
  assumes "(i, q, x) \<in> set (dir_slots ess k)"
  obtains as bs where "i < length ess" "ess ! i = as @ x # bs" "q = length (dents_bytes as)"
proof -
  obtain j where "j < length ess" "(i, q, x) \<in> set (block_slots j 0 (ess ! j))"
    using assms by (auto simp: dir_slots_def)
  then show ?thesis
    using block_slotsD[of i q x j 0] that by auto
qed

text \<open>The result of the first entry on which an action ends the loop.\<close>

definition first_act :: "(u8 list \<Rightarrow> nat \<Rightarrow> nat \<Rightarrow> ext2_dirent \<Rightarrow> 'r option) \<Rightarrow> dent list list \<Rightarrow> (nat \<times> nat \<times> dent) list \<Rightarrow> 'r option" where
  "first_act act ess slots = (case find (\<lambda>(i, q, x). act (dents_bytes (ess ! i)) q i (dent_head x) \<noteq> None) slots of
     None \<Rightarrow> None | Some (i, q, x) \<Rightarrow> act (dents_bytes (ess ! i)) q i (dent_head x))"

lemma first_act_simps [simp]:
  "first_act act ess [] = None"
  "first_act act ess ((i, q, x) # xs) = (case act (dents_bytes (ess ! i)) q i (dent_head x) of Some r \<Rightarrow> Some r | None \<Rightarrow> first_act act ess xs)"
  by (auto simp: first_act_def split: option.splits)

lemma first_act_append: "first_act act ess (xs @ ys) = (case first_act act ess xs of Some r \<Rightarrow> Some r | None \<Rightarrow> first_act act ess ys)"
  by (induction xs) (auto split: option.splits)

text \<open>
  The loops of the driver over a directory: an action on an entry that may end the loop, the step to
  the next entry or block, and a result at the end.
\<close>

locale dir_loop =
  fixes d :: disk and v :: ext2_volume and e :: ext2_inode
    and walk :: "u8 list \<Rightarrow> nat \<Rightarrow> nat \<Rightarrow> 'r run" and act :: "u8 list \<Rightarrow> nat \<Rightarrow> nat \<Rightarrow> ext2_dirent \<Rightarrow> 'r run option" and fin :: "nat \<Rightarrow> 'r run"
  assumes walk_eq: "walk buf offset blk =
     (if offset + blk * vl_blksize v < dir_end e then
        case dirent_at buf offset of Inl f \<Rightarrow> Some (Inl f) | Inr de \<Rightarrow>
        case act buf offset blk de of Some r \<Rightarrow> r | None \<Rightarrow>
        case dir_advance d v e buf (offset + ed_size de) blk of Inl f \<Rightarrow> Some (Inl f) | Inr (buf, offset, blk) \<Rightarrow> walk buf offset blk
      else fin blk)"
begin

lemma walk_block:
  assumes "dir_rep d v e ess" "i < length ess" "ess ! i = pre @ rest" "rest \<noteq> []"
  shows "walk (dents_bytes (ess ! i)) (length (dents_bytes pre)) i =
    (case first_act act ess (block_slots i (length (dents_bytes pre)) rest) of
       Some r \<Rightarrow> r
     | None \<Rightarrow> walk (peek d (bmap d v e (Suc i) * vl_blksize v) (vl_blksize v)) 0 (Suc i))"
  using assms(3,4)
proof (induction rest arbitrary: pre)
  case (Cons x rest)
  let ?b = "dents_bytes (ess ! i)" and ?p = "length (dents_bytes pre)"
  have split: "?b = dents_bytes pre @ dent_bytes x @ dents_bytes rest"
    using Cons(2) by simp
  have ok: "dent_ok x" and "peek d (bmap d v e i * vl_blksize v) (vl_blksize v) = ?b"
    using assms(1,2) Cons(2) by (auto simp: dir_rep_def)
  then have len: "length ?b = vl_blksize v"
    by (metis length_peek)
  have "?p + dent_size x + length (dents_bytes rest) = vl_blksize v"
    using len unfolding split by simp
  moreover have "0 < dent_size x" "rest = [] \<longleftrightarrow> length (dents_bytes rest) = 0"
    by (cases rest; simp add: dent_size_def)+
  ultimately have lim: "?p < vl_blksize v" "rest = [] \<longleftrightarrow> vl_blksize v \<le> ?p + dent_size x"
    by linarith+
  have "Suc i * vl_blksize v \<le> length ess * vl_blksize v"
    using assms(2) by (intro mult_le_mono1) simp
  with lim(1) have cond: "?p + i * vl_blksize v < dir_end e"
    using assms(1) by (simp add: dir_rep_def dir_end_def)
  have at: "dirent_at ?b ?p = Inr (dent_head x)"
    unfolding split by (rule dirent_at_dent[OF ok])
  have adv: "dir_advance d v e ?b (?p + dent_size x) i =
      (if rest = [] then Inr (peek d (bmap d v e (Suc i) * vl_blksize v) (vl_blksize v), 0, Suc i) else Inr (?b, ?p + dent_size x, i))"
    using lim(2) assms(1,2) file_blk_bmap[of v "Suc i" d e] by (auto simp: dir_advance_def dir_rep_def)
  show ?case
  proof (cases "act ?b ?p i (dent_head x)")
    case None
    have "walk ?b (?p + dent_size x) i = (case first_act act ess (block_slots i (?p + dent_size x) rest) of
        Some r \<Rightarrow> r | None \<Rightarrow> walk (peek d (bmap d v e (Suc i) * vl_blksize v) (vl_blksize v)) 0 (Suc i))" if "rest \<noteq> []"
      using Cons(1)[of "pre @ [x]"] Cons(2) that by simp
    with None show ?thesis
      by (cases "rest = []") (simp_all add: walk_eq[of ?b ?p i] cond at adv dent_head_def)
  next
    case (Some r)
    then show ?thesis
      by (simp add: walk_eq[of ?b ?p i] cond at)
  qed
qed simp

lemma walk_dir:
  assumes "dir_rep d v e ess" "i \<le> length ess"
  shows "walk (peek d (bmap d v e i * vl_blksize v) (vl_blksize v)) 0 i =
    (case first_act act ess (dir_slots ess i) of Some r \<Rightarrow> r | None \<Rightarrow> fin (length ess))"
  using assms(2)
proof (induction "length ess - i" arbitrary: i)
  case 0
  then have i: "i = length ess"
    by simp
  have "\<not> 0 + i * vl_blksize v < dir_end e"
    using assms(1) by (simp add: i dir_rep_def dir_end_def)
  then show ?case
    using walk_eq[of "peek d (bmap d v e i * vl_blksize v) (vl_blksize v)" 0 i] by (simp add: dir_slots_def i)
next
  case (Suc n)
  then have i: "i < length ess"
    by simp
  then have b: "peek d (bmap d v e i * vl_blksize v) (vl_blksize v) = dents_bytes (ess ! i)" "ess ! i \<noteq> []"
    using assms(1) by (auto simp: dir_rep_def)
  have "dir_slots ess i = block_slots i 0 (ess ! i) @ dir_slots ess (Suc i)"
    using i by (simp add: dir_slots_def upt_conv_Cons)
  then show ?case
    using walk_block[OF assms(1) i, of "[]" "ess ! i"] Suc(1)[of "Suc i"] Suc(2) i b
    by (simp add: first_act_append split: option.splits)
qed

end

definition lookup_act :: "string \<Rightarrow> u8 list \<Rightarrow> nat \<Rightarrow> nat \<Rightarrow> ext2_dirent \<Rightarrow> nat option run option" where
  "lookup_act name buf q blk de =
     (case name_match name buf q de of Inl f \<Rightarrow> Some (Some (Inl f)) | Inr m \<Rightarrow> if m then Some (Some (Inr (Some (ed_inode de)))) else None)"

interpretation lk: dir_loop d v e "lookup_loop d v e name" "lookup_act name" "\<lambda>_. Some (Inr None)" for d v e name
proof
  fix buf offset blk
  show "lookup_loop d v e name buf offset blk =
     (if offset + blk * vl_blksize v < dir_end e then
        case dirent_at buf offset of Inl f \<Rightarrow> Some (Inl f) | Inr de \<Rightarrow>
        case lookup_act name buf offset blk de of Some r \<Rightarrow> r | None \<Rightarrow>
        case dir_advance d v e buf (offset + ed_size de) blk of Inl f \<Rightarrow> Some (Inl f) | Inr (buf, offset, blk) \<Rightarrow> lookup_loop d v e name buf offset blk
      else Some (Inr None))"
    by (subst lookup_loop.simps) (simp add: lookup_act_def split: sum.splits)
qed

definition unlink_act :: "disk \<Rightarrow> ext2_volume \<Rightarrow> ext2_inode \<Rightarrow> string \<Rightarrow> u8 list \<Rightarrow> nat \<Rightarrow> nat \<Rightarrow> ext2_dirent \<Rightarrow> (int \<times> disk) run option" where
  "unlink_act d v e name buf q blk de =
     (case name_match name buf q de of Inl f \<Rightarrow> Some (Some (Inl f)) | Inr m \<Rightarrow>
        if m then Some (Some (bindS (unlink_here buf q (ed_size de)) (\<lambda>buf.
          bindS (ext2_inode_blk d v e (blk mod 2 ^ 32)) (\<lambda>b. Inr (0, write_blocks d v buf b 1)))))
        else None)"

interpretation ul: dir_loop d v e "unlink_loop d v e name" "unlink_act d v e name" "\<lambda>_. Some (Inr (- ENOENT, d))" for d v e name
proof
  fix buf offset blk
  show "unlink_loop d v e name buf offset blk =
     (if offset + blk * vl_blksize v < dir_end e then
        case dirent_at buf offset of Inl f \<Rightarrow> Some (Inl f) | Inr de \<Rightarrow>
        case unlink_act d v e name buf offset blk de of Some r \<Rightarrow> r | None \<Rightarrow>
        case dir_advance d v e buf (offset + ed_size de) blk of Inl f \<Rightarrow> Some (Inl f) | Inr (buf, offset, blk) \<Rightarrow> unlink_loop d v e name buf offset blk
      else Some (Inr (- ENOENT, d)))"
    by (subst unlink_loop.simps) (simp add: unlink_act_def split: sum.splits)
qed

definition append_act :: "disk \<Rightarrow> ext2_volume \<Rightarrow> ext2_inode \<Rightarrow> ext2_dirent \<Rightarrow> string \<Rightarrow> u8 list \<Rightarrow> nat \<Rightarrow> nat \<Rightarrow> ext2_dirent \<Rightarrow> (disk option \<times> nat) run option" where
  "append_act d v e de name buf q blk entry =
     (if dirent_expect entry < ed_size entry \<and> ed_size entry - dirent_expect entry \<ge> ed_size de then
        Some (Some (bindS (append_here buf q entry de name) (\<lambda>buf.
          bindS (ext2_inode_blk d v e (blk mod 2 ^ 32)) (\<lambda>b. Inr (Some (write_blocks d v buf b 1), blk)))))
      else None)"

interpretation ap: dir_loop d v e "append_loop d v e de name" "append_act d v e de name" "\<lambda>blk. Some (Inr (None, blk))" for d v e de name
proof
  fix buf offset blk
  show "append_loop d v e de name buf offset blk =
     (if offset + blk * vl_blksize v < dir_end e then
        case dirent_at buf offset of Inl f \<Rightarrow> Some (Inl f) | Inr entry \<Rightarrow>
        case append_act d v e de name buf offset blk entry of Some r \<Rightarrow> r | None \<Rightarrow>
        case dir_advance d v e buf (offset + ed_size entry) blk of Inl f \<Rightarrow> Some (Inl f) | Inr (buf, offset, blk) \<Rightarrow> append_loop d v e de name buf offset blk
      else Some (Inr (None, blk)))"
    by (subst append_loop.simps) (simp add: append_act_def split: sum.splits)
qed

text \<open>What the actions do on the entries of a directory.\<close>

lemma first_act_find:
  assumes "\<And>i q x. (i, q, x) \<in> set slots \<Longrightarrow> act (dents_bytes (ess ! i)) q i (dent_head x) = (if P x then Some (g i q x) else None)"
  shows "first_act act ess slots = (case find (\<lambda>(i, q, x). P x) slots of None \<Rightarrow> None | Some (i, q, x) \<Rightarrow> Some (g i q x))"
  using assms by (induction slots) auto

lemma slot_name_match:
  assumes "(i, q, x) \<in> set (dir_slots ess k)"
  shows "name_match name (dents_bytes (ess ! i)) q (dent_head x) = Inr (name = dn_name x)"
proof -
  obtain as bs where "ess ! i = as @ x # bs" "q = length (dents_bytes as)"
    using assms by (rule dir_slotsD)
  then show ?thesis
    using name_match_dent[of name "dents_bytes as" x "dents_bytes bs"] by simp
qed

lemma find_slots: "map_option (snd \<circ> snd) (find (\<lambda>(i, q, x). P x) slots) = find P (map (snd \<circ> snd) slots)"
  by (induction slots) auto

text \<open>A directory as a map from names to inode numbers.\<close>

definition dmap :: "dent list list \<Rightarrow> string \<Rightarrow> nat option" where
  "dmap ess name = (if name = [] then None else map_option dn_ino (find (\<lambda>x. dn_name x = name) (concat ess)))"

lemma lookup_loop_dmap:
  assumes "dir_rep d v e ess" "name \<noteq> []"
  shows "lookup_loop d v e name (peek d (bmap d v e 0 * vl_blksize v) (vl_blksize v)) 0 0 = Some (Inr (dmap ess name))"
proof -
  have "first_act (lookup_act name) ess (dir_slots ess 0) =
      (case find (\<lambda>(i, q, x). dn_name x = name) (dir_slots ess 0) of None \<Rightarrow> None | Some (i, q, x) \<Rightarrow> Some (Some (Inr (Some (dn_ino x)))))"
    by (rule first_act_find) (auto simp: lookup_act_def slot_name_match)
  moreover have "dmap ess name = map_option dn_ino (map_option (snd \<circ> snd) (find (\<lambda>(i, q, x). dn_name x = name) (dir_slots ess 0)))"
    using assms(2) by (simp add: dmap_def find_slots dir_slots_dents)
  ultimately show ?thesis
    using lk.walk_dir[OF assms(1), of 0] by (auto split: option.splits)
qed

definition dir_state :: "disk \<Rightarrow> ext2_volume \<Rightarrow> nat \<Rightarrow> ext2_inode \<Rightarrow> dent list list \<Rightarrow> bool" where
  "dir_state d v n e ess \<longleftrightarrow> vol_ok v \<and> ino_num v n \<and> ext2_read_inode d v n = Inr e \<and> dir_rep d v e ess \<and> file_apart d v n e (length ess * vl_blksize v)"

lemma dir_state_first: "file_blk d v e 0 = Inr (peek d (bmap d v e 0 * vl_blksize v) (vl_blksize v))" if "dir_state d v n e ess"
  using that file_blk_bmap[of v 0 d e] by (simp add: dir_state_def dir_rep_def max_blocks_def)

lemma find_length: "find P xs = Some x \<Longrightarrow> x \<in> set xs \<and> P x"
  by (auto simp: find_Some_iff)

lemma dmap_length:
  assumes "dir_rep d v e ess" "dmap ess name = Some k"
  shows "length name < 256"
proof -
  obtain x where "x \<in> set (concat ess)" "dn_name x = name"
    using assms(2) by (auto simp: dmap_def dest!: find_length split: if_splits)
  moreover from this obtain i where "i < length ess" "x \<in> set (ess ! i)"
    by (auto simp: in_set_conv_nth[of _ ess])
  ultimately show ?thesis
    using assms(1) by (auto simp: dir_rep_def dent_ok_def)
qed

text \<open>
  C14: Looking up a name in a directory of any number of blocks gives the inode of the first entry with
  this name, as the inode is on the device, and -ENOENT exactly when no entry has the name.
\<close>

theorem ext2_lookup_first:
  assumes "dir_state d v (i_inode dir) e ess" and "name \<noteq> []"
  shows "ext2_lookup d v dir name =
    (case dmap ess name of
       None \<Rightarrow> ret (Inl (- ENOENT))
     | Some k \<Rightarrow> Some (bindS (ext2_read_inode d v k) (\<lambda>c. Inr (Inr (inode2file v k c zero_inode)))))"
proof -
  have "dir_rep d v e ess" "ext2_read_inode d v (i_inode dir) = Inr e"
    using assms(1) by (simp_all add: dir_state_def)
  then show ?thesis
    using dir_state_first[OF assms(1)] lookup_loop_dmap[OF _ assms(2)] dmap_length
    by (fastforce simp: ext2_lookup_def split: option.splits)
qed

subsection \<open>Changing a directory\<close>

lemma same_outside_ptrs: "ptr_blocks d' v e = ptr_blocks d v e" if "same_outside (vl_blksize v) B d d'" "B \<inter> ptr_blocks d v e = {}"
proof -
  have "e_blocks e ! 13 \<notin> B"
    using that(2) by (auto simp: ptr_blocks_def)
  then show ?thesis
    using same_outside_ptr[OF that(1)] by (auto simp: ptr_blocks_def image_iff)
qed

lemma blocks_below: "{i. i * bs < n * bs} = {..<n}" if "0 < bs" for bs n :: nat
  using that by auto

text \<open>Entries replaced by others of the same total size.\<close>

lemma dir_update:
  assumes S: "dir_state d v n e ess" and i: "i < length ess" "ess ! i = as @ x # bs"
    and ys: "ys \<noteq> []" "\<forall>y\<in>set ys. dent_ok y" "length (dents_bytes ys) = dent_size x"
  defines "d' \<equiv> write_blocks d v (dents_bytes (as @ ys @ bs)) (bmap d v e i) (Suc 0)"
  shows "dir_state d' v n e (ess[i := as @ ys @ bs])" and "ext2_inode_blk d v e (i mod 2 ^ 32) = Inr (bmap d v e i)"
    and "\<forall>j < length ess. length (dents_bytes (ess ! j)) = vl_blksize v"
proof -
  let ?bs = "vl_blksize v" and ?ess = "ess[i := as @ ys @ bs]" and ?B = "{bmap d v e i}"
  have R: "dir_rep d v e ess" and A: "file_apart d v n e (length ess * ?bs)" and V: "sizes_ok v" "vol_ok v" "ino_num v n" "ext2_read_inode d v n = Inr e"
    using S by (simp_all add: dir_state_def dir_rep_def)
  have bs: "0 < ?bs" and lim: "length ess < max_blocks v"
    using R by (simp_all add: dir_rep_def sizes_ok_def)
  show lens: "\<forall>j < length ess. length (dents_bytes (ess ! j)) = ?bs"
    using R unfolding dir_rep_def by (metis length_peek)
  have new: "length (dents_bytes (as @ ys @ bs)) = ?bs"
    using lens[rule_format, OF i(1)] ys(3) unfolding i(2) by simp
  have d': "d' = patch d (bmap d v e i * ?bs + 0) (dents_bytes (as @ ys @ bs))"
    unfolding d'_def by (simp only: write_blocks_patch[OF new] add_0_right)
  have so: "same_outside ?bs ?B d d'"
    unfolding d' by (rule same_outside_patch[OF same_outside_refl]) (use new in simp_all)
  have D: "data_blocks d v e (length ess * ?bs) = bmap d v e ` {..<length ess}"
    unfolding data_blocks_def blocks_below[OF bs] ..
  have inj: "inj_on (bmap d v e) {..<length ess}"
    using A unfolding file_apart_def blocks_below[OF bs] by blast
  have sub: "?B \<subseteq> data_blocks d v e (length ess * ?bs)"
    unfolding D using i(1) by blast
  then have ptr: "?B \<inter> ptr_blocks d v e = {}" and ino: "inode_at v n div ?bs \<notin> ?B"
    using A by (auto simp: file_apart_def)
  have bm: "bmap d' v e j = bmap d v e j" if "j < max_blocks v" for j
    using same_outside_bmap[OF so ptr V(1) that] .
  have blk: "peek d' (bmap d v e j * ?bs) ?bs = dents_bytes (?ess ! j)" if j: "j < length ess" for j
  proof (cases "j = i")
    case True
    then show ?thesis
      using peek_patch[of d "bmap d v e i * ?bs" "dents_bytes (as @ ys @ bs)", unfolded new] i(1) by (simp add: d')
  next
    case False
    then have "bmap d v e j \<notin> ?B"
      using inj i(1) j by (auto dest: inj_onD)
    then have "peek d' (bmap d v e j * ?bs) ?bs = peek d (bmap d v e j * ?bs) ?bs"
      using same_outside_block[OF so] by (intro nth_equalityI) simp_all
    then show ?thesis
      using R j False by (simp add: dir_rep_def)
  qed
  have ents: "?ess ! j \<noteq> [] \<and> (\<forall>x\<in>set (?ess ! j). dent_ok x)" if "j < length ess" for j
    using R that ys(1,2) i by (cases "j = i") (force simp: dir_rep_def)+
  have "dir_rep d' v e ?ess"
    using R blk ents bm lim by (simp add: dir_rep_def)
  moreover have "file_apart d' v n e (length ess * ?bs)"
  proof -
    have "data_blocks d' v e (length ess * ?bs) = data_blocks d v e (length ess * ?bs)"
      unfolding data_blocks_def blocks_below[OF bs] using bm lim by (intro image_cong) auto
    moreover have "inj_on (bmap d' v e) {..<length ess}"
      using bm lim inj by (simp add: inj_on_def)
    ultimately show ?thesis
      using A same_outside_ptrs[OF so ptr] unfolding file_apart_def blocks_below[OF bs] by simp
  qed
  ultimately show "dir_state d' v n e ?ess"
    using V same_outside_inode[OF V(2,3) so ino] by (simp add: dir_state_def)
  have "i < max_blocks v" "i mod 2 ^ 32 = i"
    using i(1) lim V(1) by (simp_all add: sizes_ok_def)
  then show "ext2_inode_blk d v e (i mod 2 ^ 32) = Inr (bmap d v e i)"
    using inode_blk_bmap[OF V(1)] by simp
qed

definition dir_names :: "dent list list \<Rightarrow> string list" where
  "dir_names ess = filter (\<lambda>s. s \<noteq> []) (map dn_name (concat ess))"

lemma concat_update: "concat (ess[i := as @ ys @ bs]) = (concat (take i ess) @ as) @ ys @ bs @ concat (drop (Suc i) ess)" if "i < length ess"
  using that by (simp add: upd_conv_take_nth_drop)

lemma concat_at: "concat ess = (concat (take i ess) @ as) @ [x] @ bs @ concat (drop (Suc i) ess)" if "i < length ess" "ess ! i = as @ x # bs"
  using concat_update[OF that(1), of as "[x]" bs] that by (metis append_Cons append_Nil list_update_id)

lemma find_append: "find P (xs @ ys) = (case find P xs of None \<Rightarrow> find P ys | Some x \<Rightarrow> Some x)"
  by (induction xs) auto

lemma find_none: "find P xs = None \<longleftrightarrow> (\<forall>x\<in>set xs. \<not> P x)"
  by (auto simp: find_None_iff)

subsection \<open>Unlinking\<close>

definition blank_dent :: "dent \<Rightarrow> dent" where
  "blank_dent x = \<lparr>dn_ino = 0, dn_type = 0, dn_name = [], dn_pad = replicate (dent_size x - 8) 0\<rparr>"

lemma blank_dent_bytes: "dent_bytes (blank_dent x) = replicate 4 0 @ le_bytes 2 (dent_size x) @ replicate (dent_size x - 6) 0"
proof -
  have "dent_size (blank_dent x) = dent_size x"
    by (simp add: blank_dent_def dent_size_def)
  moreover have "replicate 2 0 @ replicate (dent_size x - 8) 0 = replicate (dent_size x - 6) (0 :: u8)"
    by (simp add: replicate_add[symmetric] dent_size_def)
  ultimately show ?thesis
    by (simp add: dent_bytes_def dirent_bytes_def dent_head_def blank_dent_def le_bytes_0 name_bytes_def numeral_2_eq_2)
qed

lemma unlink_here_blank:
  "unlink_here (dents_bytes as @ dent_bytes x @ dents_bytes bs) (length (dents_bytes as)) (dent_size x) =
     Inr (dents_bytes as @ dent_bytes (blank_dent x) @ dents_bytes bs)"
proof -
  let ?a = "dents_bytes as" and ?b = "dents_bytes bs"
  have sz: "8 \<le> dent_size x"
    by (simp add: dent_size_def)
  then have "dent_size x = 4 + (2 + (dent_size x - 6))"
    by simp
  then have "replicate (dent_size x) 0 = replicate 4 0 @ replicate 2 0 @ replicate (dent_size x - 6) (0 :: u8)"
    by (metis replicate_add)
  then have "overlay (?a @ dent_bytes x @ ?b) (length ?a) (replicate (dent_size x) 0) = (?a @ replicate 4 0) @ replicate 2 0 @ replicate (dent_size x - 6) 0 @ ?b"
    using overlay_append[of "dent_bytes x" "replicate (dent_size x) 0" ?a ?b] sz by simp
  then have "overlay (overlay (?a @ dent_bytes x @ ?b) (length ?a) (replicate (dent_size x) 0)) (length ?a + 4) (le_bytes 2 (dent_size x)) =
      (?a @ replicate 4 0) @ le_bytes 2 (dent_size x) @ replicate (dent_size x - 6) 0 @ ?b"
    using overlay_append[of "replicate 2 0" "le_bytes 2 (dent_size x)" "?a @ replicate 4 0" "replicate (dent_size x - 6) 0 @ ?b"] by simp
  then show ?thesis
    using sz by (simp add: unlink_here_def blank_dent_bytes)
qed


lemma dmap_blank:
  assumes "concat ess = A @ [x] @ B" "concat ess' = A @ [blank_dent x] @ B" "dn_name x = name" "name \<noteq> []" "distinct (dir_names ess)"
  shows "dmap ess' = (dmap ess)(name := None)" and "distinct (dir_names ess')"
proof -
  have b: "dn_name (blank_dent x) = []"
    by (simp add: blank_dent_def)
  have n: "name \<notin> dn_name ` set (A @ B)"
    using assms by (auto simp: dir_names_def)
  show "dmap ess' = (dmap ess)(name := None)"
  proof
    fix nm
    show "dmap ess' nm = ((dmap ess)(name := None)) nm"
    proof (cases "nm = name")
      case True
      then have "find (\<lambda>x. dn_name x = nm) (A @ [blank_dent x] @ B) = None"
        using n b assms(4) by (auto simp: find_none)
      with True show ?thesis
        by (simp add: dmap_def assms(2))
    next
      case False
      then show ?thesis
        using assms(3) b by (simp add: dmap_def assms(1,2) find_append cong: option.case_cong)
    qed
  qed
  show "distinct (dir_names ess')"
    using assms b by (simp add: dir_names_def)
qed

text \<open>
  C15: ext2_unlink of a name that the directory has returns 0 and leaves a directory that maps every
  other name as before and this name to nothing; of a name it does not have, it returns -ENOENT and
  changes nothing.
\<close>

theorem ext2_unlink_removes:
  assumes S: "dir_state d v (i_inode dir) e ess" and "name \<noteq> []" and "distinct (dir_names ess)"
  shows "case dmap ess name of
      None \<Rightarrow> ext2_unlink d v dir name = ret (- ENOENT, d)
    | Some k \<Rightarrow> \<exists>d' ess'. ext2_unlink d v dir name = ret (0, d') \<and> dir_state d' v (i_inode dir) e ess' \<and>
        dmap ess' = (dmap ess)(name := None) \<and> distinct (dir_names ess')"
proof -
  let ?f = "find (\<lambda>(i, q, x). dn_name x = name) (dir_slots ess 0)"
  have R: "dir_rep d v e ess" "ext2_read_inode d v (i_inode dir) = Inr e"
    using S by (simp_all add: dir_state_def)
  have "first_act (unlink_act d v e name) ess (dir_slots ess 0) =
      (case ?f of None \<Rightarrow> None | Some (i, q, x) \<Rightarrow> Some (Some (bindS (unlink_here (dents_bytes (ess ! i)) q (dent_size x)) (\<lambda>buf.
          bindS (ext2_inode_blk d v e (i mod 2 ^ 32)) (\<lambda>b. Inr (0, write_blocks d v buf b 1))))))"
    by (rule first_act_find) (auto simp: unlink_act_def slot_name_match)
  then have u: "ext2_unlink d v dir name =
      (case ?f of None \<Rightarrow> ret (- ENOENT, d) | Some (i, q, x) \<Rightarrow> Some (bindS (unlink_here (dents_bytes (ess ! i)) q (dent_size x)) (\<lambda>buf.
          bindS (ext2_inode_blk d v e (i mod 2 ^ 32)) (\<lambda>b. Inr (0, write_blocks d v buf b 1)))))"
    using ul.walk_dir[OF R(1), of 0 name] dir_state_first[OF S] R(2) by (auto simp: ext2_unlink_def split: option.splits)
  have m: "dmap ess name = map_option dn_ino (map_option (snd \<circ> snd) ?f)"
    using assms(2) by (simp add: dmap_def find_slots dir_slots_dents)
  show ?thesis
  proof (cases ?f)
    case None
    then show ?thesis
      using u m by simp
  next
    case (Some z)
    obtain i q x where z: "z = (i, q, x)"
      by (cases z)
    have x: "(i, q, x) \<in> set (dir_slots ess 0)" "dn_name x = name"
      using find_length[OF Some] z by auto
    obtain as bs where s: "i < length ess" "ess ! i = as @ x # bs" "q = length (dents_bytes as)"
      using x(1) by (rule dir_slotsD)
    let ?ess = "ess[i := as @ [blank_dent x] @ bs]"
    let ?d = "write_blocks d v (dents_bytes (as @ [blank_dent x] @ bs)) (bmap d v e i) (Suc 0)"
    have "dent_ok x"
      using R(1) s(1,2) by (auto simp: dir_rep_def)
    then have "dent_ok (blank_dent x)" "dent_size (blank_dent x) = dent_size x"
      by (auto simp: dent_ok_def blank_dent_def dent_size_def)
    then have D: "dir_state ?d v (i_inode dir) e ?ess" "ext2_inode_blk d v e (i mod 2 ^ 32) = Inr (bmap d v e i)"
      using dir_update(1,2)[OF S s(1,2), of "[blank_dent x]"] by simp_all
    have "ext2_unlink d v dir name = ret (0, ?d)"
      using u Some D(2) unlink_here_blank[of as x bs] by (simp add: z s(2,3))
    moreover have "dmap ?ess = (dmap ess)(name := None)" "distinct (dir_names ?ess)"
      using dmap_blank[OF concat_at[OF s(1,2)] concat_update[OF s(1)] x(2) assms(2,3)] by simp_all
    ultimately show ?thesis
      using D(1) m Some z by auto
  qed
qed

subsection \<open>Linking\<close>

lemma and_fffffffc: "n AND 4294967292 = n - n mod 4" if "n < 2 ^ 32" for n :: nat
proof -
  have "take_bit 32 n = n"
    using that by (rule take_bit_nat_eq_self)
  then have bits: "bit n k \<longleftrightarrow> k < 32 \<and> bit n k" for k
    by (metis bit_take_bit_iff)
  have "(4294967292 :: nat) = push_bit 2 (mask 30)"
    by (simp add: push_bit_eq_mult mask_eq_exp_minus_1)
  moreover have "n AND push_bit 2 (mask 30) = push_bit 2 (drop_bit 2 n)"
  proof (rule bit_eqI)
    fix k
    show "bit (n AND push_bit 2 (mask 30)) k \<longleftrightarrow> bit (push_bit 2 (drop_bit 2 n)) k"
    proof (cases "2 \<le> k")
      case True
      then have "2 + (k - 2) = k" "k - 2 < 30 \<longleftrightarrow> k < 32"
        by linarith+
      with True bits[of k] show ?thesis
        by (simp only: bit_and_iff bit_push_bit_iff bit_mask_iff bit_drop_bit_eq comp_def) auto
    qed (simp add: bit_and_iff bit_push_bit_iff)
  qed
  ultimately have "n AND 4294967292 = push_bit 2 (drop_bit 2 n)"
    by (simp only:)
  also have "\<dots> = n - n mod 4"
    by (simp add: push_bit_eq_mult drop_bit_eq_div minus_mod_eq_mult_div[symmetric] mult.commute)
  finally show ?thesis .
qed

definition has_room :: "nat \<Rightarrow> dent \<Rightarrow> bool" where
  "has_room n x \<longleftrightarrow> dirent_expect (dent_head x) < dent_size x \<and> 8 + n \<le> dent_size x - dirent_expect (dent_head x)"

lemma expect_bounds: "8 + length (dn_name x) < dirent_expect (dent_head x)" "dirent_expect (dent_head x) \<le> 12 + length (dn_name x)" if "dent_ok x"
  using that and_fffffffc[of "8 + length (dn_name x)"] mod_less_divisor[of 4 "8 + length (dn_name x)"] by (simp_all add: dirent_expect_def dent_ok_def)

text \<open>The entry that gives up the bytes behind its name, and the new entry in them.\<close>

definition cut_dent :: "dent \<Rightarrow> dent" where
  "cut_dent x = x\<lparr>dn_pad := take (dirent_expect (dent_head x) - 8 - length (dn_name x)) (dn_pad x)\<rparr>"

definition new_dent :: "dent \<Rightarrow> nat \<Rightarrow> nat \<Rightarrow> string \<Rightarrow> dent" where
  "new_dent x num typ name = \<lparr>dn_ino = num, dn_type = typ, dn_name = name,
     dn_pad = drop (dirent_expect (dent_head x) - length (dn_name x) + length name) (dn_pad x)\<rparr>"

lemma cut_new_size:
  assumes "dent_ok x" "has_room (length name) x"
  shows "dent_size (cut_dent x) = dirent_expect (dent_head x)" "dent_size (new_dent x num typ name) = dent_size x - dirent_expect (dent_head x)"
  using assms expect_bounds[OF assms(1)] by (auto simp: cut_dent_def new_dent_def has_room_def dent_size_def)

lemma take_drop_three: "xs = take m xs @ take n (drop m xs) @ drop (m + n) xs"
  using append_take_drop_id[of n "drop m xs"] by (simp add: add.commute)

lemma append_here_dent:
  assumes x: "dent_ok x" "has_room (length name) x" and de: "de = \<lparr>ed_inode = num, ed_size = 8 + length name, ed_name_len = length name, ed_type = typ\<rparr>"
  shows "append_here (dents_bytes as @ dent_bytes x @ dents_bytes bs) (length (dents_bytes as)) (dent_head x) de name =
    Inr (dents_bytes as @ dent_bytes (cut_dent x) @ dent_bytes (new_dent x num typ name) @ dents_bytes bs)"
proof -
  let ?a = "dents_bytes as" and ?b = "dents_bytes bs" and ?E = "dirent_expect (dent_head x)" and ?l = "length (dn_name x)" and ?n = "8 + length name"
  let ?y = "new_dent x num typ name"
  define p1 where "p1 = take (?E - 8 - ?l) (dn_pad x)"
  define p2 where "p2 = take ?n (drop (?E - 8 - ?l) (dn_pad x))"
  define p3 where "p3 = drop (?E - ?l + length name) (dn_pad x)"
  have E: "8 + ?l < ?E" "?E < dent_size x" "?n \<le> dent_size x - ?E"
    using x expect_bounds[OF x(1)] by (simp_all add: has_room_def)
  then have len: "length p1 = ?E - 8 - ?l" "length p2 = ?n"
    by (auto simp: p1_def p2_def dent_size_def)
  have "?E - 8 - ?l + ?n = ?E - ?l + length name"
    using E(1) by simp
  then have pad: "dn_pad x = p1 @ p2 @ p3"
    using take_drop_three[of "dn_pad x" "?E - 8 - ?l" ?n] unfolding p1_def p2_def p3_def by simp
  let ?h = "\<lambda>s. le_bytes 4 (dn_ino x) @ le_bytes 2 s @ le_bytes 1 ?l @ le_bytes 1 (dn_type x)" and ?N = "name_bytes (dn_name x)"
  let ?new = "dirent_bytes (dent_head ?y) @ name_bytes name"
  have new: "take (ed_size de) (dirent_bytes (de\<lparr>ed_size := ed_size (dent_head x) - ?E\<rparr>) @ name_bytes name) = ?new"
    using cut_new_size(2)[OF x] by (simp add: de dirent_bytes_def) (simp add: new_dent_def)
  have o1: "overlay (?a @ dent_bytes x @ ?b) (length ?a + ?E) ?new = ?a @ ?h (dent_size x) @ ?N @ p1 @ ?new @ p3 @ ?b"
    using overlay_append[of p2 ?new "?a @ ?h (dent_size x) @ ?N @ p1" "p3 @ ?b"] len E(1) pad
    by (simp add: dent_bytes_def dirent_bytes_def dent_head_def)
  have o2: "overlay (?a @ ?h (dent_size x) @ ?N @ p1 @ ?new @ p3 @ ?b) (length ?a + 4) (le_bytes 2 ?E) = ?a @ ?h ?E @ ?N @ p1 @ ?new @ p3 @ ?b"
    using overlay_append[of "le_bytes 2 (dent_size x)" "le_bytes 2 ?E" "?a @ le_bytes 4 (dn_ino x)" "le_bytes 1 ?l @ le_bytes 1 (dn_type x) @ ?N @ p1 @ ?new @ p3 @ ?b"]
    by simp
  have "dent_bytes (cut_dent x) = ?h ?E @ ?N @ p1"
    using cut_new_size(1)[OF x] by (simp add: dent_bytes_def dirent_bytes_def dent_head_def) (simp add: cut_dent_def p1_def)
  moreover have "dent_bytes ?y = ?new @ p3"
    by (simp add: dent_bytes_def) (simp add: new_dent_def p3_def)
  moreover have "\<not> length ?a + ?E + ed_size de > length (?a @ dent_bytes x @ ?b)"
    using E by (simp add: de)
  ultimately show ?thesis
    unfolding append_here_def Let_def new o1 o2 by simp
qed

lemma dmap_new:
  assumes "concat ess = A @ [x] @ B" "concat ess' = A @ [cut_dent x, new_dent x num typ name] @ B" "name \<noteq> []" "dmap ess name = None" "distinct (dir_names ess)"
  shows "dmap ess' = (dmap ess)(name \<mapsto> num)" and "distinct (dir_names ess')"
proof -
  have b: "dn_name (cut_dent x) = dn_name x" "dn_ino (cut_dent x) = dn_ino x" "dn_name (new_dent x num typ name) = name" "dn_ino (new_dent x num typ name) = num"
    by (simp_all add: cut_dent_def new_dent_def)
  have n: "name \<notin> dn_name ` set (A @ [x] @ B)"
    using assms(1,3,4) by (auto simp: dmap_def find_none)
  show "dmap ess' = (dmap ess)(name \<mapsto> num)"
  proof
    fix nm
    show "dmap ess' nm = ((dmap ess)(name \<mapsto> num)) nm"
    proof (cases "nm = name")
      case True
      then have "find (\<lambda>x. dn_name x = nm) A = None" "dn_name x \<noteq> nm"
        using n by (auto simp: find_none)
      with True show ?thesis
        using b assms(3) by (simp add: dmap_def assms(2) find_append)
    next
      case False
      then show ?thesis
        using b by (cases "find (\<lambda>x. dn_name x = nm) A") (simp_all add: dmap_def assms(1,2) find_append)
    qed
  qed
  show "distinct (dir_names ess')"
    using assms(1,2,3,5) b n by (auto simp: dir_names_def)
qed

lemma dirent_type_small: "ext2_dirent_type m < 2 ^ 8"
  by (simp add: ext2_dirent_type_def Let_def)

text \<open>
  C11: ext2_link of a new name puts the entry behind the first entry that has room for it and returns
  0: the directory then maps the new name to the inode and every other name as before.
\<close>

theorem ext2_link_adds:
  assumes S: "dir_state d v (i_inode dir) e ess" and "name \<noteq> []" "length name < 256" "i_inode old < 2 ^ 32" and "dmap ess name = None" and "distinct (dir_names ess)"
    and "z \<in> set (concat ess)" "has_room (length name) z"
  shows "\<exists>d' ess'. ext2_link d v old name dir = ret (0, d', v) \<and> dir_state d' v (i_inode dir) e ess' \<and>
    dmap ess' = (dmap ess)(name \<mapsto> i_inode old) \<and> distinct (dir_names ess')"
proof -
  let ?f = "find (\<lambda>(i, q, x). has_room (length name) x) (dir_slots ess 0)" and ?de = "mk_dirent (i_inode old) (i_mode old) name"
  have R: "dir_rep d v e ess" "ext2_read_inode d v (i_inode dir) = Inr e"
    using S by (simp_all add: dir_state_def)
  have de: "?de = \<lparr>ed_inode = i_inode old, ed_size = 8 + length name, ed_name_len = length name, ed_type = ext2_dirent_type (i_mode old)\<rparr>"
    using assms(3) by (simp add: mk_dirent_def)
  have "find (has_room (length name)) (concat ess) \<noteq> None"
    using assms(7,8) by (auto simp: find_none)
  then have "map_option (snd \<circ> snd) ?f \<noteq> None"
    by (simp add: find_slots dir_slots_dents)
  then obtain i q x where f: "?f = Some (i, q, x)"
    by auto
  then have x: "(i, q, x) \<in> set (dir_slots ess 0)" "has_room (length name) x"
    using find_length[OF f] by auto
  obtain as bs where s: "i < length ess" "ess ! i = as @ x # bs" "q = length (dents_bytes as)"
    using x(1) by (rule dir_slotsD)
  let ?y = "new_dent x (i_inode old) (ext2_dirent_type (i_mode old)) name"
  let ?ys = "[cut_dent x, ?y]"
  let ?d = "write_blocks d v (dents_bytes (as @ ?ys @ bs)) (bmap d v e i) (Suc 0)"
  have ok: "dent_ok x"
    using R(1) s(1,2) by (auto simp: dir_rep_def)
  note sz = cut_new_size(1)[OF ok x(2)] cut_new_size(2)[OF ok x(2), of "i_inode old" "ext2_dirent_type (i_mode old)"]
  have "dent_size x - dirent_expect (dent_head x) < 2 ^ 16"
    using ok unfolding dent_ok_def by linarith
  then have "dent_ok (cut_dent x)" "dent_ok ?y"
    using ok sz x(2) assms(3,4) dirent_type_small[of "i_mode old"] unfolding dent_ok_def has_room_def by (simp_all add: cut_dent_def new_dent_def)
  moreover have "dent_size (cut_dent x) + dent_size ?y = dent_size x"
    using sz x(2) by (simp add: has_room_def)
  ultimately have D: "dir_state ?d v (i_inode dir) e (ess[i := as @ ?ys @ bs])" "ext2_inode_blk d v e (i mod 2 ^ 32) = Inr (bmap d v e i)"
    using dir_update(1,2)[OF S s(1,2), of ?ys] by simp_all
  have "first_act (append_act d v e ?de name) ess (dir_slots ess 0) =
      (case ?f of None \<Rightarrow> None | Some (i, q, x) \<Rightarrow> Some (Some (bindS (append_here (dents_bytes (ess ! i)) q (dent_head x) ?de name) (\<lambda>buf.
          bindS (ext2_inode_blk d v e (i mod 2 ^ 32)) (\<lambda>b. Inr (Some (write_blocks d v buf b 1), i))))))"
    by (rule first_act_find) (auto simp: append_act_def has_room_def de)
  then have "append_loop d v e ?de name (peek d (bmap d v e 0 * vl_blksize v) (vl_blksize v)) 0 0 = ret (Some ?d, i)"
    using ap.walk_dir[OF R(1), of 0 ?de name] f D(2) append_here_dent[OF ok x(2) de, of as bs] by (simp add: s(2,3))
  then have "ext2_link d v old name dir = ret (0, ?d, v)"
    using dir_state_first[OF S] R(2) by (simp add: ext2_link_def ext2_append_dirent_def)
  then show ?thesis
    using D(1) dmap_new[OF concat_at[OF s(1,2)] concat_update[OF s(1)] assms(2,5,6)] by blast
qed

text \<open>A directory of one block with the entries . and .. in block 20.\<close>

definition demo_dir_ino :: ext2_inode where
  "demo_dir_ino = zero_ext2_inode\<lparr>e_mode := 0x41ed, e_size := 1024, e_sectors := 2, e_blocks := 20 # replicate 14 0\<rparr>"

definition demo_dents :: "dent list" where
  "demo_dents = [\<lparr>dn_ino = 2, dn_type = 2, dn_name = ''.'', dn_pad = replicate 3 0\<rparr>, \<lparr>dn_ino = 2, dn_type = 2, dn_name = ''..'', dn_pad = replicate 1002 0\<rparr>]"

definition demo_dir_disk :: disk where
  "demo_dir_disk = patch (patch (\<lambda>_. 0) (inode_at demo_vol 2) (ino_encode demo_dir_ino)) (20 * 1024) (dents_bytes demo_dents)"

definition demo_dir :: inode where
  "demo_dir = inode2file demo_vol 2 demo_dir_ino zero_inode"

lemma demo_dents_length: "length (dents_bytes demo_dents) = 1024"
  by (simp add: demo_dents_def dent_size_def)

lemma demo_dir_at: "inode_at demo_vol 2 = 5248"
  by (simp add: inode_at_def tbl_at_def demo_vol_def)

lemma demo_dir_encode: "length (ino_encode demo_dir_ino) = 128"
  by (rule length_ino_encode) (simp_all add: demo_dir_ino_def zero_ext2_inode_def)

lemma demo_dir_inode: "ext2_read_inode demo_dir_disk demo_vol 2 = Inr demo_dir_ino"
proof -
  have "ino_ok demo_dir_ino"
    by (simp add: ino_ok_def demo_dir_ino_def zero_ext2_inode_def)
  moreover have "peek demo_dir_disk 5248 128 = peek (patch (\<lambda>_. 0) 5248 (ino_encode demo_dir_ino)) 5248 128"
    unfolding demo_dir_disk_def demo_dir_at by (rule peek_patch_other) simp
  ultimately show ?thesis
    using peek_patch[of "\<lambda>_. 0" 5248 "ino_encode demo_dir_ino"] demo_dir_encode
    by (simp add: read_inode_peek demo_vol_ok demo_ino_num demo_dir_at ino_decode_encode)
qed

lemma demo_dir_block: "bmap demo_dir_disk demo_vol demo_dir_ino 0 = 20" "peek demo_dir_disk (20 * 1024) 1024 = dents_bytes demo_dents"
  using peek_patch[of _ "20 * 1024" "dents_bytes demo_dents"] unfolding demo_dents_length demo_dir_disk_def
  by (simp_all add: bmap_def demo_dir_ino_def)

lemma demo_dir_state: "dir_state demo_dir_disk demo_vol (i_inode demo_dir) demo_dir_ino [demo_dents]"
proof -
  have bs: "vl_blksize demo_vol = 1024"
    by (simp add: demo_vol_def)
  have "ptr32 demo_dir_disk (4 * k) = 0" if "k < 256" for k
  proof -
    have "peek demo_dir_disk (4 * k) 4 = replicate 4 0"
      using that by (intro nth_equalityI) (simp_all add: demo_dir_disk_def patch_def demo_dir_at)
    then show ?thesis
      by (simp add: ptr32_def numeral_eq_Suc)
  qed
  then have p: "ptr_blocks demo_dir_disk demo_vol demo_dir_ino \<subseteq> {0}"
    by (auto simp: ptr_blocks_def bs demo_dir_ino_def)
  have "{i. i * 1024 < length [demo_dents] * 1024} = {0}"
    by auto
  then have "file_apart demo_dir_disk demo_vol 2 demo_dir_ino (length [demo_dents] * vl_blksize demo_vol)"
    unfolding file_apart_def data_blocks_def bs using p demo_dir_block(1) by (auto simp: demo_dir_at)
  moreover have "dir_rep demo_dir_disk demo_vol demo_dir_ino [demo_dents]"
    using demo_dir_block unfolding dir_rep_def bs
    by (simp add: demo_sizes demo_dir_ino_def) (simp add: demo_dents_def dent_ok_def dent_size_def)
  ultimately show ?thesis
    by (simp add: dir_state_def demo_dir_def inode2file_def demo_vol_ok demo_ino_num demo_dir_inode)
qed

lemma demo_dmap: "dmap [demo_dents] ''..'' = Some 2" "dmap [demo_dents] ''a'' = None" "distinct (dir_names [demo_dents])"
  by (simp_all add: dmap_def demo_dents_def dir_names_def)

theorem ext2_lookup_first_witness:
  "ext2_lookup demo_dir_disk demo_vol demo_dir ''..'' = ret (Inr (inode2file demo_vol 2 demo_dir_ino zero_inode)) \<and>
   ext2_lookup demo_dir_disk demo_vol demo_dir ''a'' = ret (Inl (- ENOENT))"
  using ext2_lookup_first[OF demo_dir_state, of "''..''"] ext2_lookup_first[OF demo_dir_state, of "''a''"] by (simp add: demo_dmap demo_dir_inode)

theorem ext2_unlink_removes_witness:
  "ext2_unlink demo_dir_disk demo_vol demo_dir ''a'' = ret (- ENOENT, demo_dir_disk) \<and>
   (\<exists>d' ess'. ext2_unlink demo_dir_disk demo_vol demo_dir ''..'' = ret (0, d') \<and> dir_state d' demo_vol (i_inode demo_dir) demo_dir_ino ess' \<and> dmap ess' ''..'' = None)"
  using ext2_unlink_removes[OF demo_dir_state, of "''..''"] ext2_unlink_removes[OF demo_dir_state, of "''a''"] by (fastforce simp: demo_dmap)

lemma demo_room: "has_room 1 (demo_dents ! 1)"
  by (simp add: has_room_def demo_dents_def dirent_expect_def dent_size_def and_fffffffc)

theorem ext2_link_adds_witness:
  "\<exists>d' ess'. ext2_link demo_dir_disk demo_vol (zero_inode\<lparr>i_inode := 12\<rparr>) ''a'' demo_dir = ret (0, d', demo_vol) \<and>
     dir_state d' demo_vol (i_inode demo_dir) demo_dir_ino ess' \<and> dmap ess' ''a'' = Some 12 \<and> dmap ess' ''..'' = Some 2"
proof -
  have "demo_dents ! 1 \<in> set (concat [demo_dents])"
    by (simp add: demo_dents_def)
  then show ?thesis
    using ext2_link_adds[OF demo_dir_state, of "''a''" "zero_inode\<lparr>i_inode := 12\<rparr>" "demo_dents ! 1"] demo_room
    by (fastforce simp: demo_dmap)
qed

subsection \<open>Symbolic links\<close>

lemma concat_fours: "concat (map (\<lambda>i. take 4 (drop (p + 4 * i) bs)) [0..<n]) = take (4 * n) (drop p bs)"
proof (induction n)
  case (Suc n)
  have e: "4 * Suc n = 4 * n + 4"
    by simp
  show ?case
    unfolding e take_add using Suc by (simp add: add.commute)
qed simp

lemma drop_split: "drop p xs = take n (drop p xs) @ drop (n + p) xs"
  by (metis append_take_drop_id drop_drop)

lemma ino_tail: "drop 40 (ino_encode (ino_decode bs)) = drop 40 bs" if "length bs = 128"
proof -
  have m: "map (le_bytes 4) (e_blocks (ino_decode bs)) = map (\<lambda>i. take 4 (drop (40 + 4 * i) bs)) [0..<15]"
    using that by (simp add: ino_decode_def le_bytes_le_at)
  have "drop 40 bs = take 60 (drop 40 bs) @ take 4 (drop 100 bs) @ take 4 (drop 104 bs) @ take 4 (drop 108 bs) @ take 4 (drop 112 bs) @ drop 116 bs"
    using drop_split[of 40 bs 60] drop_split[of 100 bs 4] drop_split[of 104 bs 4] drop_split[of 108 bs 4] drop_split[of 112 bs 4] by simp
  then show ?thesis
    unfolding ino_encode_blocks m concat_fours using that by (simp add: ino_decode_def le_bytes_le_at)
qed

text \<open>
  C36: A symbolic link of at most 60 bytes is read back by ext2_readlink, cut to the size of the buffer,
  and the size of the file is the length of the link.
\<close>

theorem ext2_symlink_readlink:
  assumes v: "vol_ok v" "ino_num v (i_inode f)" and "ext2_read_inode d v (i_inode f) = Inr e" and "e_size_u e = 0" "S_ISLNK (i_mode f)" and "length link \<le> 60"
  shows "\<exists>f' d'. ext2_symlink d v f link = Inr (0, f', d') \<and> f' = f\<lparr>i_size := length link\<rparr> \<and>
    ext2_readlink d' v f' n = Inr (int (min n (length link)), take n link)"
proof -
  let ?l = "length link" and ?bs = "overlay (ino_encode e) 40 (name_bytes link)"
  have e: "ino_ok e"
    using assms(3) by (auto simp: read_inode_peek[OF v] intro: ino_ok_decode)
  then have "length (ino_encode e) = 128"
    by (simp add: ino_ok_def length_ino_encode)
  then have bs: "length ?bs = 128" "drop 40 ?bs = name_bytes link @ drop (40 + ?l) (ino_encode e)" "le_at ?bs 108 4 = le_at (ino_encode e) 108 4"
    using assms(6) by (auto simp: overlay_def le_at_def)
  have "le_at (ino_encode e) 108 4 = e_size_u (ino_decode (ino_encode e))"
    by (simp add: ino_decode_def)
  then have u: "le_at ?bs 108 4 = 0"
    using bs(3) assms(4) by (simp add: ino_decode_encode[OF e])
  define e' where "e' = (ino_decode ?bs)\<lparr>e_size := ?l\<rparr>"
  have ok: "ino_ok e'"
    using ino_ok_decode[OF bs(1)] assms(6) by (simp add: e'_def ino_ok_def)
  have sz: "INOSIZE e' = ?l"
    using u by (simp add: INOSIZE_def e'_def ino_decode_def)
  have tail: "drop 40 (ino_encode e') = name_bytes link @ drop (40 + ?l) (ino_encode e)"
    using ino_tail[OF bs(1)] bs(2) by (simp add: e'_def ino_encode_blocks)
  have len: "length (ino_encode e') = 128"
    using ok by (simp add: ino_ok_def length_ino_encode)
  let ?d = "patch d (inode_at v (i_inode f)) (ino_encode e')"
  have "ext2_symlink d v f link = Inr (0, f\<lparr>i_size := ?l\<rparr>, ?d)"
    using assms(3,6) write_inode_patch[OF v len] by (simp add: ext2_symlink_def Let_def e'_def[symmetric] sz)
  moreover have "ext2_read_inode ?d v (i_inode f) = Inr e'"
    using peek_patch[of d "inode_at v (i_inode f)" "ino_encode e'"] by (simp add: read_inode_peek[OF v] len ino_decode_encode[OF ok])
  then have "ext2_readlink ?d v (f\<lparr>i_size := ?l\<rparr>) n = Inr (int (min n ?l), take n link)"
    using assms(5,6) by (auto simp: ext2_readlink_def Let_def sz tail min_def chars_append[symmetric])
      (metis append_eq_conv_conj chars_def chars_name length_name_bytes order_less_imp_le take_all take_append take_map)+
  ultimately show ?thesis
    by blast
qed

definition demo_link :: inode where
  "demo_link = zero_inode\<lparr>i_mode := S_IFLNK OR 0x1ff, i_inode := 12\<rparr>"

theorem ext2_symlink_readlink_witness:
  "\<exists>f' d'. ext2_symlink demo_file_disk demo_vol demo_link ''usr/bin'' = Inr (0, f', d') \<and> i_size f' = 7 \<and> ext2_readlink d' demo_vol f' 3 = Inr (3, ''usr'')"
proof -
  have f: "i_inode demo_link = 12" "S_ISLNK (i_mode demo_link)"
    by (simp_all add: demo_link_def zero_inode_def S_ISLNK_def)
  have "e_size_u demo_ino = 0"
    by (simp add: demo_ino_def zero_ext2_inode_def)
  then show ?thesis
    using ext2_symlink_readlink[OF demo_vol_ok, of demo_link demo_file_disk demo_ino "''usr/bin''" 3] f(2) demo_file_read
    by (auto simp: f(1) demo_ino_num)
qed

end
