(* ===== verification/Fsys.thy ===== *)
theory Fsys
  imports Vfs Pipe
begin

text \<open>
  The system calls on files: \<^verbatim>\<open>kernel/kern/fs/open.c\<close>, \<^verbatim>\<open>readwr.c\<close>, \<^verbatim>\<open>link.c\<close>,
  \<^verbatim>\<open>fcntl.c\<close>, \<^verbatim>\<open>readdir.c\<close>, \<^verbatim>\<open>mount.c\<close>, \<^verbatim>\<open>ioctl.c\<close>, the call \<^verbatim>\<open>pipe\<close> of
  \<^verbatim>\<open>pipe.c\<close>, \<^verbatim>\<open>kernel/kern/stat.c\<close> and \<^verbatim>\<open>kernel/kern/time.c\<close>.

  The descriptor table maps numbers to addresses of \<^verbatim>\<open>struct file\<close> objects, which live in a
  store next to the kernel heap they are allocated from: descriptors made by \<open>dup\<close> and \<open>dup2\<close>
  share one object, its offset included. A pointer from user space is null, not mapped
  (\<^verbatim>\<open>PTRVALID\<close> fails), or mapped with a value behind it.
\<close>

unbundle bit_operations_syntax

subsection \<open>The calling process\<close>

datatype 'a uptr = Null | Unmapped | Mapped 'a

record 'w proc =
  pr_vfs :: "'w vfs"
  pr_heap :: kheap
  pr_fds :: "nat \<Rightarrow> addr"
  pr_files :: "addr \<rightharpoonup> kfile"
  pr_pipes :: "addr \<rightharpoonup> pipe"
  pr_workd :: string
  pr_umask :: nat

text \<open>\<^verbatim>\<open>sizeof\<close> of the structures that the calls allocate.\<close>

abbreviation (input) sizeof_file :: nat where "sizeof_file \<equiv> 88"

definition euid :: "'w proc \<Rightarrow> nat" where
  "euid pr = (case v_curr (pr_vfs pr) of None \<Rightarrow> 0 | Some c \<Rightarrow> c_euid c)"

definition egid :: "'w proc \<Rightarrow> nat" where
  "egid pr = (case v_curr (pr_vfs pr) of None \<Rightarrow> 0 | Some c \<Rightarrow> c_egid c)"

text \<open>\<^verbatim>\<open>PTRVALID\<close>, and \<^verbatim>\<open>FDVALID\<close> with the load of the descriptor behind it.\<close>

definition ptrvalid :: "'a uptr \<Rightarrow> ('a \<Rightarrow> (int \<times> 'b) run) \<Rightarrow> 'b \<Rightarrow> (int \<times> 'b) run" where
  "ptrvalid p k s = (case p of Mapped x \<Rightarrow> k x | _ \<Rightarrow> ret (- EFAULT, s))"

definition fdvalid :: "'w proc \<Rightarrow> int \<Rightarrow> bool" where
  "fdvalid pr fd \<longleftrightarrow> \<not> (fd < 0 \<or> fd \<ge> int FD_MAX \<or> pr_fds pr (nat fd) = 0)"

definition fd_file :: "'w proc \<Rightarrow> int \<Rightarrow> (kfile \<Rightarrow> 'b run) \<Rightarrow> 'b run" where
  "fd_file pr fd k = bindR (Some (load (pr_files pr) (pr_fds pr (nat fd)))) k"

definition stack_buf :: "nat \<Rightarrow> char list" where
  "stack_buf n = replicate n NUL"

definition canon_arg :: "'w proc \<Rightarrow> string \<Rightarrow> string res" where
  "canon_arg pr path =
     bindS (vfs_mkcanon (stack_buf 256) (stack_buf 256) path (Some (pr_workd pr))) (\<lambda>a. Inr (c_string a))"

definition andn :: "nat \<Rightarrow> nat \<Rightarrow> nat" where
  "andn m u = unat ((of_nat m :: 32 word) AND NOT (of_nat u))"

subsection \<open>Opening and closing\<close>

fun first_free :: "(nat \<Rightarrow> addr) \<Rightarrow> nat \<Rightarrow> nat list \<Rightarrow> nat option" where
  "first_free fds lo [] = None"
| "first_free fds lo (i # is) = (if fds i = 0 \<and> i \<ge> lo then Some i else first_free fds lo is)"

text \<open>
  The access check and the new descriptor at the end of \<open>do_sys_open\<close>. \<open>None\<close> for the file is
  the uninitialised structure on the stack.
\<close>

definition open_finish :: "'w proc \<Rightarrow> nat \<Rightarrow> kfile option \<Rightarrow> nat \<Rightarrow> (int \<times> 'w proc) run" where
  "open_finish pr i file flags =
     (case file of
        None \<Rightarrow> Some (Inl BadAccess)
      | Some f \<Rightarrow>
          if (flags AND 3 = 0 \<or> flags AND 3 = O_RDWR) \<and> \<not> check_perm (pr_vfs pr) (f_inode f) 4 then ret (- EACCES, pr)
          else if (flags AND 3 = O_WRONLY \<or> flags AND 3 = O_RDWR) \<and> \<not> check_perm (pr_vfs pr) (f_inode f) 2
            then ret (- EACCES, pr)
          else bindR (kmalloc (pr_heap pr) sizeof_file) (\<lambda>(p, h).
            if p = 0 then Some (Inl BadAccess)
            else ret (int i, pr\<lparr>pr_heap := h, pr_files := (pr_files pr)(p \<mapsto> f), pr_fds := (pr_fds pr)(i := p)\<rparr>)))"

definition do_sys_open :: "'w proc \<Rightarrow> string \<Rightarrow> nat \<Rightarrow> nat \<Rightarrow> (int \<times> 'w proc) run" where
  "do_sys_open pr path flags mode =
     (case first_free (pr_fds pr) 3 [0..<FD_MAX] of
        None \<Rightarrow> ret (- EMFILE, pr)
      | Some i \<Rightarrow>
          bindR (Some (vfs_open (pr_vfs pr) path flags)) (\<lambda>(e, file, v).
          let pr = pr\<lparr>pr_vfs := v\<rparr> in
          if e = - ENOENT then
            if flags AND O_CREAT = 0 then ret (e, pr)
            else
              bindR (Some (vfs_mknod v path (andn mode (pr_umask pr) OR S_IFREG) 0 (euid pr) (egid pr))) (\<lambda>(e, v).
              if e \<noteq> 0 then ret (e, pr\<lparr>pr_vfs := v\<rparr>)
              else
                bindR (Some (vfs_open v path flags)) (\<lambda>(_, file2, v).
                  open_finish (pr\<lparr>pr_vfs := v\<rparr>) i (if file2 = None then file else file2) flags))
          else if flags AND O_EXCL \<noteq> 0 then ret (- EEXIST, pr)
          else if e \<noteq> 0 then ret (e, pr)
          else open_finish pr i file flags))"



definition sys_access :: "'w proc \<Rightarrow> string uptr \<Rightarrow> nat \<Rightarrow> (int \<times> 'w proc) run" where
  "sys_access pr path mode =
     ptrvalid path (\<lambda>path.
       bindR (Some (canon_arg pr path)) (\<lambda>canon.
       bindR (Some (vfs_access (pr_vfs pr) canon mode)) (\<lambda>(e, v). ret (e, pr\<lparr>pr_vfs := v\<rparr>)))) pr"

text \<open>\<open>chdir\<close> copies the canonical path into the 64 bytes of \<^verbatim>\<open>task->workd\<close>.\<close>

definition sys_chdir :: "'w proc \<Rightarrow> string uptr \<Rightarrow> (int \<times> 'w proc) run" where
  "sys_chdir pr path =
     ptrvalid path (\<lambda>path.
       bindR (Some (canon_arg pr path)) (\<lambda>canon.
       bindR (Some (vfs_open (pr_vfs pr) canon 0)) (\<lambda>(e, file, v).
       let pr = pr\<lparr>pr_vfs := v\<rparr> in
       if e < 0 then ret (e, pr)
       else case file of
         None \<Rightarrow> Some (Inl BadAccess)
       | Some f \<Rightarrow>
           if \<not> S_ISDIR (i_mode (f_inode f)) then ret (- ENOTDIR, pr)
           else bindR (Some (strcpy (stack_buf 64) canon)) (\<lambda>wd. ret (0, pr\<lparr>pr_workd := c_string wd\<rparr>))))) pr"

text \<open>The value of \<open>getcwd\<close> on success is the address of the caller's buffer.\<close>

definition sys_getcwd :: "'w proc \<Rightarrow> nat uptr \<Rightarrow> nat \<Rightarrow> (int \<times> string) run" where
  "sys_getcwd pr buf sz =
     ptrvalid buf (\<lambda>a.
       if sz = 0 then ret (- EINVAL, [])
       else if sz < length (pr_workd pr) + 1 then ret (- ERANGE, [])
       else ret (int a, pr_workd pr)) []"

definition sys_chmod :: "'w proc \<Rightarrow> string uptr \<Rightarrow> nat \<Rightarrow> (int \<times> 'w proc) run" where
  "sys_chmod pr path mode =
     ptrvalid path (\<lambda>path.
       bindR (Some (canon_arg pr path)) (\<lambda>canon.
       bindR (Some (vfs_open (pr_vfs pr) canon 0)) (\<lambda>(e, file, v).
       let pr = pr\<lparr>pr_vfs := v\<rparr> in
       if e < 0 then ret (e, pr)
       else case file of
         None \<Rightarrow> Some (Inl BadAccess)
       | Some f \<Rightarrow>
           if euid pr \<noteq> 0 \<and> i_uid (f_inode f) \<noteq> euid pr then ret (- EPERM, pr)
           else let (e, v) = vfs_chmod v f mode in ret (e, pr\<lparr>pr_vfs := v\<rparr>)))) pr"

definition sys_fchmod :: "'w proc \<Rightarrow> int \<Rightarrow> nat \<Rightarrow> (int \<times> 'w proc) run" where
  "sys_fchmod pr fd mode =
     (if \<not> fdvalid pr fd then ret (- EBADF, pr)
      else fd_file pr fd (\<lambda>f.
        if euid pr \<noteq> 0 \<and> i_uid (f_inode f) \<noteq> euid pr then ret (- EPERM, pr)
        else let (e, v) = vfs_chmod (pr_vfs pr) f mode in ret (e, pr\<lparr>pr_vfs := v\<rparr>)))"

definition do_chown :: "'w proc \<Rightarrow> string \<Rightarrow> nat \<Rightarrow> nat \<Rightarrow> bool \<Rightarrow> (int \<times> 'w proc) run" where
  "do_chown pr path uid gid symlinks =
     bindR (Some (canon_arg pr path)) (\<lambda>canon.
     let flags = (if symlinks then 0 else O_PATH OR O_NOFOLLOW) in
     bindR (Some (vfs_open (pr_vfs pr) canon flags)) (\<lambda>(e, file, v).
     let pr = pr\<lparr>pr_vfs := v\<rparr> in
     if e < 0 then ret (e, pr)
     else if euid pr \<noteq> 0 then ret (- EPERM, pr)
     else case file of
       None \<Rightarrow> Some (Inl BadAccess)
     | Some f \<Rightarrow> let (e, v) = vfs_chown v f uid gid in ret (e, pr\<lparr>pr_vfs := v\<rparr>)))"

definition sys_chown :: "'w proc \<Rightarrow> string uptr \<Rightarrow> nat \<Rightarrow> nat \<Rightarrow> (int \<times> 'w proc) run" where
  "sys_chown pr path uid gid = ptrvalid path (\<lambda>path. do_chown pr path uid gid True) pr"

definition sys_fchown :: "'w proc \<Rightarrow> int \<Rightarrow> nat \<Rightarrow> nat \<Rightarrow> (int \<times> 'w proc) run" where
  "sys_fchown pr fd owner grp =
     (if \<not> fdvalid pr fd then ret (- EBADF, pr)
      else if euid pr \<noteq> 0 then ret (- EPERM, pr)
      else fd_file pr fd (\<lambda>f. let (e, v) = vfs_chown (pr_vfs pr) f owner grp in ret (e, pr\<lparr>pr_vfs := v\<rparr>)))"

definition sys_lchown :: "'w proc \<Rightarrow> string uptr \<Rightarrow> nat \<Rightarrow> nat \<Rightarrow> (int \<times> 'w proc) run" where
  "sys_lchown pr path owner grp = ptrvalid path (\<lambda>path. do_chown pr path owner grp False) pr"

subsection \<open>Reading, writing, seeking\<close>


text \<open>\<open>buf\<close> holds the bytes at the caller's address, at least as many as the call passes.\<close>

definition sys_write :: "'w proc \<Rightarrow> int \<Rightarrow> u8 list uptr \<Rightarrow> nat \<Rightarrow> (int \<times> 'w proc) run" where
  "sys_write pr fd buf sz =
     (if \<not> fdvalid pr fd then ret (- EBADF, pr)
      else ptrvalid buf (\<lambda>bs. fd_file pr fd (\<lambda>f.
        let f = (if f_flags f AND O_APPEND \<noteq> 0 then f\<lparr>f_off := int (i_size (f_inode f))\<rparr> else f) in
        bindR (vfs_write (pr_vfs pr) f bs sz) (\<lambda>(n, f, v).
          ret (n, pr\<lparr>pr_vfs := v, pr_files := (pr_files pr)(pr_fds pr (nat fd) \<mapsto> f)\<rparr>)))) pr)"

definition sys_pread :: "'w proc \<Rightarrow> int \<Rightarrow> unit uptr \<Rightarrow> nat \<Rightarrow> int \<Rightarrow> (int \<times> u8 list \<times> 'w proc) run" where
  "sys_pread pr fd buf sz off =
     (if \<not> fdvalid pr fd then ret (- EBADF, [], pr)
      else ptrvalid buf (\<lambda>_. fd_file pr fd (\<lambda>f.
        bindR (vfs_pread (pr_vfs pr) f sz off) (\<lambda>(n, xs, v). ret (n, xs, pr\<lparr>pr_vfs := v\<rparr>)))) ([], pr))"

definition sys_pwrite :: "'w proc \<Rightarrow> int \<Rightarrow> u8 list uptr \<Rightarrow> nat \<Rightarrow> int \<Rightarrow> (int \<times> 'w proc) run" where
  "sys_pwrite pr fd buf sz off =
     ptrvalid buf (\<lambda>bs.
       if \<not> fdvalid pr fd then ret (- EBADF, pr)
       else fd_file pr fd (\<lambda>f.
         bindR (vfs_pwrite (pr_vfs pr) f bs sz off) (\<lambda>(n, v). ret (n, pr\<lparr>pr_vfs := v\<rparr>)))) pr"

definition lseek_off :: "kfile \<Rightarrow> int \<Rightarrow> int \<Rightarrow> int option" where
  "lseek_off f offset whence =
     (if whence = 0 then
        Some (if f_flags f AND O_APPEND \<noteq> 0 then offset + int (i_size (f_inode f)) else offset)
      else if whence = 2 then Some (int (i_size (f_inode f)) + offset)
      else if whence = 1 then Some (f_off f + offset)
      else None)"

definition sys_lseek :: "'w proc \<Rightarrow> int \<Rightarrow> int \<Rightarrow> int \<Rightarrow> (int \<times> 'w proc) run" where
  "sys_lseek pr fd offset whence =
     (if \<not> fdvalid pr fd then ret (- EBADF, pr)
      else fd_file pr fd (\<lambda>f.
        case lseek_off f offset whence of
          None \<Rightarrow> ret (- EINVAL, pr)
        | Some n \<Rightarrow> ret (n, pr\<lparr>pr_files := (pr_files pr)(pr_fds pr (nat fd) \<mapsto> f\<lparr>f_off := n\<rparr>)\<rparr>)))"

text \<open>The loops of \<open>readv\<close> and \<open>writev\<close> over the caller's vector, which is read entry by entry.\<close>

fun readv_loop :: "'w proc \<Rightarrow> nat \<Rightarrow> nat uptr list \<Rightarrow> int \<Rightarrow> u8 list \<Rightarrow> (int \<times> u8 list \<times> 'w proc) run" where
  "readv_loop pr fd [] bytes out = ret (bytes, out, pr)"
| "readv_loop pr fd (e # es) bytes out =
     ptrvalid e (\<lambda>len.
       bindR (Some (load (pr_files pr) (pr_fds pr fd))) (\<lambda>f.
       bindR (vfs_read (pr_vfs pr) f len) (\<lambda>(n, xs, f, v).
       let pr = pr\<lparr>pr_vfs := v, pr_files := (pr_files pr)(pr_fds pr fd \<mapsto> f)\<rparr> in
       if n < 0 then ret (n, out @ xs, pr) else readv_loop pr fd es (bytes + n) (out @ xs)))) (out, pr)"

definition sys_readv :: "'w proc \<Rightarrow> int \<Rightarrow> (nat \<Rightarrow> nat uptr) uptr \<Rightarrow> int \<Rightarrow> (int \<times> u8 list \<times> 'w proc) run" where
  "sys_readv pr fd iov iovcnt =
     (if \<not> fdvalid pr fd then ret (- EBADF, [], pr)
      else ptrvalid iov (\<lambda>iov.
        if iovcnt < 0 then ret (- EINVAL, [], pr)
        else readv_loop pr (nat fd) (map iov [0..<nat iovcnt]) 0 []) ([], pr))"

fun writev_loop :: "'w proc \<Rightarrow> nat \<Rightarrow> (u8 list uptr \<times> nat) uptr list \<Rightarrow> int \<Rightarrow> (int \<times> 'w proc) run" where
  "writev_loop pr fd [] bytes = ret (bytes, pr)"
| "writev_loop pr fd (e # es) bytes =
     ptrvalid e (\<lambda>(base, len). ptrvalid base (\<lambda>bs.
       bindR (Some (load (pr_files pr) (pr_fds pr fd))) (\<lambda>f.
       bindR (vfs_write (pr_vfs pr) f bs len) (\<lambda>(n, f, v).
       let pr = pr\<lparr>pr_vfs := v, pr_files := (pr_files pr)(pr_fds pr fd \<mapsto> f)\<rparr> in
       if n < 0 then ret (n, pr) else writev_loop pr fd es (bytes + n)))) pr) pr"

definition sys_writev :: "'w proc \<Rightarrow> int \<Rightarrow> (nat \<Rightarrow> (u8 list uptr \<times> nat) uptr) uptr \<Rightarrow> int \<Rightarrow> (int \<times> 'w proc) run" where
  "sys_writev pr fd iov iovcnt =
     (if \<not> fdvalid pr fd then ret (- EBADF, pr)
      else ptrvalid iov (\<lambda>iov.
        if iovcnt < 0 then ret (- EINVAL, pr)
        else writev_loop pr (nat fd) (map iov [0..<nat iovcnt]) 0) pr)"

subsection \<open>Names\<close>

definition sys_mkdir :: "'w proc \<Rightarrow> string uptr \<Rightarrow> nat \<Rightarrow> (int \<times> 'w proc) run" where
  "sys_mkdir pr path mode =
     ptrvalid path (\<lambda>path.
       bindR (Some (canon_arg pr path)) (\<lambda>canon.
       if canon = [] then ret (- ENOENT, pr)
       else bindR (sys_access pr (Mapped canon) 0) (\<lambda>(e, pr).
         if e = 0 then ret (- EEXIST, pr)
         else bindR (Some (vfs_mkdir (pr_vfs pr) canon (andn mode (pr_umask pr)) (euid pr) (egid pr))) (\<lambda>(e, v).
           ret (e, pr\<lparr>pr_vfs := v\<rparr>))))) pr"

definition sys_unlink :: "'w proc \<Rightarrow> string uptr \<Rightarrow> (int \<times> 'w proc) run" where
  "sys_unlink pr path =
     ptrvalid path (\<lambda>path.
       bindR (Some (canon_arg pr path)) (\<lambda>canon.
       bindR (Some (vfs_unlink (pr_vfs pr) canon)) (\<lambda>(e, v). ret (e, pr\<lparr>pr_vfs := v\<rparr>)))) pr"

definition sys_symlink :: "'w proc \<Rightarrow> string uptr \<Rightarrow> string uptr \<Rightarrow> (int \<times> 'w proc) run" where
  "sys_symlink pr target linkpath =
     ptrvalid target (\<lambda>target. ptrvalid linkpath (\<lambda>linkpath.
       bindR (Some (canon_arg pr linkpath)) (\<lambda>canon.
       bindR (Some (vfs_symlink (pr_vfs pr) target canon)) (\<lambda>(e, v). ret (e, pr\<lparr>pr_vfs := v\<rparr>)))) pr) pr"

definition sys_link :: "'w proc \<Rightarrow> string uptr \<Rightarrow> string uptr \<Rightarrow> (int \<times> 'w proc) run" where
  "sys_link pr old new =
     ptrvalid old (\<lambda>old. ptrvalid new (\<lambda>new.
       bindR (Some (canon_arg pr old)) (\<lambda>oldcanon.
       bindR (Some (canon_arg pr new)) (\<lambda>newcanon.
       bindR (Some (vfs_link (pr_vfs pr) oldcanon newcanon)) (\<lambda>(e, v). ret (e, pr\<lparr>pr_vfs := v\<rparr>))))) pr) pr"

definition sys_rename :: "'w proc \<Rightarrow> string uptr \<Rightarrow> string uptr \<Rightarrow> (int \<times> 'w proc) run" where
  "sys_rename pr old new =
     ptrvalid old (\<lambda>old. ptrvalid new (\<lambda>new.
       bindR (Some (canon_arg pr old)) (\<lambda>oldcanon.
       bindR (Some (canon_arg pr new)) (\<lambda>newcanon.
       bindR (Some (vfs_rename (pr_vfs pr) oldcanon newcanon)) (\<lambda>(e, v). ret (e, pr\<lparr>pr_vfs := v\<rparr>))))) pr) pr"

definition sys_rmdir :: "'w proc \<Rightarrow> string uptr \<Rightarrow> (int \<times> 'w proc) run" where
  "sys_rmdir pr path =
     ptrvalid path (\<lambda>path.
       bindR (Some (canon_arg pr path)) (\<lambda>canon.
       bindR (Some (vfs_rmdir (pr_vfs pr) canon)) (\<lambda>(e, v). ret (e, pr\<lparr>pr_vfs := v\<rparr>)))) pr"

text \<open>Unlike the others, \<open>mknod\<close> uses the path as the caller gave it.\<close>

definition sys_mknod :: "'w proc \<Rightarrow> string uptr \<Rightarrow> nat \<Rightarrow> nat \<Rightarrow> (int \<times> 'w proc) run" where
  "sys_mknod pr path mode dev =
     ptrvalid path (\<lambda>path.
       bindR (Some (vfs_mknod (pr_vfs pr) path mode dev (euid pr) (egid pr))) (\<lambda>(e, v). ret (e, pr\<lparr>pr_vfs := v\<rparr>))) pr"

subsection \<open>Descriptors\<close>

definition sys_fcntl :: "'w proc \<Rightarrow> int \<Rightarrow> int \<Rightarrow> nat \<Rightarrow> (int \<times> 'w proc) run" where
  "sys_fcntl pr fd cmd arg =
     (if \<not> fdvalid pr fd then ret (- EBADF, pr)
      else fd_file pr fd (\<lambda>f.
        if cmd = 2 then ret (0, pr)
        else if cmd = 4 then ret (int (f_flags f), pr)
        else if cmd = 3 then ret (0, pr)
        else ret (- EINVAL, pr)))"


definition sys_dup2 :: "'w proc \<Rightarrow> int \<Rightarrow> int \<Rightarrow> (int \<times> 'w proc) run" where
  "sys_dup2 pr oldfd newfd =
     (if \<not> fdvalid pr oldfd then ret (- EBADF, pr)
      else if newfd < 0 \<or> newfd \<ge> int FD_MAX then ret (- EBADF, pr)
      else ret (newfd, pr\<lparr>pr_fds := (pr_fds pr)(nat newfd := pr_fds pr (nat oldfd))\<rparr>))"


definition sys_ioctl :: "'w proc \<Rightarrow> int \<Rightarrow> int \<Rightarrow> nat uptr \<Rightarrow> (int \<times> 'w proc) run" where
  "sys_ioctl pr fd req argp =
     (if \<not> fdvalid pr fd then ret (- EBADF, pr)
      else if argp = Unmapped then ret (- EFAULT, pr)
      else fd_file pr fd (\<lambda>f.
        if S_ISREG (i_mode (f_inode f)) \<or> S_ISDIR (i_mode (f_inode f)) then ret (- ENOTTY, pr)
        else let (e, v) = vfs_ioctl (pr_vfs pr) f req (case argp of Mapped a \<Rightarrow> a | _ \<Rightarrow> 0)
          in ret (e, pr\<lparr>pr_vfs := v\<rparr>)))"

definition sys_mount :: "'w proc \<Rightarrow> string uptr \<Rightarrow> string uptr \<Rightarrow> string uptr \<Rightarrow> nat \<Rightarrow> nat uptr \<Rightarrow> (int \<times> 'w proc) run" where
  "sys_mount pr src dst fs flags data =
     ptrvalid src (\<lambda>src. ptrvalid dst (\<lambda>dst. ptrvalid fs (\<lambda>fs.
       if data = Unmapped then ret (- EFAULT, pr)
       else let (e, v) = vfs_mount_fs (pr_vfs pr) src dst fs (case data of Mapped a \<Rightarrow> a | _ \<Rightarrow> 0)
         in ret (e, pr\<lparr>pr_vfs := v\<rparr>)) pr) pr) pr"

definition sys_umount :: "'w proc \<Rightarrow> string uptr \<Rightarrow> (int \<times> 'w proc) run" where
  "sys_umount pr target =
     ptrvalid target (\<lambda>target.
       bindR (Some (vfs_umount_fs (pr_vfs pr) target)) (\<lambda>(e, v). ret (e, pr\<lparr>pr_vfs := v\<rparr>))) pr"

subsection \<open>Status and tms\<close>

record kstat =
  st_dev :: nat
  st_ino :: nat
  st_mode :: nat
  st_nlink :: nat
  st_uid :: nat
  st_gid :: nat
  st_rdev :: nat
  st_size :: nat
  st_blksize :: int
  st_blocks :: int
  st_atim :: int
  st_mtim :: int
  st_ctim :: int

definition do_kstat :: "inode \<Rightarrow> kstat" where
  "do_kstat i = \<lparr>st_dev = 0, st_ino = i_inode i, st_mode = i_mode i, st_nlink = i_nlink i, st_uid = i_uid i,
     st_gid = i_gid i, st_rdev = i_rdev i, st_size = i_size i, st_blksize = i_blksize i, st_blocks = i_blocks i,
     st_atim = i_atime i, st_mtim = i_mtime i, st_ctim = i_ctime i\<rparr>"

text \<open>What \<open>stat\<close> and \<open>lstat\<close> share: they differ in the flags they open with.\<close>

definition stat_path :: "'w proc \<Rightarrow> string \<Rightarrow> nat \<Rightarrow> (int \<times> kstat option \<times> 'w proc) run" where
  "stat_path pr path flags =
     bindR (Some (canon_arg pr path)) (\<lambda>canon.
     bindR (Some (vfs_open (pr_vfs pr) canon flags)) (\<lambda>(e, file, v).
     let pr = pr\<lparr>pr_vfs := v\<rparr> in
     if e < 0 then ret (e, None, pr)
     else case file of
       None \<Rightarrow> Some (Inl BadAccess)
     | Some f \<Rightarrow> ret (0, Some (do_kstat (f_inode f)), pr)))"

definition sys_stat :: "'w proc \<Rightarrow> string uptr \<Rightarrow> unit uptr \<Rightarrow> (int \<times> kstat option \<times> 'w proc) run" where
  "sys_stat pr path buf = ptrvalid path (\<lambda>path. ptrvalid buf (\<lambda>_. stat_path pr path 0) (None, pr)) (None, pr)"

definition sys_fstat :: "'w proc \<Rightarrow> int \<Rightarrow> unit uptr \<Rightarrow> (int \<times> kstat option \<times> 'w proc) run" where
  "sys_fstat pr fd buf =
     ptrvalid buf (\<lambda>_.
       if \<not> fdvalid pr fd then ret (- EBADF, None, pr)
       else fd_file pr fd (\<lambda>f. ret (0, Some (do_kstat (f_inode f)), pr))) (None, pr)"

definition sys_lstat :: "'w proc \<Rightarrow> string uptr \<Rightarrow> unit uptr \<Rightarrow> (int \<times> kstat option \<times> 'w proc) run" where
  "sys_lstat pr path buf =
     ptrvalid path (\<lambda>path. ptrvalid buf (\<lambda>_. stat_path pr path (O_NOFOLLOW OR O_PATH)) (None, pr)) (None, pr)"

definition sys_readlink :: "'w proc \<Rightarrow> string uptr \<Rightarrow> unit uptr \<Rightarrow> nat \<Rightarrow> (int \<times> char list \<times> 'w proc) run" where
  "sys_readlink pr path buf n =
     ptrvalid path (\<lambda>path. ptrvalid buf (\<lambda>_.
       bindR (Some (canon_arg pr path)) (\<lambda>canon.
       bindR (Some (vfs_open (pr_vfs pr) canon (O_NOFOLLOW OR O_PATH))) (\<lambda>(e, file, v).
       let pr = pr\<lparr>pr_vfs := v\<rparr> in
       if e < 0 then ret (e, [], pr)
       else case file of
         None \<Rightarrow> Some (Inl BadAccess)
       | Some f \<Rightarrow>
           if \<not> S_ISLNK (i_mode (f_inode f)) then ret (- EINVAL, [], pr)
           else let (r, s) = vfs_readlink v (f_inode f) n in ret (r, s, pr)))) ([], pr)) ([], pr)"

text \<open>\<open>do_utime\<close> hands the modification time to \<open>set_atime\<close> as well.\<close>

definition do_utime :: "'w proc \<Rightarrow> string \<Rightarrow> (int \<times> int) option \<Rightarrow> (int \<times> 'w proc) run" where
  "do_utime pr path tms =
     bindR (Some (vfs_open (pr_vfs pr) path O_RDWR)) (\<lambda>(e, file, v).
     let pr = pr\<lparr>pr_vfs := v\<rparr> in
     if e < 0 then ret (e, pr)
     else case file of
       None \<Rightarrow> Some (Inl BadAccess)
     | Some f \<Rightarrow>
         let i = f_inode f in
         if i_uid i \<noteq> euid pr \<and> euid pr \<noteq> 0 then ret (- EPERM, pr)
         else case (io_set_atime (v_ops v (i_ops i)), io_set_mtime (v_ops v (i_ops i))) of
           (Some sa, Some sm) \<Rightarrow>
             (case tms of
                None \<Rightarrow> ret (- ENOSYS, pr)
              | Some (actime, modtime) \<Rightarrow>
                  let (e, w) = sa (v_world v) i actime; pr = pr\<lparr>pr_vfs := v\<lparr>v_world := w\<rparr>\<rparr> in
                  if e < 0 then ret (e, pr)
                  else let (e, w) = sa w i modtime; pr = pr\<lparr>pr_vfs := v\<lparr>v_world := w\<rparr>\<rparr> in
                    if e < 0 then ret (e, pr) else ret (0, pr))
         | _ \<Rightarrow> ret (- ENOENT, pr))"

text \<open>
  \<open>utime\<close> and \<open>utimes\<close> pass the array on their stack that holds the canonical path, at the
  address \<open>sp\<close>, to \<open>kfree\<close>.
\<close>

definition sys_utime :: "'w proc \<Rightarrow> addr \<Rightarrow> string uptr \<Rightarrow> (int \<times> int) uptr \<Rightarrow> (int \<times> 'w proc) run" where
  "sys_utime pr sp path tms =
     ptrvalid path (\<lambda>path.
       if tms = Unmapped then ret (- EFAULT, pr)
       else bindR (Some (canon_arg pr path)) (\<lambda>canon.
         bindR (do_utime pr canon (case tms of Mapped t \<Rightarrow> Some t | _ \<Rightarrow> None)) (\<lambda>(e, pr).
         bindR (kfree (pr_heap pr) sp) (\<lambda>h. ret (e, pr\<lparr>pr_heap := h\<rparr>))))) pr"

text \<open>The two \<^verbatim>\<open>struct timeval\<close> of \<open>utimes\<close>, seconds and microseconds; only the seconds are used.\<close>

definition sys_utimes :: "'w proc \<Rightarrow> addr \<Rightarrow> string uptr \<Rightarrow> ((int \<times> int) \<times> (int \<times> int)) uptr \<Rightarrow> (int \<times> 'w proc) run" where
  "sys_utimes pr sp path tms =
     ptrvalid path (\<lambda>path.
       if tms = Unmapped then ret (- EFAULT, pr)
       else bindR (Some (canon_arg pr path)) (\<lambda>canon.
         bindR (do_utime pr canon (case tms of Mapped (t0, t1) \<Rightarrow> Some (fst t0, fst t1) | _ \<Rightarrow> None)) (\<lambda>(e, pr).
         bindR (kfree (pr_heap pr) sp) (\<lambda>h. ret (e, pr\<lparr>pr_heap := h\<rparr>))))) pr"

subsection \<open>The pipe call\<close>





subsection \<open>The descriptor table\<close>

text \<open>
  The invariant of the table: every descriptor that is not null points to a live
  \<^verbatim>\<open>struct file\<close>, and all of them lie in blocks of the kernel heap that are in use.
\<close>

definition proc_inv :: "'w proc \<Rightarrow> bool" where
  "proc_inv pr \<longleftrightarrow> heap_inv (pr_heap pr) \<and> dom (pr_files pr) \<subseteq> fst ` live (pr_heap pr) \<and>
     (\<forall>i. pr_fds pr i \<noteq> 0 \<longrightarrow> pr_fds pr i \<in> dom (pr_files pr))"

lemma heap_inv_mem [simp]: "heap_inv (h\<lparr>h_mem := m\<rparr>) = heap_inv h" "live (h\<lparr>h_mem := m\<rparr>) = live h"
  by (simp_all add: heap_inv_def heap_rep_def live_def)




lemma proc_inv_vfs [simp]: "proc_inv (pr\<lparr>pr_vfs := v\<rparr>) = proc_inv pr"
  by (simp add: proc_inv_def)





lemma first_free_none: "first_free fds lo is = None \<Longrightarrow> i \<in> set is \<Longrightarrow> lo \<le> i \<Longrightarrow> fds i \<noteq> 0"
  by (induction "is") (auto split: if_splits)

subsection \<open>What opening does\<close>





subsection \<open>Every call keeps the table\<close>
















lemma proc_inv_workd [simp]: "proc_inv (pr\<lparr>pr_workd := w\<rparr>) = proc_inv pr"
  by (simp add: proc_inv_def)






subsection \<open>A process for the witnesses\<close>

definition tree_proc :: "nat proc" where
  "tree_proc = \<lparr>pr_vfs = tree_vfs, pr_heap = boot_heap, pr_fds = (\<lambda>_. 0), pr_files = Map.empty, pr_pipes = Map.empty,
     pr_workd = slash, pr_umask = 0\<rparr>"


lemma tree_kmalloc: "\<exists>h. kmalloc boot_heap sizeof_file = ret (0xffffffffc0000020, h)"
proof -
  have "round32 88 = 96" by (simp add: round32_def)
  then show ?thesis using kmalloc_refines [OF boot_heap_rep boot_heap_wf boot_heap_lock, of 88] by auto
qed

definition tree_open_file :: kfile where
  "tree_open_file = \<lparr>f_inode = tree_file, f_off = 0, f_flags = 0, f_ops = 1\<rparr>"

lemma tree_vfs_open: "vfs_open tree_vfs ''/f'' 0 = Inr (0, Some tree_open_file, tree_vfs)"
proof -
  have "vfs_resolve tree_vfs ''/f'' True = Inr (Inr tree_file)" by (simp add: vfs_resolve_def do_vfs_resolve_hop tree_hop)
  moreover have "fo_open (v_fops tree_vfs (i_fops tree_file)) = None" "i_fops tree_file = 1"
    by (simp_all add: tree_vfs_def tree_file_def no_file_ops_def)
  ultimately show ?thesis by (simp add: vfs_open_def Let_def tree_open_file_def)
qed

lemma tree_open_none: "vfs_open tree_vfs ''/none'' f = Inr (- ENOENT, None, tree_vfs)"
  by (simp add: vfs_open_def vfs_resolve_def do_vfs_resolve_hop tree_hop)

lemma tree_first_free: "first_free (\<lambda>_. 0) 3 [0..<FD_MAX] = Some 3"
  by (simp add: upt_rec)

lemma tree_perm: "check_perm tree_vfs tree_file 4" "\<not> check_perm tree_vfs tree_file 2"
  by (simp_all add: check_perm_def vfs_checkperm_def tree_vfs_def tree_file_def zero_inode_def)

lemma tree_do_open:
  "\<exists>h. kmalloc boot_heap sizeof_file = ret (0xffffffffc0000020, h) \<and> do_sys_open tree_proc ''/f'' 0 0 =
    ret (3, tree_proc\<lparr>pr_heap := h, pr_files := [0xffffffffc0000020 \<mapsto> tree_open_file], pr_fds := (\<lambda>_. 0)(3 := 0xffffffffc0000020)\<rparr>)"
proof -
  obtain h where h: "kmalloc boot_heap sizeof_file = ret (0xffffffffc0000020, h)" using tree_kmalloc by blast
  have sel: "pr_fds tree_proc = (\<lambda>_. 0)" "pr_vfs tree_proc = tree_vfs" "pr_heap tree_proc = boot_heap" "pr_files tree_proc = Map.empty"
    by (simp_all add: tree_proc_def)
  have upd: "tree_proc\<lparr>pr_vfs := tree_vfs\<rparr> = tree_proc" by (simp add: tree_proc_def)
  have fi: "f_inode tree_open_file = tree_file" by (simp add: tree_open_file_def)
  show ?thesis
    using h by (simp add: do_sys_open_def sel tree_first_free tree_vfs_open upd open_finish_def fi tree_perm del: upt_rec_numeral)
qed

subsection \<open>Properties\<close>





text \<open>
  the access mode is checked when a file is opened and never again: a descriptor opened
  read-only by a caller without write permission passes every \<open>sys_write\<close> on to the file
  system.
\<close>

theorem readonly_descriptor_writes:
  assumes "fdvalid pr fd" and "pr_files pr (pr_fds pr (nat fd)) = Some f" and "f_flags f AND 3 = 0"
    and "f_flags f AND O_APPEND = 0" and "\<not> check_perm (pr_vfs pr) (f_inode f) 2"
    and "fo_write (v_fops (pr_vfs pr) (f_ops f)) = Some wr" and "wr (v_world (pr_vfs pr)) f bs (f_off f) sz = ret (n, w)"
  shows "\<exists>pr'. sys_write pr fd (Mapped bs) sz = ret (n, pr') \<and> v_world (pr_vfs pr') = w"
  using assms by (simp add: sys_write_def ptrvalid_def fd_file_def vfs_write_def)

theorem readonly_descriptor_writes_witness:
  "\<exists>pr1 pr2. do_sys_open tree_proc ''/f'' 0 0 = ret (3, pr1) \<and> \<not> check_perm (pr_vfs pr1) tree_file 2 \<and>
     sys_write pr1 3 (Mapped [1, 2]) 2 = ret (2, pr2) \<and> v_world (pr_vfs pr2) = 2"
proof -
  obtain h where op: "do_sys_open tree_proc ''/f'' 0 0 =
      ret (3, tree_proc\<lparr>pr_heap := h, pr_files := [0xffffffffc0000020 \<mapsto> tree_open_file], pr_fds := (\<lambda>_. 0)(3 := 0xffffffffc0000020)\<rparr>)"
    (is "_ = ret (3, ?pr)") using tree_do_open by blast
  have v: "pr_vfs ?pr = tree_vfs" by (simp add: tree_proc_def)
  have w: "fo_write (v_fops tree_vfs (f_ops tree_open_file)) = Some (\<lambda>w f buf off sz. ret (int sz, w + sz))" "v_world tree_vfs = 0"
    by (simp_all add: tree_vfs_def tree_open_file_def)
  have np: "\<not> check_perm (pr_vfs ?pr) tree_file 2" using tree_perm v by simp
  have "\<exists>pr'. sys_write ?pr 3 (Mapped [1, 2]) 2 = ret (2, pr') \<and> v_world (pr_vfs pr') = 2"
  proof (rule readonly_descriptor_writes)
    show "fdvalid ?pr 3" by (simp add: fdvalid_def)
    show "pr_files ?pr (pr_fds ?pr (nat 3)) = Some tree_open_file" by simp
    show "\<not> check_perm (pr_vfs ?pr) (f_inode tree_open_file) 2" using np by (simp add: tree_open_file_def)
    show "fo_write (v_fops (pr_vfs ?pr) (f_ops tree_open_file)) = Some (\<lambda>w f buf off sz. ret (int sz, w + sz))" using w v by simp
  qed (simp_all add: tree_open_file_def tree_proc_def w)
  then show ?thesis using op np by blast
qed

text \<open>
  With \<^verbatim>\<open>O_CREAT\<close> on a file system that has no \<open>mknod\<close>, a path that does not exist makes
  \<open>do_sys_open\<close> use the file structure on its stack that neither of its two \<open>vfs_open\<close> calls has
  filled in.
\<close>

theorem open_creat_uninitialised:
  assumes "first_free (pr_fds pr) 3 [0..<FD_MAX] = Some i" and "flags AND O_CREAT \<noteq> 0"
    and "vfs_resolve (pr_vfs pr) path (flags AND O_NOFOLLOW = 0) = Inr (Inl (- ENOENT))"
    and "get_parent_dir (pr_vfs pr) path = Inr (Inr (dir, name))" and "io_mknod (v_ops (pr_vfs pr) (i_ops dir)) = None"
  shows "do_sys_open pr path flags mode = Some (Inl BadAccess)"
  using assms by (simp add: do_sys_open_def vfs_open_def vfs_mknod_def open_finish_def)

theorem open_creat_uninitialised_witness: "do_sys_open tree_proc ''/none'' O_CREAT 0x1b6 = Some (Inl BadAccess)"
proof (rule open_creat_uninitialised)
  show "first_free (pr_fds tree_proc) 3 [0..<FD_MAX] = Some 3" using tree_first_free by (simp add: tree_proc_def)
  show "vfs_resolve (pr_vfs tree_proc) ''/none'' (O_CREAT AND O_NOFOLLOW = 0) = Inr (Inl (- ENOENT))"
    by (simp add: tree_proc_def vfs_resolve_def do_vfs_resolve_hop tree_hop)
  show "get_parent_dir (pr_vfs tree_proc) ''/none'' = Inr (Inr (tree_root, ''none''))"
    by (simp add: tree_proc_def get_parent_dir_def tree_getmnt)
  show "io_mknod (v_ops (pr_vfs tree_proc) (i_ops tree_root)) = None"
    by (simp add: tree_proc_def tree_vfs_def tree_root_def no_inode_ops_def)
qed simp

definition tree_root_file :: kfile where
  "tree_root_file = \<lparr>f_inode = tree_root, f_off = 0, f_flags = 0, f_ops = i_fops tree_root\<rparr>"

lemma tree_canon_root: "canon_arg tree_proc slash = Inr slash"
proof -
  have "\<exists>r. vfs_mkcanon (stack_buf 256) (stack_buf 256) slash (Some slash) = Inr r \<and> c_string r = slash"
    using vfs_mkcanon_spec[of slash "Some slash" "stack_buf 256" "stack_buf 256"]
    by (simp add: full_path_def canon_path_def components_def join_path_def stack_buf_def)
  then show ?thesis by (auto simp: canon_arg_def tree_proc_def)
qed

lemma tree_open_root: "vfs_open (pr_vfs tree_proc) slash m = Inr (0, Some (tree_root_file\<lparr>f_flags := m\<rparr>), tree_vfs)"
proof -
  have "tokens [] slash = []" by (simp add: tokens_components components_def)
  then have "vfs_resolve tree_vfs slash b = Inr (Inr tree_root)" for b
    by (simp add: vfs_resolve_def do_vfs_resolve_hop hop_def tree_getmnt)
  moreover have "fo_open (v_fops tree_vfs (i_fops tree_root)) = None"
    by (simp add: tree_vfs_def tree_root_def zero_inode_def no_file_ops_def)
  ultimately show ?thesis by (simp add: vfs_open_def tree_proc_def Let_def tree_root_file_def)
qed

text \<open>
  \<open>chdir\<close> to a directory stores the canonical path in the task exactly when it is shorter
  than the 64 bytes of \<^verbatim>\<open>workd\<close>; a longer one, which \<open>vfs_mkcanon\<close> lets pass up to 255
  characters, is written past the end of the field.
\<close>

theorem sys_chdir_bound:
  assumes "canon_arg pr path = Inr cn" and "vfs_open (pr_vfs pr) cn 0 = Inr (e, Some f, v)" and "0 \<le> e"
    and "S_ISDIR (i_mode (f_inode f))" and "NUL \<notin> set cn"
  shows "sys_chdir pr (Mapped path) =
    (if length cn < 64 then ret (0, pr\<lparr>pr_vfs := v, pr_workd := cn\<rparr>) else Some (Inl Overrun))"
proof (cases "length cn < 64")
  case True
  then obtain d where "strcpy (stack_buf 64) cn = Inr d" "c_string d = cn"
    using strcpy_c_string[of cn "stack_buf 64"] assms(5) by (auto simp: stack_buf_def)
  then show ?thesis using assms True by (simp add: sys_chdir_def ptrvalid_def)
next
  case False
  then have "strcpy (stack_buf 64) cn = Inl Overrun"
    using strcpy_at_overrun[of 0 "stack_buf 64" cn] by (simp add: strcpy_def stack_buf_def)
  then show ?thesis using assms False by (simp add: sys_chdir_def ptrvalid_def)
qed

theorem sys_chdir_bound_witness:
  "sys_chdir tree_proc (Mapped slash) = ret (0, tree_proc\<lparr>pr_vfs := tree_vfs, pr_workd := slash\<rparr>)"
  using sys_chdir_bound[OF tree_canon_root tree_open_root] by (simp add: tree_root_file_def tree_root_def S_ISDIR_def)

text \<open>
  descriptors made by \<open>dup2\<close> share one open file: after \<open>dup2\<close>, seeking through either
  descriptor moves the offset that the other one reports.
\<close>

theorem dup2_shares_offset:
  assumes "fdvalid pr fd" and "0 \<le> fd2" and "fd2 < int FD_MAX" and "pr_files pr (pr_fds pr (nat fd)) = Some f"
    and "lseek_off f off whence = Some n"
  shows "\<exists>pr1 pr2. sys_dup2 pr fd fd2 = ret (fd2, pr1) \<and> sys_lseek pr1 fd off whence = ret (n, pr2) \<and>
    sys_lseek pr2 fd2 0 1 = ret (n, pr2) \<and> sys_lseek pr2 fd 0 1 = ret (n, pr2)"
proof -
  let ?p = "pr_fds pr (nat fd)"
  let ?pr1 = "pr\<lparr>pr_fds := (pr_fds pr)(nat fd2 := ?p)\<rparr>"
  let ?pr2 = "?pr1\<lparr>pr_files := (pr_files pr)(?p \<mapsto> f\<lparr>f_off := n\<rparr>)\<rparr>"
  have fds: "pr_fds ?pr1 (nat fd) = ?p" "pr_fds ?pr1 (nat fd2) = ?p" by simp_all
  have v: "fdvalid ?pr1 fd" "fdvalid ?pr2 fd" "fdvalid ?pr2 fd2"
    using assms(1-3) by (auto simp: fdvalid_def)
  have "sys_dup2 pr fd fd2 = ret (fd2, ?pr1)" using assms(1-3) by (simp add: sys_dup2_def)
  moreover have "sys_lseek ?pr1 fd off whence = ret (n, ?pr2)"
    using v assms(4,5) by (simp add: sys_lseek_def fd_file_def fds)
  moreover have "sys_lseek ?pr2 g 0 1 = ret (n, ?pr2)" if "fdvalid ?pr2 g" "pr_fds ?pr1 (nat g) = ?p" for g
    using that by (simp add: sys_lseek_def fd_file_def lseek_off_def fun_upd_idem)
  ultimately show ?thesis using v fds by blast
qed

theorem dup2_shares_offset_witness:
  "\<exists>pr pr1 pr2. do_sys_open tree_proc ''/f'' 0 0 = ret (3, pr) \<and> sys_dup2 pr 3 7 = ret (7, pr1) \<and>
     sys_lseek pr1 3 42 0 = ret (42, pr2) \<and> sys_lseek pr2 7 0 1 = ret (42, pr2)"
proof -
  obtain h where op: "do_sys_open tree_proc ''/f'' 0 0 =
      ret (3, tree_proc\<lparr>pr_heap := h, pr_files := [0xffffffffc0000020 \<mapsto> tree_open_file], pr_fds := (\<lambda>_. 0)(3 := 0xffffffffc0000020)\<rparr>)"
    (is "_ = ret (3, ?pr)") using tree_do_open by blast
  have "\<exists>pr1 pr2. sys_dup2 ?pr 3 7 = ret (7, pr1) \<and> sys_lseek pr1 3 42 0 = ret (42, pr2) \<and>
     sys_lseek pr2 7 0 1 = ret (42, pr2) \<and> sys_lseek pr2 3 0 1 = ret (42, pr2)"
    by (rule dup2_shares_offset[where f = tree_open_file]) (simp_all add: fdvalid_def lseek_off_def tree_open_file_def)
  then show ?thesis using op by blast
qed





text \<open>
  \<open>utime\<close> hands the array on its stack to \<open>kfree\<close>: whenever the rest of the call comes
  through, the call ends in an access outside the heap, for every stack address that is not
  the payload of a heap block.
\<close>

theorem sys_utime_frees_stack:
  assumes "canon_arg pr path = Inr cn" and "do_utime pr cn (Some t) = ret (e, pr')"
    and "\<not> h_lock (pr_heap pr')" and "h_blks (pr_heap pr') (sub64 sp sizeof_block) = None"
  shows "sys_utime pr sp (Mapped path) (Mapped t) = Some (Inl BadAccess)"
  using assms by (simp add: sys_utime_def ptrvalid_def kfree_def set_used_def)

theorem sys_utime_frees_stack_witness:
  "sys_utime tree_proc 4096 (Mapped slash) (Mapped (1, 2)) = Some (Inl BadAccess)"
proof (rule sys_utime_frees_stack[OF tree_canon_root])
  have "tree_proc\<lparr>pr_vfs := tree_vfs\<rparr> = tree_proc" "i_uid tree_root = 0" "euid tree_proc = 1000"
    by (simp_all add: tree_proc_def tree_root_def zero_inode_def euid_def tree_vfs_def)
  then show "do_utime tree_proc slash (Some (1, 2)) = ret (- EPERM, tree_proc)"
    by (simp add: do_utime_def tree_open_root tree_root_file_def Let_def)
  show "\<not> h_lock (pr_heap tree_proc)" by (simp add: tree_proc_def boot_heap_lock)
  show "h_blks (pr_heap tree_proc) (sub64 4096 sizeof_block) = None"
    by (simp add: tree_proc_def boot_heap_def heap_setup_def sub64_def)
qed

end
