(* ===== verification/Mmu.thy ===== *)
theory Mmu
  imports Kheap Klist
begin

text \<open>
  The memory management unit, \<^verbatim>\<open>kernel/arch/amd64/amd64/mmu.c\<close>: the bitmap of page frames,
  the pages of the kernel's own address range, and the four-level page tables of the address
  spaces of tasks, with their creation, copy at fork and release.

  Page tables live in physical memory: the model keeps the 512 entries of every frame, and the
  kernel reads and writes them through the pages that it maps, as the code does. The
  translation caches (\<^verbatim>\<open>invlpg\<close>) are not part of the model. This theory holds the
  definitions and the lemmas on the two allocators, of frames and of kernel pages.
\<close>

unbundle bit_operations_syntax

subsection \<open>Constants and the state\<close>

abbreviation (input) ENTCNT :: nat where "ENTCNT \<equiv> 512"
abbreviation (input) PAGE4K :: nat where "PAGE4K \<equiv> 4096"
abbreviation (input) PAGE2M :: nat where "PAGE2M \<equiv> 0x200000"
abbreviation (input) PAGE_FRAME :: nat where "PAGE_FRAME \<equiv> 0xfffffffffffff000"
abbreviation (input) PAGE_PR :: nat where "PAGE_PR \<equiv> 1"
abbreviation (input) PAGE_RW :: nat where "PAGE_RW \<equiv> 2"
abbreviation (input) PAGE_USR :: nat where "PAGE_USR \<equiv> 4"
abbreviation (input) PAGE_WTHRU :: nat where "PAGE_WTHRU \<equiv> 8"
abbreviation (input) PAGE_NOCACHE :: nat where "PAGE_NOCACHE \<equiv> 16"
abbreviation (input) PD_2M :: nat where "PD_2M \<equiv> 128"
abbreviation (input) KBASE :: nat where "KBASE \<equiv> 0xffffffff80000000"
abbreviation (input) HEAPBASE :: nat where "HEAPBASE \<equiv> 0xffffffffc0000000"
abbreviation (input) BUF_SZ :: nat where "BUF_SZ \<equiv> 200000"

definition PML4_IDX :: "addr \<Rightarrow> nat" where "PML4_IDX v = drop_bit 39 v AND 0x1ff"
definition PDPT_IDX :: "addr \<Rightarrow> nat" where "PDPT_IDX v = drop_bit 30 v AND 0x1ff"
definition PD_IDX :: "addr \<Rightarrow> nat" where "PD_IDX v = drop_bit 21 v AND 0x1ff"
definition PT_IDX :: "addr \<Rightarrow> nat" where "PT_IDX v = drop_bit 12 v AND 0x1ff"

text \<open>
  The static tables, the bitmap of page frames, physical memory (the 512 entries of each
  frame) and the kernel heap. The fields \<open>at_kpdpt\<close> to \<open>at_tbls\<close> are the addresses the
  linker gives to the static tables.
\<close>

record mm =
  at_kpml4 :: addr
  at_kpdpt :: addr
  at_kpd :: addr
  at_dir :: addr
  at_tbls :: addr
  kpml4 :: "nat \<Rightarrow> nat"
  kpdpt :: "nat \<Rightarrow> nat"
  kpd :: "nat \<Rightarrow> nat"
  kheap_dir :: "nat \<Rightarrow> nat"
  kheap_tbls :: "nat \<Rightarrow> nat \<Rightarrow> nat"
  phys_bmp :: "nat \<Rightarrow> u8"
  phys :: "nat \<Rightarrow> nat \<Rightarrow> nat"
  mm_heap :: kheap
  cr3 :: addr

definition mmu_set_kpml4 :: "mm \<Rightarrow> mm" where
  "mmu_set_kpml4 m = m\<lparr>cr3 := sub64 (at_kpml4 m) KBASE\<rparr>"

definition mmu_init :: "mm \<Rightarrow> mm" where
  "mmu_init m =
     (let e511 = sub64 (at_kpdpt m) KBASE OR PAGE_PR OR PAGE_RW;
          e510 = sub64 (at_kpd m) KBASE OR PAGE_PR OR PAGE_RW in
      mmu_set_kpml4 (m\<lparr>
        kpml4 := (\<lambda>_. 0)(511 := e511, 0 := e511),
        kpd := (\<lambda>i. PAGE2M * i OR PAGE_PR OR PAGE_RW OR PD_2M),
        kpdpt := (\<lambda>_. 0)(510 := e510, 0 := e510, 511 := sub64 (at_dir m) KBASE OR PAGE_PR OR PAGE_RW),
        kheap_tbls := (\<lambda>_ _. 0)\<rparr>))"

subsection \<open>Kernel virtual pages\<close>

text \<open>
  The first search of \<open>mmu_kalloc\<close> goes through the tables that exist; the state is the length
  of the run of free entries and the indices where it starts. \<open>Inr\<close> is the run found.
\<close>

fun kalloc_row :: "(nat \<Rightarrow> nat) \<Rightarrow> nat \<Rightarrow> nat \<Rightarrow> nat list \<Rightarrow> nat \<times> nat \<times> nat \<Rightarrow> (nat \<times> nat \<times> nat) + (nat \<times> nat \<times> nat)" where
  "kalloc_row row n i [] st = Inl st"
| "kalloc_row row n i (j # js) (counter, pdidx, ptidx) =
     (if row j AND PAGE_PR \<noteq> 0 then kalloc_row row n i js (0, i, j + 1)
      else if counter + 1 \<ge> n then Inr (counter + 1, pdidx, ptidx)
      else kalloc_row row n i js (counter + 1, pdidx, ptidx))"

fun kalloc_scan :: "mm \<Rightarrow> nat \<Rightarrow> nat list \<Rightarrow> nat \<times> nat \<times> nat \<Rightarrow> (nat \<times> nat \<times> nat) option" where
  "kalloc_scan m n [] st = None"
| "kalloc_scan m n (i # is) st =
     (if kheap_dir m i AND PAGE_PR = 0 \<or> kheap_dir m i AND PD_2M \<noteq> 0 then kalloc_scan m n is (0, i + 1, 0)
      else case kalloc_row (kheap_tbls m i) n i [0..<ENTCNT] st of
        Inl st' \<Rightarrow> kalloc_scan m n is st'
      | Inr r \<Rightarrow> Some r)"

text \<open>The loops that mark the pages; the second one also enters the tables in the directory.\<close>

fun kalloc_mark :: "mm \<Rightarrow> nat \<Rightarrow> nat \<Rightarrow> nat \<Rightarrow> mm res" where
  "kalloc_mark m pdidx ptidx 0 = Inr m"
| "kalloc_mark m pdidx ptidx (Suc n) =
     (let (pdidx, ptidx) = (if ptidx \<ge> 512 then (pdidx + 1, 0) else (pdidx, ptidx)) in
      if pdidx \<ge> ENTCNT then Inl Overrun
      else kalloc_mark (m\<lparr>kheap_tbls := (kheap_tbls m)(pdidx := (kheap_tbls m pdidx)(ptidx := PAGE_PR))\<rparr>)
             pdidx (ptidx + 1) n)"

definition set_dir :: "mm \<Rightarrow> nat \<Rightarrow> mm" where
  "set_dir m pdidx =
     m\<lparr>kheap_dir := (kheap_dir m)(pdidx := sub64 (at_tbls m + pdidx * PAGE4K) KBASE OR PAGE_PR OR PAGE_RW)\<rparr>"

fun kalloc_mark_new :: "mm \<Rightarrow> nat \<Rightarrow> nat \<Rightarrow> nat \<Rightarrow> mm res" where
  "kalloc_mark_new m pdidx ptidx 0 = Inr m"
| "kalloc_mark_new m pdidx ptidx (Suc n) =
     (let (m, pdidx, ptidx) = (if ptidx \<ge> 512 then (set_dir m (pdidx + 1), pdidx + 1, 0) else (m, pdidx, ptidx)) in
      if pdidx \<ge> ENTCNT then Inl Overrun
      else kalloc_mark_new (m\<lparr>kheap_tbls := (kheap_tbls m)(pdidx := (kheap_tbls m pdidx)(ptidx := PAGE_PR))\<rparr>)
             pdidx (ptidx + 1) n)"

fun kalloc_new :: "mm \<Rightarrow> nat \<Rightarrow> nat list \<Rightarrow> nat \<Rightarrow> nat \<Rightarrow> nat option" where
  "kalloc_new m n [] counter pdidx = None"
| "kalloc_new m n (i # is) counter pdidx =
     (if kheap_dir m i AND PAGE_PR \<noteq> 0 then kalloc_new m n is 0 (i + 1)
      else if counter + 512 \<ge> n then Some pdidx
      else kalloc_new m n is (counter + 512) pdidx)"

definition mmu_kalloc :: "mm \<Rightarrow> nat \<Rightarrow> (addr \<times> mm) res" where
  "mmu_kalloc m n =
     (case kalloc_scan m n [0..<ENTCNT] (0, 0, 0) of
        Some (counter, pdidx, ptidx) \<Rightarrow>
          bindS (kalloc_mark m pdidx ptidx counter) (\<lambda>m. Inr (HEAPBASE + pdidx * PAGE2M + ptidx * PAGE4K, m))
      | None \<Rightarrow>
          (case kalloc_new m n [0..<ENTCNT] 0 0 of
             Some pdidx \<Rightarrow>
               bindS (kalloc_mark_new (set_dir m pdidx) pdidx 0 n) (\<lambda>m. Inr (HEAPBASE + pdidx * PAGE2M, m))
           | None \<Rightarrow> Inr (0, m)))"

fun mmu_kfree :: "mm \<Rightarrow> addr \<Rightarrow> nat \<Rightarrow> mm" where
  "mmu_kfree m ptr 0 = m"
| "mmu_kfree m ptr (Suc n) =
     mmu_kfree (m\<lparr>kheap_tbls := (kheap_tbls m)(PD_IDX ptr := (kheap_tbls m (PD_IDX ptr))(PT_IDX ptr := 0))\<rparr>)
       (add64 ptr PAGE4K) n"

definition mmu_kmap :: "mm \<Rightarrow> addr \<Rightarrow> addr \<Rightarrow> nat \<Rightarrow> mm" where
  "mmu_kmap m virt ph flags =
     m\<lparr>kheap_tbls := (kheap_tbls m)(PD_IDX virt := (kheap_tbls m (PD_IDX virt))(PT_IDX virt := (ph AND PAGE_FRAME) OR flags))\<rparr>"

definition mmu_kvirt2phys :: "mm \<Rightarrow> addr \<Rightarrow> addr" where
  "mmu_kvirt2phys m virt =
     (if PML4_IDX virt \<noteq> 511 \<or> PDPT_IDX virt \<noteq> 511 then 0
      else kheap_tbls m (PD_IDX virt) (PT_IDX virt) AND PAGE_FRAME)"

text \<open>Loads and stores of the kernel through one of these pages, and filling a whole page.\<close>

definition kentry :: "mm \<Rightarrow> addr \<Rightarrow> nat" where
  "kentry m p = kheap_tbls m (PD_IDX p) (PT_IDX p)"

definition kframe :: "mm \<Rightarrow> addr \<Rightarrow> nat" where
  "kframe m p = (kentry m p AND PAGE_FRAME) div PAGE4K"

definition kmapped :: "mm \<Rightarrow> addr \<Rightarrow> bool" where
  "kmapped m p \<longleftrightarrow> HEAPBASE \<le> p \<and> kentry m p AND PAGE_PR \<noteq> 0"

definition kload :: "mm \<Rightarrow> addr \<Rightarrow> nat \<Rightarrow> nat res" where
  "kload m p i = (if kmapped m p then Inr (phys m (kframe m p) i) else Inl BadAccess)"

definition kpage_set :: "mm \<Rightarrow> addr \<Rightarrow> (nat \<Rightarrow> nat) \<Rightarrow> mm res" where
  "kpage_set m p f = (if kmapped m p then Inr (m\<lparr>phys := (phys m)(kframe m p := f)\<rparr>) else Inl BadAccess)"

definition kstore :: "mm \<Rightarrow> addr \<Rightarrow> nat \<Rightarrow> nat \<Rightarrow> mm res" where
  "kstore m p i e =
     (if kmapped m p then Inr (m\<lparr>phys := (phys m)(kframe m p := (phys m (kframe m p))(i := e))\<rparr>) else Inl BadAccess)"

subsection \<open>Page frames\<close>

definition mmu_phys_init :: "mm \<Rightarrow> mm" where
  "mmu_phys_init m = m\<lparr>phys_bmp := (\<lambda>i. if i < BUF_SZ then 0xff else phys_bmp m i)\<rparr>"

fun bmp_mark :: "(nat \<Rightarrow> u8) \<Rightarrow> nat \<Rightarrow> nat \<Rightarrow> (nat \<Rightarrow> u8) res" where
  "bmp_mark bmp i 0 = Inr bmp"
| "bmp_mark bmp i (Suc n) =
     (if i div 8 \<ge> BUF_SZ then Inl Overrun
      else bmp_mark (bmp(i div 8 := bmp (i div 8) OR push_bit (i mod 8) 1)) (i + 1) n)"

definition mmu_alloc_phys_at :: "mm \<Rightarrow> addr \<Rightarrow> nat \<Rightarrow> (addr \<times> mm) res" where
  "mmu_alloc_phys_at m p cnt =
     bindS (bmp_mark (phys_bmp m) (p div PAGE4K) cnt) (\<lambda>bmp. Inr (p, m\<lparr>phys_bmp := bmp\<rparr>))"

function find_frame :: "(nat \<Rightarrow> u8) \<Rightarrow> nat \<Rightarrow> addr option" where
  "find_frame bmp i =
     (if i < BUF_SZ then
        (if bmp i \<noteq> 0xff then
           (case find (\<lambda>j. bmp i AND push_bit j 1 = 0) [0..<8] of
              Some j \<Rightarrow> Some ((i * 8 + j) * PAGE4K)
            | None \<Rightarrow> find_frame bmp (i + 1))
         else find_frame bmp (i + 1))
      else None)"
  by pat_completeness auto
termination by (relation "measure (\<lambda>(bmp, i). BUF_SZ - i)") auto

declare find_frame.simps [simp del]

definition mmu_alloc_phys :: "mm \<Rightarrow> (addr \<times> mm) res" where
  "mmu_alloc_phys m =
     (case find_frame (phys_bmp m) 0 of
        Some a \<Rightarrow> mmu_alloc_phys_at m a 1
      | None \<Rightarrow> Inr (0, m))"

fun bmp_clear :: "(nat \<Rightarrow> u8) \<Rightarrow> nat \<Rightarrow> nat \<Rightarrow> (nat \<Rightarrow> u8) res" where
  "bmp_clear bmp i 0 = Inr bmp"
| "bmp_clear bmp i (Suc n) =
     (if i div 8 \<ge> BUF_SZ then Inl Overrun
      else bmp_clear (bmp(i div 8 := bmp (i div 8) AND NOT (push_bit (i mod 8) 1))) (i + 1) n)"

definition mmu_free_phys :: "mm \<Rightarrow> addr \<Rightarrow> nat \<Rightarrow> mm res" where
  "mmu_free_phys m p cnt =
     bindS (bmp_clear (phys_bmp m) (p div PAGE4K) cnt) (\<lambda>bmp. Inr (m\<lparr>phys_bmp := bmp\<rparr>))"

subsection \<open>Mappings of devices and modules\<close>

fun map_mmio_loop :: "mm \<Rightarrow> addr \<Rightarrow> addr \<Rightarrow> nat list \<Rightarrow> mm" where
  "map_mmio_loop m v mmio [] = m"
| "map_mmio_loop m v mmio (i # is) =
     map_mmio_loop (mmu_kmap m (add64 v (i * PAGE4K)) mmio (PAGE_PR OR PAGE_RW OR PAGE_NOCACHE OR PAGE_WTHRU)) v mmio is"

definition mmu_map_mmio :: "mm \<Rightarrow> addr \<Rightarrow> nat \<Rightarrow> (addr \<times> mm) res" where
  "mmu_map_mmio m mmio cnt =
     bindS (mmu_kalloc m cnt) (\<lambda>(v, m). Inr (add64 v (mmio mod PAGE4K), map_mmio_loop m v mmio [0..<cnt]))"

definition page_round :: "nat \<Rightarrow> nat" where
  "page_round sz = (if sz mod PAGE4K \<noteq> 0 then add64 sz (PAGE4K - sz mod PAGE4K) else sz)"

fun map_module_loop :: "mm \<Rightarrow> addr \<Rightarrow> nat list \<Rightarrow> mm res" where
  "map_module_loop m v [] = Inr m"
| "map_module_loop m v (i # is) =
     bindS (mmu_alloc_phys m) (\<lambda>(ph, m).
       map_module_loop (mmu_kmap m (add64 v (i * PAGE4K)) ph (PAGE_PR OR PAGE_RW)) v is)"

definition mmu_map_module :: "mm \<Rightarrow> nat \<Rightarrow> (addr \<times> mm) res" where
  "mmu_map_module m sz =
     (let cnt = page_round sz div PAGE4K in
      bindS (mmu_kalloc m cnt) (\<lambda>(v, m). bindS (map_module_loop m v [0..<cnt]) (\<lambda>m. Inr (v, m))))"

fun unmap_module_loop :: "mm \<Rightarrow> addr \<Rightarrow> nat list \<Rightarrow> mm res" where
  "unmap_module_loop m base [] = Inr m"
| "unmap_module_loop m base (i # is) =
     bindS (mmu_free_phys m (mmu_kvirt2phys m (add64 base (i * PAGE4K))) 1) (\<lambda>m. unmap_module_loop m base is)"

definition mmu_unmap_module :: "mm \<Rightarrow> addr \<Rightarrow> nat \<Rightarrow> mm res" where
  "mmu_unmap_module m base sz =
     (let cnt = page_round sz div PAGE4K in
      bindS (unmap_module_loop m base [0..<cnt]) (\<lambda>m. Inr (mmu_kfree m base cnt)))"

subsection \<open>Address spaces\<close>

text \<open>
  An object has an array of frame addresses on the kernel heap, at \<open>vmo_at\<close>; \<open>None\<close> is a word of
  it that has not been written.
\<close>

datatype vm_object =
    AnonVmo (vmo_at: addr) (vmo_pages: "addr option list")
  | InodeVmo (vmo_at: addr) (vmo_pages: "addr option list") (vmo_inode: nat)

record vm_area =
  va_base :: addr
  va_end :: addr
  va_obj :: "vm_object option"

text \<open>
  The arrays \<open>pds\<close> and \<open>pts\<close>, which the kernel allocates from its heap, with their addresses.
  An entry of \<open>pts\<close> is the address of a page table, or null.
\<close>

record vm_map =
  vm_self :: addr
  vm_pml4 :: addr
  vm_pml4_phys :: addr
  vm_pdpt :: addr
  vm_pdpt_phys :: addr
  vm_pds_at :: addr
  vm_pds :: "nat \<Rightarrow> addr"
  vm_phys_pds :: "nat \<Rightarrow> addr"
  vm_pts_at :: addr
  vm_pts_row :: "nat \<Rightarrow> addr"
  vm_pts :: "nat \<Rightarrow> nat \<Rightarrow> addr"
  vm_areas :: "vm_area klist"

definition mktable :: "mm \<Rightarrow> vm_map \<Rightarrow> nat \<Rightarrow> nat \<Rightarrow> (mm \<times> vm_map) res" where
  "mktable m vmap pdptidx pdidx =
     bindS (mmu_kalloc m 1) (\<lambda>(table, m).
     bindS (mmu_alloc_phys m) (\<lambda>(table_phys, m).
     bindS (kpage_set (mmu_kmap m table table_phys (PAGE_PR OR PAGE_RW)) table (\<lambda>_. 0)) (\<lambda>m.
     bindS (kstore m (vm_pds vmap pdptidx) pdidx (table_phys OR PAGE_PR OR PAGE_RW OR PAGE_USR)) (\<lambda>m.
       Inr (m, vmap\<lparr>vm_pts := (vm_pts vmap)(pdptidx := (vm_pts vmap pdptidx)(pdidx := table))\<rparr>)))))"

definition mmu_map :: "mm \<Rightarrow> vm_map \<Rightarrow> addr \<Rightarrow> addr \<Rightarrow> nat \<Rightarrow> (mm \<times> vm_map) res" where
  "mmu_map m vmap virt ph flags =
     (let i = PDPT_IDX virt; j = PD_IDX virt; k = PT_IDX virt in
      bindS (kload m (vm_pds vmap i) j) (\<lambda>e.
      bindS (if e AND PAGE_PR = 0 then mktable m vmap i j else Inr (m, vmap)) (\<lambda>(m, vmap).
      bindS (kstore m (vm_pts vmap i j) k (ph OR flags OR PAGE_USR)) (\<lambda>m. Inr (m, vmap)))))"

definition mmu_virt2phys :: "mm \<Rightarrow> vm_map \<Rightarrow> addr \<Rightarrow> addr res" where
  "mmu_virt2phys m vmap virt =
     (let i = PDPT_IDX virt; j = PD_IDX virt; k = PT_IDX virt in
      if PML4_IDX virt = 0 then
        bindS (kload m (vm_pds vmap i) j) (\<lambda>e.
          if e AND PAGE_PR = 0 \<or> vm_pts vmap i j = 0 then Inr 0
          else bindS (kload m (vm_pts vmap i j) k) (\<lambda>e. Inr (e AND PAGE_FRAME)))
      else Inr 0)"

definition mm_kmalloc :: "mm \<Rightarrow> nat \<Rightarrow> (addr \<times> mm) run" where
  "mm_kmalloc m n = bindR (kmalloc (mm_heap m) n) (\<lambda>(p, h). ret (p, m\<lparr>mm_heap := h\<rparr>))"

definition mm_kfree :: "mm \<Rightarrow> addr \<Rightarrow> mm run" where
  "mm_kfree m p = bindR (kfree (mm_heap m) p) (\<lambda>h. ret (m\<lparr>mm_heap := h\<rparr>))"

text \<open>The loop of \<open>mmu_create_vmmap\<close> over the 512 page directories.\<close>

fun create_pds :: "mm \<Rightarrow> vm_map \<Rightarrow> nat list \<Rightarrow> (mm \<times> vm_map) run" where
  "create_pds m vmap [] = ret (m, vmap)"
| "create_pds m vmap (i # is) =
     bindR (Some (mmu_kalloc m 1)) (\<lambda>(pd, m).
     bindR (Some (mmu_alloc_phys m)) (\<lambda>(ph, m).
     bindR (Some (kpage_set (mmu_kmap m pd ph (PAGE_PR OR PAGE_RW)) pd (\<lambda>_. 0))) (\<lambda>m.
     bindR (Some (kstore m (vm_pdpt vmap) i (ph OR PAGE_PR OR PAGE_RW OR PAGE_USR))) (\<lambda>m.
     bindR (mm_kmalloc m 4096) (\<lambda>(row, m).
       create_pds m (vmap\<lparr>vm_pds := (vm_pds vmap)(i := pd), vm_phys_pds := (vm_phys_pds vmap)(i := ph),
                       vm_pts_row := (vm_pts_row vmap)(i := row), vm_pts := (vm_pts vmap)(i := (\<lambda>_. 0))\<rparr>) is)))))"

abbreviation (input) sizeof_vm_map :: nat where "sizeof_vm_map \<equiv> 4168"

text \<open>\<open>junk\<close> is what the new blocks of the heap hold.\<close>

definition mmu_create_vmmap :: "mm \<Rightarrow> vm_map \<Rightarrow> (mm \<times> vm_map) run" where
  "mmu_create_vmmap m junk =
     bindR (mm_kmalloc m sizeof_vm_map) (\<lambda>(self, m).
     bindR (Some (mmu_kalloc m 1)) (\<lambda>(pml4, m).
     bindR (Some (mmu_kalloc m 1)) (\<lambda>(pdpt, m).
     bindR (mm_kmalloc m PAGE4K) (\<lambda>(pds, m).
     bindR (mm_kmalloc m PAGE4K) (\<lambda>(pts, m).
     bindR (Some (mmu_alloc_phys m)) (\<lambda>(pml4_phys, m).
     bindR (Some (mmu_alloc_phys m)) (\<lambda>(pdpt_phys, m).
     let m = mmu_kmap m pml4 pml4_phys (PAGE_PR OR PAGE_RW); m = mmu_kmap m pdpt pdpt_phys (PAGE_PR OR PAGE_RW) in
     bindR (Some (kpage_set m pml4 (kpml4 m))) (\<lambda>m.
     bindR (Some (kpage_set m pdpt (\<lambda>_. 0))) (\<lambda>m.
     bindR (Some (kstore m pml4 0 (pdpt_phys OR PAGE_PR OR PAGE_RW OR PAGE_USR))) (\<lambda>m.
       create_pds m (junk\<lparr>vm_self := self, vm_areas := kl_create, vm_pml4 := pml4, vm_pdpt := pdpt, vm_pds_at := pds,
                        vm_pts_at := pts, vm_pml4_phys := pml4_phys, vm_pdpt_phys := pdpt_phys\<rparr>) [0..<ENTCNT]))))))))))"

text \<open>Copying one present user page: both frames are mapped into the kernel for the copy.\<close>

definition clone_page :: "mm \<Rightarrow> vm_map \<Rightarrow> nat \<Rightarrow> nat \<Rightarrow> nat \<Rightarrow> nat \<Rightarrow> mm res" where
  "clone_page m vmap i j k e =
     bindS (mmu_kalloc m 1) (\<lambda>(virt1, m).
     bindS (mmu_kalloc m 1) (\<lambda>(virt2, m).
     bindS (mmu_alloc_phys m) (\<lambda>(phys2, m).
     let m = mmu_kmap m virt1 (e AND PAGE_FRAME) (PAGE_PR OR PAGE_RW); m = mmu_kmap m virt2 phys2 (PAGE_PR OR PAGE_RW) in
     bindS (if kmapped m virt1 then kpage_set m virt2 (phys m (kframe m virt1)) else Inl BadAccess) (\<lambda>m.
     let m = mmu_kfree m virt1 1; m = mmu_kfree m virt2 1 in
       kstore m (vm_pts vmap i j) k ((e AND 0xfff) OR phys2)))))"

fun clone_table :: "mm \<Rightarrow> vm_map \<Rightarrow> addr \<Rightarrow> nat \<Rightarrow> nat \<Rightarrow> nat list \<Rightarrow> mm res" where
  "clone_table m vmap srcpt i j [] = Inr m"
| "clone_table m vmap srcpt i j (k # ks) =
     bindS (kload m srcpt k) (\<lambda>e.
     bindS (if e AND PAGE_PR \<noteq> 0 \<and> e AND PAGE_USR \<noteq> 0 then clone_page m vmap i j k e else Inr m) (\<lambda>m.
       clone_table m vmap srcpt i j ks))"

fun clone_tables :: "mm \<Rightarrow> vm_map \<Rightarrow> vm_map \<Rightarrow> (nat \<times> nat) list \<Rightarrow> (mm \<times> vm_map) res" where
  "clone_tables m vmap src [] = Inr (m, vmap)"
| "clone_tables m vmap src ((i, j) # ps) =
     (if vm_pts src i j \<noteq> 0 then
        bindS (mktable m vmap i j) (\<lambda>(m, vmap).
        bindS (clone_table m vmap (vm_pts src i j) i j [0..<ENTCNT]) (\<lambda>m. clone_tables m vmap src ps))
      else
        bindS (kstore m (vm_pds vmap i) j 0) (\<lambda>m.
          clone_tables m (vmap\<lparr>vm_pts := (vm_pts vmap)(i := (vm_pts vmap i)(j := 0))\<rparr>) src ps))"

definition mmu_clone_vmmap :: "mm \<Rightarrow> vm_map \<Rightarrow> vm_map \<Rightarrow> (mm \<times> vm_map) run" where
  "mmu_clone_vmmap m junk src =
     bindR (mmu_create_vmmap m junk) (\<lambda>(m, vmap).
       Some (clone_tables m vmap src (List.product [0..<ENTCNT] [0..<ENTCNT])))"

fun free_leaves :: "mm \<Rightarrow> addr \<Rightarrow> nat list \<Rightarrow> mm res" where
  "free_leaves m pt [] = Inr m"
| "free_leaves m pt (k # ks) =
     bindS (kload m pt k) (\<lambda>e.
     bindS (if e AND PAGE_PR \<noteq> 0 \<and> e AND PAGE_USR \<noteq> 0 then mmu_free_phys m (e AND PAGE_FRAME) 1 else Inr m) (\<lambda>m.
       free_leaves m pt ks))"

fun free_tables :: "mm \<Rightarrow> vm_map \<Rightarrow> nat \<Rightarrow> nat list \<Rightarrow> mm res" where
  "free_tables m vmap i [] = Inr m"
| "free_tables m vmap i (j # js) =
     (if vm_pts vmap i j \<noteq> 0 then
        bindS (free_leaves m (vm_pts vmap i j) [0..<ENTCNT]) (\<lambda>m.
        let m = mmu_kfree m (vm_pts vmap i j) 1 in
        bindS (kload m (vm_pds vmap i) j) (\<lambda>e.
        bindS (mmu_free_phys m (e AND PAGE_FRAME) 1) (\<lambda>m. free_tables m vmap i js)))
      else free_tables m vmap i js)"

fun free_pds :: "mm \<Rightarrow> vm_map \<Rightarrow> nat list \<Rightarrow> mm run" where
  "free_pds m vmap [] = ret m"
| "free_pds m vmap (i # is) =
     bindR (Some (free_tables m vmap i [0..<ENTCNT])) (\<lambda>m.
     bindR (mm_kfree m (vm_pts_row vmap i)) (\<lambda>m.
     let m = mmu_kfree m (vm_pds vmap i) 1 in
     bindR (Some (mmu_free_phys m (vm_phys_pds vmap i) 1)) (\<lambda>m. free_pds m vmap is)))"

definition mmu_destroy_vmmap :: "mm \<Rightarrow> vm_map \<Rightarrow> mm run" where
  "mmu_destroy_vmmap m vmap =
     bindR (free_pds m vmap [0..<ENTCNT]) (\<lambda>m.
     let m = mmu_kfree m (vm_pml4 vmap) 1; m = mmu_kfree m (vm_pdpt vmap) 1 in
     bindR (Some (mmu_free_phys m (vm_pml4_phys vmap) 1)) (\<lambda>m.
     bindR (Some (mmu_free_phys m (vm_pdpt_phys vmap) 1)) (\<lambda>m.
     bindR (mm_kfree m (vm_pds_at vmap)) (\<lambda>m.
     bindR (mm_kfree m (vm_pts_at vmap)) (\<lambda>m.
       mm_kfree m (vm_self vmap))))))"

subsection \<open>Arithmetic of indices and entries\<close>

lemma and_511: "(x::nat) AND 0x1ff = x mod 512"
proof -
  have "(0x1ff::nat) = mask 9" by (simp add: mask_eq_exp_minus_1)
  then have "x AND 0x1ff = take_bit 9 x" by (simp only: take_bit_eq_mask)
  then show ?thesis by (simp add: take_bit_eq_mod)
qed

lemma idx_div:
  "PML4_IDX v = v div 2 ^ 39 mod 512" "PDPT_IDX v = v div 2 ^ 30 mod 512"
  "PD_IDX v = v div 2 ^ 21 mod 512" "PT_IDX v = v div 2 ^ 12 mod 512"
  by (simp_all add: PML4_IDX_def PDPT_IDX_def PD_IDX_def PT_IDX_def and_511 drop_bit_eq_div)

lemma idx_less [simp]: "PDPT_IDX v < 512" "PD_IDX v < 512" "PT_IDX v < 512"
  by (simp_all add: idx_div)

abbreviation (input) kpage :: "nat \<Rightarrow> addr" where
  "kpage q \<equiv> HEAPBASE + 4096 * q"

lemma kpage_idx:
  assumes "q < 512 * 512"
  shows "PD_IDX (kpage q) = q div 512" "PT_IDX (kpage q) = q mod 512"
    "PML4_IDX (kpage q) = 511" "PDPT_IDX (kpage q) = 511"
proof -
  have h: "kpage q = 4096 * (2 ^ 52 - 2 ^ 18 + q)" by simp
  have "kpage q div 2 ^ 12 = 2 ^ 52 - 2 ^ 18 + q" unfolding h by simp
  moreover have "(2 ^ 52 - 2 ^ 18 + q :: nat) = q + 512 * (2 ^ 43 - 2 ^ 9)" by simp
  ultimately have "kpage q div 2 ^ 12 mod 512 = q mod 512" by (simp only: mod_mult_self2)
  then show "PT_IDX (kpage q) = q mod 512" unfolding idx_div .
  have "4096 * (512 * a + r) + 18446744072635809792 = 2 ^ 21 * (2 ^ 43 - 2 ^ 9 + a) + 4096 * r" for a r :: nat by simp
  from this[of "q div 512" "q mod 512"]
  have "kpage q = 2 ^ 21 * (2 ^ 43 - 2 ^ 9 + q div 512) + 4096 * (q mod 512)" by (simp only: mult_div_mod_eq add.commute[of 18446744072635809792])
  moreover have "4096 * (q mod 512) < 2 ^ 21" using mod_less_divisor[of 512 q] by simp
  ultimately have "kpage q div 2 ^ 21 = 2 ^ 43 - 2 ^ 9 + q div 512" by (simp only: div_mult_self4) simp
  moreover have "(2 ^ 43 - 2 ^ 9 + q div 512) = q div 512 + 512 * (2 ^ 34 - 1)" by simp
  ultimately have "kpage q div 2 ^ 21 mod 512 = q div 512 mod 512" by (simp only: mod_mult_self2)
  moreover have "q div 512 < 512" using assms by (simp add: less_mult_imp_div_less)
  ultimately show "PD_IDX (kpage q) = q div 512" unfolding idx_div by simp
  have r: "4096 * q < 2 ^ 30" using assms by simp
  have "kpage q = 2 ^ 30 * (2 ^ 34 - 1) + 4096 * q" by simp
  with r have "kpage q div 2 ^ 30 = 2 ^ 34 - 1" by (simp only: div_mult_self4) simp
  then show "PDPT_IDX (kpage q) = 511" by (simp add: idx_div)
  have "kpage q = 2 ^ 39 * (2 ^ 25 - 1) + (511 * 2 ^ 30 + 4096 * q)" by simp
  moreover have "511 * 2 ^ 30 + 4096 * q < 2 ^ 39" using r by simp
  ultimately have "kpage q div 2 ^ 39 = 2 ^ 25 - 1" by (simp only: div_mult_self4) simp
  then show "PML4_IDX (kpage q) = 511" by (simp add: idx_div)
qed

lemma frame_push: "4096 * f = push_bit 12 (f::nat)"
  by (simp add: push_bit_eq_mult)

lemma page_frame_push: "PAGE_FRAME = push_bit 12 (mask 52)"
  by (simp add: push_bit_eq_mult mask_eq_exp_minus_1)

lemma bit_less:
  assumes "(n::nat) < 2 ^ k" "bit n i"
  shows "i < k"
proof (rule ccontr)
  assume "\<not> i < k"
  then have "(2::nat) ^ k \<le> 2 ^ i" by simp
  then have "n < 2 ^ i" using assms(1) by linarith
  then have "n div 2 ^ i = 0" by simp
  then show False using assms(2) by (simp add: bit_iff_odd)
qed

lemma ent_frame:
  assumes "f < 2 ^ 52" "fl < 2 ^ 12"
  shows "(4096 * f OR fl) AND PAGE_FRAME = 4096 * f"
  unfolding frame_push page_frame_push
  by (rule bit_eqI) (use bit_less[OF assms(1)] bit_less[OF assms(2)] in \<open>force simp: bit_simps\<close>)


subsection \<open>Page frames\<close>

definition used :: "mm \<Rightarrow> nat \<Rightarrow> bool" where
  "used m k \<longleftrightarrow> bit (phys_bmp m (k div 8)) (k mod 8)"

definition free_frames :: "mm \<Rightarrow> nat set" where
  "free_frames m = {k. 0 < k \<and> k < 8 * BUF_SZ \<and> \<not> used m k}"

lemma finite_free_frames [simp]: "finite (free_frames m)"
  by (rule finite_subset[of _ "{..<8 * BUF_SZ}"]) (auto simp: free_frames_def)

lemma bmp_mark_spec:
  assumes "k + n \<le> 8 * BUF_SZ"
  shows "\<exists>b'. bmp_mark b k n = Inr b' \<and> (\<forall>i. bit (b' (i div 8)) (i mod 8) \<longleftrightarrow> bit (b (i div 8)) (i mod 8) \<or> k \<le> i \<and> i < k + n)"
  using assms
proof (induction n arbitrary: b k)
  case (Suc n)
  let ?b = "b(k div 8 := b (k div 8) OR push_bit (k mod 8) 1)"
  have "k div 8 < BUF_SZ" using Suc.prems by (intro less_mult_imp_div_less) simp
  then have un: "bmp_mark b k (Suc n) = bmp_mark ?b (k + 1) n" by simp
  obtain b' where b': "bmp_mark ?b (k + 1) n = Inr b'"
      "\<forall>i. bit (b' (i div 8)) (i mod 8) \<longleftrightarrow> bit (?b (i div 8)) (i mod 8) \<or> k + 1 \<le> i \<and> i < k + 1 + n"
    using Suc.IH[of "k + 1" ?b] Suc.prems by (metis add_Suc_right add_Suc Suc_eq_plus1)
  have "bit (?b (i div 8)) (i mod 8) \<longleftrightarrow> bit (b (i div 8)) (i mod 8) \<or> i = k" for i
  proof -
    have "i mod 8 < 8" by simp
    moreover have "i = k" if "i div 8 = k div 8" "i mod 8 = k mod 8" using that by (metis div_mult_mod_eq)
    ultimately show ?thesis by (auto simp: bit_simps)
  qed
  note bits = this
  have "k \<le> i \<and> i < k + Suc n \<longleftrightarrow> i = k \<or> k + 1 \<le> i \<and> i < k + 1 + n" for i by auto
  then show ?case unfolding un using b' bits by metis
qed auto

lemma bmp_clear_spec:
  assumes "k + n \<le> 8 * BUF_SZ"
  shows "\<exists>b'. bmp_clear b k n = Inr b' \<and> (\<forall>i. bit (b' (i div 8)) (i mod 8) \<longleftrightarrow> bit (b (i div 8)) (i mod 8) \<and> \<not> (k \<le> i \<and> i < k + n))"
  using assms
proof (induction n arbitrary: b k)
  case (Suc n)
  let ?b = "b(k div 8 := b (k div 8) AND NOT (push_bit (k mod 8) 1))"
  have "k div 8 < BUF_SZ" using Suc.prems by (intro less_mult_imp_div_less) simp
  then have un: "bmp_clear b k (Suc n) = bmp_clear ?b (k + 1) n" by simp
  obtain b' where b': "bmp_clear ?b (k + 1) n = Inr b'"
      "\<forall>i. bit (b' (i div 8)) (i mod 8) \<longleftrightarrow> bit (?b (i div 8)) (i mod 8) \<and> \<not> (k + 1 \<le> i \<and> i < k + 1 + n)"
    using Suc.IH[of "k + 1" ?b] Suc.prems by (metis add_Suc_right add_Suc Suc_eq_plus1)
  have "bit (?b (i div 8)) (i mod 8) \<longleftrightarrow> bit (b (i div 8)) (i mod 8) \<and> i \<noteq> k" for i
  proof -
    have "i mod 8 < 8" by simp
    moreover have "i = k" if "i div 8 = k div 8" "i mod 8 = k mod 8" using that by (metis div_mult_mod_eq)
    ultimately show ?thesis by (auto simp: bit_simps)
  qed
  note bits = this
  have "k \<le> i \<and> i < k + Suc n \<longleftrightarrow> i = k \<or> k + 1 \<le> i \<and> i < k + 1 + n" for i by auto
  then show ?case unfolding un using b' bits by metis
qed auto

lemma u8_full: "(0xff :: u8) = mask 8"
  by (simp add: mask_eq_exp_minus_1)

lemma find_frame_spec:
  "case find_frame b i of
     Some a \<Rightarrow> \<exists>k. a = 4096 * k \<and> 8 * i \<le> k \<and> k < 8 * BUF_SZ \<and> \<not> bit (b (k div 8)) (k mod 8) \<and>
       (\<forall>l. 8 * i \<le> l \<and> l < k \<longrightarrow> bit (b (l div 8)) (l mod 8))
   | None \<Rightarrow> \<forall>l. 8 * i \<le> l \<and> l < 8 * BUF_SZ \<longrightarrow> bit (b (l div 8)) (l mod 8)"
proof (induction b i rule: find_frame.induct)
  case (1 b i)
  have row: "l div 8 = i" "l mod 8 = l - 8 * i" "l - 8 * i < 8" if "8 * i \<le> l" "l < 8 * (i + 1)" for l
    using that by (auto simp: minus_mult_div_eq_mod[symmetric] div_nat_eqI)
  have full: ?case if ib: "i < BUF_SZ" and all: "\<forall>j<8. bit (b i) j" and eq: "find_frame b i = find_frame b (i + 1)"
    and IH: "case find_frame b (i + 1) of
     Some a \<Rightarrow> \<exists>k. a = 4096 * k \<and> 8 * (i + 1) \<le> k \<and> k < 8 * BUF_SZ \<and> \<not> bit (b (k div 8)) (k mod 8) \<and>
       (\<forall>l. 8 * (i + 1) \<le> l \<and> l < k \<longrightarrow> bit (b (l div 8)) (l mod 8))
   | None \<Rightarrow> \<forall>l. 8 * (i + 1) \<le> l \<and> l < 8 * BUF_SZ \<longrightarrow> bit (b (l div 8)) (l mod 8)"
  proof -
    have here: "bit (b (l div 8)) (l mod 8)" if "8 * i \<le> l" "l < 8 * (i + 1)" for l
      using row[OF that] all by metis
    show ?thesis
    proof (cases "find_frame b (i + 1)")
      case None
      with IH have "bit (b (l div 8)) (l mod 8)" if "8 * (i + 1) \<le> l" "l < 8 * BUF_SZ" for l using that by simp
      then show ?thesis using here None unfolding eq by (simp only: option.case) (meson not_le)
    next
      case (Some a)
      with IH obtain k where k: "a = 4096 * k" "8 * (i + 1) \<le> k" "k < 8 * BUF_SZ" "\<not> bit (b (k div 8)) (k mod 8)"
        "\<forall>l. 8 * (i + 1) \<le> l \<and> l < k \<longrightarrow> bit (b (l div 8)) (l mod 8)" by (simp only: option.case) blast
      then show ?thesis using here Some unfolding eq
        by (simp only: option.case) (intro exI[of _ k] conjI allI impI; (meson not_le | simp))
    qed
  qed
  show ?case
  proof (cases "i < BUF_SZ")
    case ib: True
    show ?thesis
    proof (cases "b i = 0xff")
      case True
      then have "\<forall>j<8. bit (b i) j"
        unfolding u8_full by (simp add: bit_simps)
      moreover have "find_frame b i = find_frame b (i + 1)" using ib True by (subst find_frame.simps) simp
      ultimately show ?thesis using full[OF ib] 1(2)[OF ib] True by blast
    next
      case False
      show ?thesis
      proof (cases "find (\<lambda>j. b i AND push_bit j 1 = 0) [0..<8]")
        case None
        then have "\<forall>j<8. bit (b i) j" by (simp add: find_None_iff bit_iff_and_push_bit_not_eq_0)
        moreover have "find_frame b i = find_frame b (i + 1)" using ib False None by (subst find_frame.simps) simp
        ultimately show ?thesis using full[OF ib] 1(1)[OF ib False None] by blast
      next
        case (Some j)
        then have j: "j < 8" "\<not> bit (b i) j" "\<forall>j'<j. bit (b i) j'"
          by (auto simp: find_Some_iff bit_iff_and_push_bit_not_eq_0 nth_upt)
        have "find_frame b i = Some ((i * 8 + j) * 4096)" using ib False Some by (subst find_frame.simps) simp
        moreover have "bit (b (l div 8)) (l mod 8)" if "8 * i \<le> l" "l < i * 8 + j" for l
          using row[of l] that j by simp
        moreover have "(i * 8 + j) div 8 = i" "(i * 8 + j) mod 8 = j" using j by simp_all
        ultimately show ?thesis using ib j by (simp only: option.case) (intro exI[of _ "i * 8 + j"], simp)
      qed
    qed
  next
    case False
    then have "find_frame b i = None" by (subst find_frame.simps) simp
    moreover have "\<not> (8 * i \<le> l \<and> l < 8 * BUF_SZ)" for l using False by simp
    ultimately show ?thesis by (simp only: option.case) blast
  qed
qed

lemma mmu_alloc_phys_spec:
  assumes "used m 0" "free_frames m \<noteq> {}"
  shows "\<exists>k b. k \<in> free_frames m \<and> mmu_alloc_phys m = Inr (4096 * k, m\<lparr>phys_bmp := b\<rparr>) \<and>
    (\<forall>i. used (m\<lparr>phys_bmp := b\<rparr>) i \<longleftrightarrow> used m i \<or> i = k) \<and> (\<forall>l \<in> free_frames m. k \<le> l)"
proof -
  let ?f = "find_frame (phys_bmp m) 0"
  have u: "bit (phys_bmp m (l div 8)) (l mod 8) = used m l" for l by (simp add: used_def)
  obtain a where a: "?f = Some a"
  proof (cases ?f)
    case None
    then have "used m l" if "l < 8 * BUF_SZ" for l using find_frame_spec[where b = "phys_bmp m" and i = 0] that by (simp add: u)
    then show ?thesis using assms(2) by (auto simp: free_frames_def)
  qed
  then obtain k where k: "a = 4096 * k" "k < 8 * BUF_SZ" "\<not> used m k" "\<forall>l<k. used m l"
    using find_frame_spec[where b = "phys_bmp m" and i = 0] by (simp only: u option.case) force
  have "k \<noteq> 0" using k(3) assms(1) by metis
  then have "k \<in> free_frames m" using k by (simp add: free_frames_def)
  moreover have "k \<le> l" if "l \<in> free_frames m" for l using that k(4) by (auto simp: free_frames_def not_less[symmetric])
  moreover obtain b where b: "bmp_mark (phys_bmp m) k 1 = Inr b"
      "\<forall>i. bit (b (i div 8)) (i mod 8) \<longleftrightarrow> bit (phys_bmp m (i div 8)) (i mod 8) \<or> k \<le> i \<and> i < k + 1"
  proof -
    have "k + 1 \<le> 8 * BUF_SZ" using k(2) by simp
    from bmp_mark_spec[OF this, of "phys_bmp m"] that show ?thesis by blast
  qed
  moreover have "mmu_alloc_phys m = Inr (4096 * k, m\<lparr>phys_bmp := b\<rparr>)"
    using a k(1) b(1) by (simp add: mmu_alloc_phys_def mmu_alloc_phys_at_def)
  moreover have "used (m\<lparr>phys_bmp := b\<rparr>) i \<longleftrightarrow> used m i \<or> i = k" for i
    using b(2) by (auto simp: used_def)
  ultimately show ?thesis by blast
qed

lemma mmu_alloc_phys_full: "used m 0 \<Longrightarrow> free_frames m = {} \<Longrightarrow> mmu_alloc_phys m = Inr (0, m)"
  using find_frame_spec[where b = "phys_bmp m" and i = 0]
  by (auto simp: mmu_alloc_phys_def free_frames_def used_def split: option.splits)

lemma mmu_free_phys_spec:
  assumes "k + n \<le> 8 * BUF_SZ"
  shows "\<exists>b. mmu_free_phys m (4096 * k) n = Inr (m\<lparr>phys_bmp := b\<rparr>) \<and>
    (\<forall>i. used (m\<lparr>phys_bmp := b\<rparr>) i \<longleftrightarrow> used m i \<and> \<not> (k \<le> i \<and> i < k + n))"
  using bmp_clear_spec[OF assms, of "phys_bmp m"] by (auto simp: mmu_free_phys_def used_def)

subsection \<open>Kernel virtual pages\<close>

definition kpr :: "mm \<Rightarrow> nat \<Rightarrow> bool" where
  "kpr m q \<longleftrightarrow> kheap_tbls m (q div 512) (q mod 512) AND PAGE_PR \<noteq> 0"

definition free_kpages :: "mm \<Rightarrow> nat set" where
  "free_kpages m = {q. q < 512 * 512 \<and> \<not> kpr m q}"

definition dir_pr :: "mm \<Rightarrow> nat \<Rightarrow> bool" where
  "dir_pr m i \<longleftrightarrow> kheap_dir m i AND PAGE_PR \<noteq> 0"

text \<open>The tables that the directory does not name are empty, and it has no 2 megabyte pages.\<close>

definition kheap_ok :: "mm \<Rightarrow> bool" where
  "kheap_ok m \<longleftrightarrow> 4096 dvd at_tbls m \<and> at_tbls m < 2 ^ 64 \<and> (\<forall>i<512. kheap_dir m i AND PD_2M = 0) \<and>
     (\<forall>q<512 * 512. kpr m q \<longrightarrow> dir_pr m (q div 512))"

lemma finite_free_kpages [simp]: "finite (free_kpages m)"
  by (rule finite_subset[of _ "{..<512 * 512}"]) (auto simp: free_kpages_def)

text \<open>A run of pages that are free, in tables that the directory names.\<close>

definition free_run :: "mm \<Rightarrow> nat \<Rightarrow> nat \<Rightarrow> bool" where
  "free_run m s e \<longleftrightarrow> (\<forall>q. s \<le> q \<and> q < e \<longrightarrow> \<not> kpr m q \<and> dir_pr m (q div 512))"

lemma free_run_empty [simp]: "free_run m s s"
  unfolding free_run_def by (metis leD)

lemma free_run_step: "free_run m s e \<Longrightarrow> \<not> kpr m e \<Longrightarrow> dir_pr m (e div 512) \<Longrightarrow> free_run m s (Suc e)"
  unfolding free_run_def by (metis less_SucE)

lemma kalloc_row_spec:
  assumes "j \<le> 512" "512 * pd + pt + c = 512 * i + j" "free_run m (512 * pd + pt) (512 * i + j)" "pt \<le> 512"
    "dir_pr m i" "c < n"
  shows "case kalloc_row (kheap_tbls m i) n i [j..<512] (c, pd, pt) of
      Inl (c', pd', pt') \<Rightarrow> 512 * pd' + pt' + c' = 512 * (i + 1) \<and> free_run m (512 * pd' + pt') (512 * (i + 1)) \<and> pt' \<le> 512 \<and> c' < n
    | Inr (c', pd', pt') \<Rightarrow> c' = n \<and> 512 * pd' + pt' + n \<le> 512 * (i + 1) \<and>
        free_run m (512 * pd' + pt') (512 * pd' + pt' + n) \<and> pt' \<le> 512"
  using assms
proof (induction "512 - j" arbitrary: j c pd pt)
  case 0
  then show ?case by (simp add: add.commute)
next
  case (Suc x)
  then have j: "j < 512" "[j..<512] = j # [Suc j..<512]" by (simp_all add: upt_conv_Cons)
  have q: "(512 * i + j) div 512 = i" "(512 * i + j) mod 512 = j" using j by simp_all
  show ?case
  proof (cases "kheap_tbls m i j AND PAGE_PR \<noteq> 0")
    case True
    then show ?thesis using Suc.hyps(1)[of "Suc j" i "j + 1" 0] Suc.hyps(2) Suc.prems unfolding j by simp
  next
    case False
    have run: "free_run m (512 * pd + pt) (Suc (512 * i + j))"
      using Suc.prems q False by (intro free_run_step) (simp_all add: q kpr_def del: mod_mult_self4 mod_mult_self2)
    show ?thesis
    proof (cases "c + 1 \<ge> n")
      case True
      then have n: "c + 1 = n" "512 * pd + pt + n = Suc (512 * i + j)" using Suc.prems by linarith+
      have "kalloc_row (kheap_tbls m i) n i [j..<512] (c, pd, pt) = Inr (n, pd, pt)" using False True n(1) unfolding j(2) by simp
      moreover have "512 * pd + pt + n \<le> 512 * (i + 1)" using n(2) j(1) by simp
      ultimately show ?thesis using run Suc.prems(4) by (simp only: flip: n(2)) simp
    next
      case f: False
      then show ?thesis using False run Suc.hyps(1)[of "Suc j" pd pt "c + 1"] Suc.hyps(2) Suc.prems j(1) unfolding j(2) by simp
    qed
  qed
qed

lemma kalloc_scan_spec:
  assumes "i \<le> 512" "512 * pd + pt + c = 512 * i" "free_run m (512 * pd + pt) (512 * i)" "pt \<le> 512" "c < n"
    "kalloc_scan m n [i..<512] (c, pd, pt) = Some (c', pd', pt')"
  shows "c' = n \<and> 512 * pd' + pt' + n \<le> 512 * 512 \<and> free_run m (512 * pd' + pt') (512 * pd' + pt' + n) \<and> pt' \<le> 512"
  using assms
proof (induction "512 - i" arbitrary: i c pd pt)
  case (Suc x)
  then have i: "i < 512" "[i..<512] = i # [Suc i..<512]" by (simp_all add: upt_conv_Cons)
  show ?case
  proof (cases "kheap_dir m i AND PAGE_PR = 0 \<or> kheap_dir m i AND PD_2M \<noteq> 0")
    case True
    then show ?thesis using Suc.hyps(1)[of "Suc i" "i + 1" 0 0] Suc.hyps(2) Suc.prems i(1) unfolding i(2) by simp
  next
    case False
    then have d: "dir_pr m i" by (simp add: dir_pr_def)
    have row: "case kalloc_row (kheap_tbls m i) n i [0..<512] (c, pd, pt) of
      Inl (c', pd', pt') \<Rightarrow> 512 * pd' + pt' + c' = 512 * (i + 1) \<and> free_run m (512 * pd' + pt') (512 * (i + 1)) \<and> pt' \<le> 512 \<and> c' < n
    | Inr (c', pd', pt') \<Rightarrow> c' = n \<and> 512 * pd' + pt' + n \<le> 512 * (i + 1) \<and>
        free_run m (512 * pd' + pt') (512 * pd' + pt' + n) \<and> pt' \<le> 512"
      using kalloc_row_spec[of 0 pd pt c i m n] Suc.prems d by simp
    show ?thesis
    proof (cases "kalloc_row (kheap_tbls m i) n i [0..<512] (c, pd, pt)")
      case (Inl a)
      obtain c1 pd1 pt1 where a: "a = (c1, pd1, pt1)" by (cases a)
      then show ?thesis using row Inl False Suc.hyps(1)[of "Suc i" pd1 pt1 c1] Suc.hyps(2) Suc.prems(6) i(1) unfolding i(2)
        by (simp del: upt_rec_numeral upt.simps)
    next
      case (Inr b)
      then show ?thesis using row False Suc.prems(6) i(1) unfolding i(2)
        by (simp del: upt_rec_numeral upt.simps)
    qed
  qed
qed simp

text \<open>The tables with the pages of a range marked.\<close>

definition mark_range :: "(nat \<Rightarrow> nat \<Rightarrow> nat) \<Rightarrow> nat \<Rightarrow> nat \<Rightarrow> nat \<Rightarrow> nat \<Rightarrow> nat" where
  "mark_range T s n i j = (if j < 512 \<and> s \<le> 512 * i + j \<and> 512 * i + j < s + n then PAGE_PR else T i j)"

lemma mark_range_0 [simp]: "mark_range T s 0 = T"
  by (intro ext) (simp add: mark_range_def)

lemma mark_range_Suc:
  assumes "pt < 512"
  shows "mark_range (T(pd := (T pd)(pt := PAGE_PR))) (512 * pd + pt + 1) n = mark_range T (512 * pd + pt) (Suc n)"
proof (intro ext)
  fix i j
  have "512 * i + j = 512 * pd + pt \<longleftrightarrow> i = pd \<and> j = pt" if "j < 512"
  proof
    assume eq: "512 * i + j = 512 * pd + pt"
    have "(512 * i + j) div 512 = i" "(512 * pd + pt) div 512 = pd" using that assms by simp_all
    then show "i = pd \<and> j = pt" using eq by (metis add_left_cancel)
  qed simp
  then show "mark_range (T(pd := (T pd)(pt := PAGE_PR))) (512 * pd + pt + 1) n i j = mark_range T (512 * pd + pt) (Suc n) i j"
    using assms by (cases "i = pd \<and> j = pt") (auto simp: mark_range_def)
qed

lemma kalloc_mark_spec:
  assumes "pt \<le> 512" "512 * pd + pt + n \<le> 512 * 512"
  shows "kalloc_mark m pd pt n = Inr (m\<lparr>kheap_tbls := mark_range (kheap_tbls m) (512 * pd + pt) n\<rparr>)"
  using assms
proof (induction n arbitrary: m pd pt)
  case (Suc n)
  define pd1 pt1 where "pd1 = (if pt \<ge> 512 then pd + 1 else pd)" and "pt1 = (if pt \<ge> 512 then 0 else pt)"
  have eq: "512 * pd1 + pt1 = 512 * pd + pt" "pt1 < 512" "pd1 < 512"
    using Suc.prems by (auto simp: pd1_def pt1_def)
  have "kalloc_mark m pd pt (Suc n) = kalloc_mark (m\<lparr>kheap_tbls := (kheap_tbls m)(pd1 := (kheap_tbls m pd1)(pt1 := PAGE_PR))\<rparr>) pd1 (pt1 + 1) n"
    using eq by (simp add: pd1_def pt1_def)
  also have "\<dots> = Inr (m\<lparr>kheap_tbls := mark_range (kheap_tbls m) (512 * pd1 + pt1) (Suc n)\<rparr>)"
    using Suc.IH[of "pt1 + 1" pd1] Suc.prems eq(2,3) mark_range_Suc[OF eq(2)] by (simp flip: eq(1))
  finally show ?case unfolding eq .
qed simp

definition new_dirs :: "mm \<Rightarrow> nat \<Rightarrow> nat \<Rightarrow> nat \<Rightarrow> nat" where
  "new_dirs m pd e i = (if pd \<le> i \<and> i < e then sub64 (at_tbls m + i * PAGE4K) KBASE OR PAGE_PR OR PAGE_RW else kheap_dir m i)"

lemma new_dirs_tbls [simp]: "new_dirs (m\<lparr>kheap_tbls := T\<rparr>) a e = new_dirs m a e"
  by (intro ext) (simp add: new_dirs_def)

lemma kalloc_mark_new_spec:
  assumes "pt \<le> 512" "512 * pd + pt + n \<le> 512 * 512"
  shows "kalloc_mark_new m pd pt n = Inr (m\<lparr>kheap_dir := new_dirs m (pd + 1) ((512 * pd + pt + n + 511) div 512),
    kheap_tbls := mark_range (kheap_tbls m) (512 * pd + pt) n\<rparr>)"
  using assms
proof (induction n arbitrary: m pd pt)
  case 0
  then have "(512 * pd + pt + 0 + 511) div 512 < pd + 2" by (simp add: div_less_iff_less_mult)
  then have "new_dirs m (pd + 1) ((512 * pd + pt + 0 + 511) div 512) = kheap_dir m" by (intro ext) (simp add: new_dirs_def)
  then show ?case by simp
next
  case (Suc n)
  define pd1 pt1 m1 where "pd1 = (if pt \<ge> 512 then pd + 1 else pd)" and "pt1 = (if pt \<ge> 512 then 0 else pt)"
    and "m1 = (if pt \<ge> 512 then set_dir m (pd + 1) else m)"
  let ?e = "(512 * pd1 + pt1 + Suc n + 511) div 512"
  have eq: "512 * pd1 + pt1 = 512 * pd + pt" "pt1 < 512" "pd1 < 512"
    using Suc.prems by (auto simp: pd1_def pt1_def)
  have e: "pd1 + 1 \<le> ?e" by (simp add: less_eq_div_iff_mult_less_eq)
  have m1: "new_dirs m1 (pd1 + 1) ?e = new_dirs m (pd + 1) ?e" "kheap_tbls m1 = kheap_tbls m"
    using e by (auto simp: new_dirs_def m1_def pd1_def set_dir_def fun_eq_iff)
  have upd: "m1\<lparr>kheap_dir := x, kheap_tbls := y\<rparr> = m\<lparr>kheap_dir := x, kheap_tbls := y\<rparr>" for x y
    by (simp add: m1_def set_dir_def)
  have "kalloc_mark_new m pd pt (Suc n) = kalloc_mark_new (m1\<lparr>kheap_tbls := (kheap_tbls m1)(pd1 := (kheap_tbls m1 pd1)(pt1 := PAGE_PR))\<rparr>) pd1 (pt1 + 1) n"
    using eq by (simp add: pd1_def pt1_def m1_def)
  also have "\<dots> = Inr (m1\<lparr>kheap_dir := new_dirs m1 (pd1 + 1) ?e, kheap_tbls := mark_range (kheap_tbls m1) (512 * pd1 + pt1) (Suc n)\<rparr>)"
    using Suc.IH[of "pt1 + 1" pd1] Suc.prems eq(2,3) mark_range_Suc[OF eq(2)] by (simp flip: eq(1))
  finally show ?case unfolding upd m1 unfolding eq .
qed

lemma kalloc_new_spec:
  assumes "i \<le> 512" "512 * pd + c = 512 * i" "\<forall>j. pd \<le> j \<and> j < i \<longrightarrow> \<not> dir_pr m j"
    "kalloc_new m n [i..<512] c pd = Some pd'" "c < n"
  shows "512 * pd' + n \<le> 512 * 512 \<and> (\<forall>q. 512 * pd' \<le> q \<and> q < 512 * pd' + n \<longrightarrow> \<not> dir_pr m (q div 512))"
  using assms
proof (induction "512 - i" arbitrary: i c pd)
  case (Suc x)
  then have i: "i < 512" "[i..<512] = i # [Suc i..<512]" by (simp_all add: upt_conv_Cons)
  show ?case
  proof (cases "kheap_dir m i AND PAGE_PR \<noteq> 0")
    case True
    then show ?thesis using Suc.hyps(1)[of "Suc i" "i + 1" 0] Suc.hyps(2) Suc.prems i(1) unfolding i(2) by auto
  next
    case False
    then have nd: "\<forall>j. pd \<le> j \<and> j < Suc i \<longrightarrow> \<not> dir_pr m j" using Suc.prems(3) by (auto simp: dir_pr_def less_Suc_eq)
    show ?thesis
    proof (cases "c + 512 \<ge> n")
      case True
      then have pd': "pd' = pd" using Suc.prems(4) False unfolding i(2) by simp
      have "\<not> dir_pr m (q div 512)" if "512 * pd \<le> q" "q < 512 * pd + n" for q
      proof -
        have "q < 512 * (i + 1)" using that True Suc.prems(2) by (simp add: algebra_simps)
        then have "q div 512 < Suc i" "pd \<le> q div 512" using that
          by (simp_all add: div_less_iff_less_mult less_eq_div_iff_mult_less_eq mult.commute)
        then show ?thesis using nd by blast
      qed
      moreover have "512 * pd + n \<le> 512 * 512" using True Suc.prems(2) i(1) by linarith
      ultimately show ?thesis unfolding pd' by blast
    next
      case c: False
      then show ?thesis using Suc.hyps(1)[of "Suc i" pd "c + 512"] Suc.hyps(2) Suc.prems i(1) nd False unfolding i(2) by simp
    qed
  qed
qed simp

text \<open>Where one page is wanted, the search fails only when every page is taken.\<close>

lemma kalloc_row_one: "kalloc_row row 1 i js st = Inl st' \<Longrightarrow> j \<in> set js \<Longrightarrow> row j AND PAGE_PR \<noteq> 0"
proof (induction js arbitrary: st)
  case (Cons a js)
  obtain c pd pt where "st = (c, pd, pt)" by (cases st)
  then show ?case using Cons by (auto split: if_splits)
qed simp

lemma kalloc_scan_one:
  "kalloc_scan m 1 is st = None \<Longrightarrow> i \<in> set is \<Longrightarrow> dir_pr m i \<Longrightarrow> kheap_dir m i AND PD_2M = 0 \<Longrightarrow> j < 512 \<Longrightarrow>
    kheap_tbls m i j AND PAGE_PR \<noteq> 0"
proof (induction "is" arbitrary: st)
  case (Cons a "is")
  show ?case
  proof (cases "i = a")
    case True
    then obtain st' where "kalloc_row (kheap_tbls m i) 1 i [0..<512] st = Inl st'"
      using Cons.prems by (auto simp: dir_pr_def split: sum.splits)
    then show ?thesis using Cons.prems(5) by (intro kalloc_row_one) auto
  next
    case False
    then show ?thesis using Cons by (auto split: if_splits sum.splits)
  qed
qed simp

lemma kalloc_new_one: "kalloc_new m 1 is c pd = None \<Longrightarrow> i \<in> set is \<Longrightarrow> dir_pr m i"
  by (induction "is" arbitrary: c pd) (auto simp: dir_pr_def split: if_splits)

lemma ent_bit: "i < 12 \<Longrightarrow> bit (4096 * f OR fl) i = bit (fl::nat) i"
  unfolding frame_push by (simp add: bit_simps)

lemma and_pr: "(e::nat) AND PAGE_PR \<noteq> 0 \<longleftrightarrow> bit e 0" "(e::nat) AND PAGE_USR \<noteq> 0 \<longleftrightarrow> bit e 2" "(e::nat) AND PD_2M \<noteq> 0 \<longleftrightarrow> bit e 7"
  using and_exp_eq_0_iff_not_bit[of e 0] and_exp_eq_0_iff_not_bit[of e 2] and_exp_eq_0_iff_not_bit[of e 7] by simp_all

lemma sub64_dvd:
  assumes "(4096::nat) dvd a" "4096 dvd b"
  shows "4096 dvd sub64 a b"
proof -
  have d: "(4096::nat) dvd 2 ^ 64" by (rule dvdI[of _ _ "2 ^ 52"]) simp
  have "4096 dvd b mod 2 ^ 64" using assms(2) d by (simp only: dvd_mod_iff)
  moreover have "b mod 2 ^ 64 \<le> a + 2 ^ 64" using mod_less_divisor[of "2 ^ 64" b] by (simp add: less_imp_le trans_le_add2)
  ultimately have "4096 dvd a + 2 ^ 64 - b mod 2 ^ 64"
    using assms(1) d by (intro dvd_diff_nat dvd_add)
  then show ?thesis unfolding sub64_def using d by (simp only: dvd_mod_iff)
qed

lemma new_dir_bits:
  assumes "4096 dvd at_tbls m"
  shows "bit (sub64 (at_tbls m + i * 4096) KBASE OR PAGE_PR OR PAGE_RW) 0"
    "\<not> bit (sub64 (at_tbls m + i * 4096) KBASE OR PAGE_PR OR PAGE_RW) 7"
proof -
  have "4096 dvd sub64 (at_tbls m + i * 4096) KBASE"
    using assms by (intro sub64_dvd) auto
  then obtain f where f: "sub64 (at_tbls m + i * 4096) KBASE = 4096 * f" by (elim dvdE)
  have "bit (4096 * f OR (PAGE_PR OR PAGE_RW)) 0" "\<not> bit (4096 * f OR (PAGE_PR OR PAGE_RW)) 7"
    by (subst ent_bit; simp add: bit_simps)+
  then show "bit (sub64 (at_tbls m + i * 4096) KBASE OR PAGE_PR OR PAGE_RW) 0"
    "\<not> bit (sub64 (at_tbls m + i * 4096) KBASE OR PAGE_PR OR PAGE_RW) 7"
    unfolding f by (simp_all add: or.assoc)
qed

lemma kpr_mark:
  assumes "q < 512 * 512"
  shows "kpr (m\<lparr>kheap_dir := D, kheap_tbls := mark_range (kheap_tbls m) s n\<rparr>) q \<longleftrightarrow> kpr m q \<or> s \<le> q \<and> q < s + n"
  by (auto simp: kpr_def mark_range_def)

text \<open>
  \<open>mmu_kalloc\<close> finds \<open>n\<close> consecutive free pages and marks exactly those.
\<close>

lemma mmu_kalloc_spec:
  assumes ok: "kheap_ok m" and n: "0 < n"
  shows "mmu_kalloc m n = Inr (0, m) \<or>
    (\<exists>s D. mmu_kalloc m n = Inr (kpage s, m\<lparr>kheap_dir := D, kheap_tbls := mark_range (kheap_tbls m) s n\<rparr>) \<and>
      s + n \<le> 512 * 512 \<and> (\<forall>q. s \<le> q \<and> q < s + n \<longrightarrow> \<not> kpr m q) \<and>
      kheap_ok (m\<lparr>kheap_dir := D, kheap_tbls := mark_range (kheap_tbls m) s n\<rparr>))"
proof (cases "kalloc_scan m n [0..<512] (0, 0, 0)")
  case (Some r)
  obtain c pd pt where r: "r = (c, pd, pt)" by (cases r)
  have "c = n \<and> 512 * pd + pt + n \<le> 512 * 512 \<and> free_run m (512 * pd + pt) (512 * pd + pt + n) \<and> pt \<le> 512"
    by (rule kalloc_scan_spec[OF _ _ _ _ n Some[unfolded r]]) simp_all
  then have sp: "c = n" "512 * pd + pt + n \<le> 512 * 512" "free_run m (512 * pd + pt) (512 * pd + pt + n)" "pt \<le> 512"
    by blast+
  have k: "mmu_kalloc m n = Inr (kpage (512 * pd + pt), m\<lparr>kheap_dir := kheap_dir m, kheap_tbls := mark_range (kheap_tbls m) (512 * pd + pt) n\<rparr>)"
    using Some r sp(1) kalloc_mark_spec[OF sp(4,2)] by (simp add: mmu_kalloc_def algebra_simps del: upt_rec_numeral)
  let ?m = "m\<lparr>kheap_dir := kheap_dir m, kheap_tbls := mark_range (kheap_tbls m) (512 * pd + pt) n\<rparr>"
  have "dir_pr ?m (q div 512)" if "q < 512 * 512" "kpr ?m q" for q
  proof -
    have "kpr m q \<or> 512 * pd + pt \<le> q \<and> q < 512 * pd + pt + n" using kpr_mark[OF that(1)] that(2) by blast
    moreover have "dir_pr m (q div 512)" if "kpr m q" using ok \<open>q < 512 * 512\<close> that unfolding kheap_ok_def by blast
    ultimately have "dir_pr m (q div 512)" using sp(3) unfolding free_run_def by blast
    then show ?thesis by (simp add: dir_pr_def)
  qed
  then have ok': "kheap_ok ?m" using ok by (simp add: kheap_ok_def)
  show ?thesis using k ok' sp(2,3) unfolding free_run_def by blast
next
  case None
  show ?thesis
  proof (cases "kalloc_new m n [0..<512] 0 0")
    case n2: None
    then show ?thesis using None by (simp add: mmu_kalloc_def del: upt_rec_numeral)
  next
    case (Some pd)
    have "512 * pd + n \<le> 512 * 512 \<and> (\<forall>q. 512 * pd \<le> q \<and> q < 512 * pd + n \<longrightarrow> \<not> dir_pr m (q div 512))"
      by (rule kalloc_new_spec[OF _ _ _ Some n]) simp_all
    then have sp: "512 * pd + n \<le> 512 * 512" "\<forall>q. 512 * pd \<le> q \<and> q < 512 * pd + n \<longrightarrow> \<not> dir_pr m (q div 512)"
      by blast+
    let ?e = "(512 * pd + n + 511) div 512"
    let ?D = "new_dirs (set_dir m pd) (pd + 1) ?e"
    let ?m = "m\<lparr>kheap_dir := ?D, kheap_tbls := mark_range (kheap_tbls m) (512 * pd) n\<rparr>"
    have k: "mmu_kalloc m n = Inr (kpage (512 * pd), ?m)"
      using None Some kalloc_mark_new_spec[of 0 pd n "set_dir m pd"] sp(1) by (simp add: mmu_kalloc_def algebra_simps set_dir_def del: upt_rec_numeral)
    have D: "?D i = (if pd \<le> i \<and> i < max (pd + 1) ?e then sub64 (at_tbls m + i * 4096) KBASE OR PAGE_PR OR PAGE_RW else kheap_dir m i)" for i
      by (auto simp: new_dirs_def set_dir_def)
    have "kheap_dir ?m i AND PD_2M = 0" if "i < 512" for i
      using ok that new_dir_bits(2)[of m i] and_pr(3)[of "?D i"] and_pr(3)[of "kheap_dir m i"] D[of i]
      by (auto simp: kheap_ok_def)
    moreover have "dir_pr ?m (q div 512)" if "q < 512 * 512" "kpr ?m q" for q
    proof (cases "pd \<le> q div 512 \<and> q div 512 < max (pd + 1) ?e")
      case True
      then have "?D (q div 512) = sub64 (at_tbls m + q div 512 * 4096) KBASE OR PAGE_PR OR PAGE_RW" unfolding D by simp
      then have "bit (kheap_dir ?m (q div 512)) 0" using new_dir_bits(1)[of m "q div 512"] ok by (simp add: kheap_ok_def)
      then show ?thesis unfolding dir_pr_def and_pr .
    next
      case False
      have "q < 512 * pd \<or> 512 * pd + n \<le> q"
      proof (rule ccontr)
        assume "\<not> ?thesis"
        then have "pd \<le> q div 512" "q div 512 < ?e"
          by (auto simp: less_eq_div_iff_mult_less_eq div_less_iff_less_mult mult.commute) 
        then show False using False by auto
      qed
      then have "kpr m q" using that kpr_mark[OF that(1), where m = m and D = ?D and s = "512 * pd" and n = n] by auto
      then have "dir_pr m (q div 512)" using ok that(1) by (simp add: kheap_ok_def)
      moreover have "?D (q div 512) = kheap_dir m (q div 512)" unfolding D by (rule if_not_P[OF False])
      ultimately show ?thesis by (simp add: dir_pr_def)
    qed
    ultimately have "kheap_ok ?m" using ok by (simp add: kheap_ok_def)
    moreover have "\<not> kpr m q" if "512 * pd \<le> q" "q < 512 * pd + n" for q
      using that sp ok by (auto simp: kheap_ok_def)
    ultimately show ?thesis using k sp(1) by blast
  qed
qed

lemma mmu_kalloc_one:
  assumes ok: "kheap_ok m" and fr: "free_kpages m \<noteq> {}"
  shows "\<exists>q D. q \<in> free_kpages m \<and>
    mmu_kalloc m 1 = Inr (kpage q, m\<lparr>kheap_dir := D, kheap_tbls := mark_range (kheap_tbls m) q 1\<rparr>) \<and>
    kheap_ok (m\<lparr>kheap_dir := D, kheap_tbls := mark_range (kheap_tbls m) q 1\<rparr>)"
proof -
  have "mmu_kalloc m 1 \<noteq> Inr (0, m)"
  proof
    assume z: "mmu_kalloc m 1 = Inr (0, m)"
    have n: "kalloc_scan m 1 [0..<512] (0, 0, 0) = None" "kalloc_new m 1 [0..<512] 0 0 = None"
      using z by (auto simp: mmu_kalloc_def bindS_Inr simp del: upt_rec_numeral split: option.splits)
    obtain q where q: "q < 512 * 512" "\<not> kpr m q" using fr by (auto simp: free_kpages_def)
    have i: "q div 512 \<in> set [0..<512]" using q(1) by (simp add: div_less_iff_less_mult)
    have "dir_pr m (q div 512)" by (rule kalloc_new_one[OF n(2) i])
    moreover have "kheap_dir m (q div 512) AND PD_2M = 0" using ok i by (simp add: kheap_ok_def)
    ultimately have "kheap_tbls m (q div 512) (q mod 512) AND PAGE_PR \<noteq> 0"
      using kalloc_scan_one[OF n(1) i] by simp
    then show False using q(2) by (simp add: kpr_def)
  qed
  then obtain s D where "mmu_kalloc m 1 = Inr (kpage s, m\<lparr>kheap_dir := D, kheap_tbls := mark_range (kheap_tbls m) s 1\<rparr>)"
      "s + 1 \<le> 512 * 512" "\<forall>q. s \<le> q \<and> q < s + 1 \<longrightarrow> \<not> kpr m q"
      "kheap_ok (m\<lparr>kheap_dir := D, kheap_tbls := mark_range (kheap_tbls m) s 1\<rparr>)"
    using mmu_kalloc_spec[OF ok zero_less_one] by blast
  moreover from this have "s \<in> free_kpages m" by (auto simp: free_kpages_def)
  ultimately show ?thesis by blast
qed

end
