(* ===== verification/Pagetable.thy ===== *)
theory Pagetable
  imports Mmu
begin

text \<open>
  What the page tables of \<^verbatim>\<open>mmu.c\<close> mean: \<open>hw_walk\<close> is the walk of the processor through the four
  levels from \<^verbatim>\<open>cr3\<close>, \<open>vm_ok\<close> the invariant under which the kernel's own pointers into the
  tables and the entries of the tables agree. The lemmas show that creating an address space
  establishes it, that mapping a page and copying an address space at \<^verbatim>\<open>fork\<close> keep it, and
  what these operations do to the translation that the processor sees.
\<close>

unbundle bit_operations_syntax

subsection \<open>Pages of the kernel that hold page tables\<close>

definition mm_ok :: "mm \<Rightarrow> bool" where
  "mm_ok m \<longleftrightarrow> kheap_ok m \<and> used m 0"

text \<open>The pointer \<open>p\<close> of the kernel is mapped to the frame \<open>f\<close>, read and write.\<close>

definition kptr :: "mm \<Rightarrow> addr \<Rightarrow> nat \<Rightarrow> bool" where
  "kptr m p f \<longleftrightarrow> f < 2 ^ 52 \<and> (\<exists>q<512 * 512. p = kpage q \<and> kheap_tbls m (q div 512) (q mod 512) = 4096 * f OR (PAGE_PR OR PAGE_RW))"

lemma kptr_access:
  assumes "kptr m p f"
  shows "kmapped m p" "kframe m p = f" "p \<noteq> 0"
proof -
  obtain q where q: "q < 512 * 512" "p = kpage q" "kheap_tbls m (q div 512) (q mod 512) = 4096 * f OR (PAGE_PR OR PAGE_RW)" "f < 2 ^ 52"
    using assms by (auto simp: kptr_def)
  have e: "kentry m p = 4096 * f OR (PAGE_PR OR PAGE_RW)" using q by (simp add: kentry_def kpage_idx)
  have "bit (4096 * f OR (PAGE_PR OR PAGE_RW)) 0" by (subst ent_bit) (simp_all add: bit_simps)
  then show "kmapped m p" using q(2) unfolding kmapped_def e and_pr by simp
  have "(4096 * f OR (PAGE_PR OR PAGE_RW)) AND PAGE_FRAME = 4096 * f"
    using q(4) by (intro ent_frame) (simp_all)
  then show "kframe m p = f" unfolding kframe_def e by simp
  show "p \<noteq> 0" using q(2) by simp
qed

lemma kptr_access_simps:
  assumes "kptr m p f"
  shows "kload m p i = Inr (phys m f i)" "kpage_set m p g = Inr (m\<lparr>phys := (phys m)(f := g)\<rparr>)"
    "kstore m p i e = Inr (m\<lparr>phys := (phys m)(f := (phys m f)(i := e))\<rparr>)"
  using kptr_access[OF assms] by (simp_all add: kload_def kpage_set_def kstore_def)

lemma kptr_phys [simp]: "kptr (m\<lparr>phys := P\<rparr>) = kptr m" "kptr (m\<lparr>phys_bmp := b\<rparr>) = kptr m" "kptr (m\<lparr>kheap_dir := D\<rparr>) = kptr m"
  "kptr (m\<lparr>mm_heap := h\<rparr>) = kptr m"
  by (simp_all add: kptr_def fun_eq_iff)

lemma mm_ok_upd [simp]: "mm_ok (m\<lparr>phys := P\<rparr>) = mm_ok m" "used (m\<lparr>phys := P\<rparr>) = used m" "free_frames (m\<lparr>phys := P\<rparr>) = free_frames m"
  "free_kpages (m\<lparr>phys := P\<rparr>) = free_kpages m" "used (m\<lparr>kheap_tbls := T\<rparr>) = used m" "used (m\<lparr>kheap_dir := D\<rparr>) = used m"
  "mm_ok (m\<lparr>mm_heap := h\<rparr>) = mm_ok m" "used (m\<lparr>mm_heap := h\<rparr>) = used m" "free_frames (m\<lparr>mm_heap := h\<rparr>) = free_frames m"
  "free_kpages (m\<lparr>mm_heap := h\<rparr>) = free_kpages m"
  by (simp_all add: mm_ok_def kheap_ok_def kpr_def dir_pr_def used_def free_frames_def free_kpages_def fun_eq_iff)

text \<open>
  What later steps rely on: frames in use stay in use, mapped pointers stay mapped, and the
  contents of every frame that was in use, except those in \<open>F\<close>, stay as they are.
\<close>

definition mm_pres :: "nat set \<Rightarrow> mm \<Rightarrow> mm \<Rightarrow> bool" where
  "mm_pres F m m' \<longleftrightarrow> mm_ok m' \<and> (\<forall>f. used m f \<longrightarrow> used m' f) \<and> (\<forall>p f. kptr m p f \<longrightarrow> kptr m' p f) \<and>
     (\<forall>f. used m f \<and> f \<notin> F \<longrightarrow> phys m' f = phys m f) \<and> kpml4 m' = kpml4 m"

lemma mm_pres_refl: "mm_ok m \<Longrightarrow> mm_pres F m m"
  by (simp add: mm_pres_def)

lemma mm_pres_trans: "mm_pres F m m1 \<Longrightarrow> mm_pres G m1 m2 \<Longrightarrow> F \<subseteq> H \<Longrightarrow> G \<inter> {f. used m f} \<subseteq> H \<Longrightarrow> mm_pres H m m2"
  unfolding mm_pres_def by (metis (no_types, lifting) IntI mem_Collect_eq subsetD)

lemma mm_pres_heap: "mm_ok m \<Longrightarrow> mm_pres F m (m\<lparr>mm_heap := h\<rparr>)"
  by (simp add: mm_pres_def)

lemma mm_pres_store: "mm_ok m \<Longrightarrow> kptr m p f \<Longrightarrow> mm_pres {f} m (m\<lparr>phys := (phys m)(f := g)\<rparr>)"
  by (simp add: mm_pres_def)

lemma mark_range_one:
  assumes "q < 512 * 512"
  shows "mark_range T q 1 = T(q div 512 := (T (q div 512))(q mod 512 := PAGE_PR))"
proof -
  have "512 * (q div 512) + q mod 512 = q" by simp
  then show ?thesis using mark_range_Suc[of "q mod 512" T "q div 512" 0] by simp
qed

lemma kmap_page:
  assumes "q < 512 * 512" "k < 2 ^ 52"
  shows "mmu_kmap m (kpage q) (4096 * k) fl =
    m\<lparr>kheap_tbls := (kheap_tbls m)(q div 512 := (kheap_tbls m (q div 512))(q mod 512 := 4096 * k OR fl))\<rparr>"
proof -
  have "4096 * k AND PAGE_FRAME = 4096 * k" using ent_frame[OF assms(2), of 0] by simp
  then show ?thesis using assms(1) by (simp add: mmu_kmap_def kpage_idx)
qed

text \<open>A page that \<open>mmu_kalloc\<close> has marked and that no frame is mapped to yet.\<close>

definition kraw :: "mm \<Rightarrow> nat \<Rightarrow> bool" where
  "kraw m q \<longleftrightarrow> q < 512 * 512 \<and> kheap_tbls m (q div 512) (q mod 512) = PAGE_PR"

lemma kptr_bits: "kptr m (kpage q) f \<Longrightarrow> kpr m q \<and> \<not> kraw m q"
proof -
  assume "kptr m (kpage q) f"
  then have e: "kheap_tbls m (q div 512) (q mod 512) = 4096 * f OR (PAGE_PR OR PAGE_RW)" by (auto simp: kptr_def)
  have b: "bit (4096 * f OR (PAGE_PR OR PAGE_RW)) 0" "bit (4096 * f OR (PAGE_PR OR PAGE_RW)) 1"
    by (subst ent_bit; simp add: bit_simps)+
  have "\<not> bit PAGE_PR 1" by (simp add: bit_simps)
  then show ?thesis using b e unfolding kpr_def kraw_def and_pr by metis
qed

lemma tbl_upd: "((T::nat \<Rightarrow> nat \<Rightarrow> nat)(q div 512 := (T (q div 512))(q mod 512 := e))) (q' div 512) (q' mod 512) =
    (if q' = q then e else T (q' div 512) (q' mod 512))"
  by (metis (no_types, lifting) div_mult_mod_eq fun_upd_apply)

text \<open>The three steps by which the kernel gets at a frame: a page, a frame, and the mapping.\<close>

lemma kalloc_step:
  assumes mm: "mm_ok m" and fk: "free_kpages m \<noteq> {}"
  shows "\<exists>q m'. mmu_kalloc m 1 = Inr (kpage q, m') \<and> mm_pres {} m m' \<and> kraw m' q \<and> (\<forall>q'. kraw m q' \<longrightarrow> kraw m' q' \<and> q' \<noteq> q) \<and>
    q \<in> free_kpages m \<and> free_kpages m' = free_kpages m - {q} \<and> free_frames m' = free_frames m \<and> used m' = used m \<and>
    phys m' = phys m \<and> mm_heap m' = mm_heap m"
proof -
  obtain q D where q: "q \<in> free_kpages m" and ka: "mmu_kalloc m 1 = Inr (kpage q, m\<lparr>kheap_dir := D, kheap_tbls := mark_range (kheap_tbls m) q 1\<rparr>)"
      and okm: "kheap_ok (m\<lparr>kheap_dir := D, kheap_tbls := mark_range (kheap_tbls m) q 1\<rparr>)"
    using mmu_kalloc_one[of m] mm fk by (auto simp: mm_ok_def)
  have q2: "q < 512 * 512" "\<not> kpr m q" using q by (simp_all add: free_kpages_def)
  define m' where "m' = m\<lparr>kheap_dir := D, kheap_tbls := mark_range (kheap_tbls m) q 1\<rparr>"
  have T: "kheap_tbls m' (q' div 512) (q' mod 512) = (if q' = q then PAGE_PR else kheap_tbls m (q' div 512) (q' mod 512))" for q'
    unfolding m'_def using tbl_upd[of "kheap_tbls m" q PAGE_PR q'] mark_range_one[OF q2(1), of "kheap_tbls m"] by simp
  have kpr: "kpr m' q' \<longleftrightarrow> kpr m q' \<or> q' = q" for q' using T[of q'] by (simp add: kpr_def)
  have kp: "kptr m' p f" if kpf: "kptr m p f" for p f
  proof -
    obtain q' where q': "q' < 512 * 512" "p = kpage q'" using kpf by (auto simp: kptr_def)
    then have "q' \<noteq> q" using kptr_bits[of m q' f] that q2(2) by blast
    then show ?thesis using that T[of q'] q' by (auto simp: kptr_def)
  qed
  have "mm_pres {} m m'" unfolding mm_pres_def using kp mm okm by (simp add: m'_def mm_ok_def)
  moreover have "kraw m' q" using q2(1) T[of q] by (simp add: kraw_def)
  moreover have "kraw m' q' \<and> q' \<noteq> q" if "kraw m q'" for q'
  proof -
    have "kpr m q'" using that by (simp add: kraw_def kpr_def)
    then have "q' \<noteq> q" using q2(2) by blast
    then show ?thesis using that T[of q'] by (simp add: kraw_def)
  qed
  moreover have "free_kpages m' = free_kpages m - {q}" using kpr by (auto simp: free_kpages_def)
  moreover have "free_frames m' = free_frames m" "used m' = used m" "phys m' = phys m" "mm_heap m' = mm_heap m"
    by (simp_all add: m'_def free_frames_def)
  ultimately show ?thesis using ka q unfolding m'_def by blast
qed

lemma alloc_step:
  assumes mm: "mm_ok m" and ff: "free_frames m \<noteq> {}"
  shows "\<exists>k m'. mmu_alloc_phys m = Inr (4096 * k, m') \<and> mm_pres {} m m' \<and> used m' k \<and> (\<forall>q. kraw m q \<longrightarrow> kraw m' q) \<and>
    k \<in> free_frames m \<and> free_frames m' = free_frames m - {k} \<and> free_kpages m' = free_kpages m \<and>
    phys m' = phys m \<and> mm_heap m' = mm_heap m"
proof -
  obtain k b where k: "k \<in> free_frames m" "mmu_alloc_phys m = Inr (4096 * k, m\<lparr>phys_bmp := b\<rparr>)"
      "\<forall>i. used (m\<lparr>phys_bmp := b\<rparr>) i \<longleftrightarrow> used m i \<or> i = k"
    using mmu_alloc_phys_spec[of m] mm ff unfolding mm_ok_def by blast
  define m' where "m' = m\<lparr>phys_bmp := b\<rparr>"
  have "kheap_ok m' = kheap_ok m" by (simp add: m'_def kheap_ok_def kpr_def dir_pr_def)
  then have "mm_pres {} m m'" unfolding mm_pres_def using k(3) mm by (simp add: m'_def mm_ok_def)
  moreover have "free_frames m' = free_frames m - {k}" "used m' k" using k(3) by (auto simp: free_frames_def m'_def)
  moreover have "free_kpages m' = free_kpages m" "phys m' = phys m" "mm_heap m' = mm_heap m" "\<forall>q. kraw m q \<longrightarrow> kraw m' q"
    by (simp_all add: m'_def free_kpages_def kpr_def kraw_def)
  ultimately show ?thesis using k(1,2) unfolding m'_def by blast
qed

lemma kmap_step:
  assumes mm: "mm_ok m" and q: "kraw m q" and k: "k < 2 ^ 52"
  defines "m' \<equiv> mmu_kmap m (kpage q) (4096 * k) (PAGE_PR OR PAGE_RW)"
  shows "mm_pres {} m m'" "kptr m' (kpage q) k" "used m' = used m" "free_frames m' = free_frames m" "free_kpages m' = free_kpages m"
    "phys m' = phys m" "mm_heap m' = mm_heap m" "\<And>q'. kraw m q' \<Longrightarrow> q' \<noteq> q \<Longrightarrow> kraw m' q'"
proof -
  have q2: "q < 512 * 512" "kheap_tbls m (q div 512) (q mod 512) = PAGE_PR" using q by (simp_all add: kraw_def)
  have eq: "m' = m\<lparr>kheap_tbls := (kheap_tbls m)(q div 512 := (kheap_tbls m (q div 512))(q mod 512 := 4096 * k OR (PAGE_PR OR PAGE_RW)))\<rparr>"
    unfolding m'_def by (rule kmap_page[OF q2(1) k])
  have T: "kheap_tbls m' (q' div 512) (q' mod 512) = (if q' = q then 4096 * k OR (PAGE_PR OR PAGE_RW) else kheap_tbls m (q' div 512) (q' mod 512))" for q'
    unfolding eq using tbl_upd[of "kheap_tbls m" q "4096 * k OR (PAGE_PR OR PAGE_RW)" q'] by simp
  have "bit (4096 * k OR (PAGE_PR OR PAGE_RW)) 0" by (subst ent_bit) (simp_all add: bit_simps)
  then have "(4096 * k OR (PAGE_PR OR PAGE_RW)) AND PAGE_PR \<noteq> 0" unfolding and_pr .
  then have kpr: "kpr m' q' = kpr m q'" for q' unfolding kpr_def T using q2(2) by simp
  then show "free_kpages m' = free_kpages m" by (simp add: free_kpages_def)
  show *: "used m' = used m" "free_frames m' = free_frames m" "phys m' = phys m" "mm_heap m' = mm_heap m"
    unfolding eq by (simp_all add: free_frames_def)
  show "kptr m' (kpage q) k" using q2(1) k T[of q] by (auto simp: kptr_def)
  show "kraw m' q'" if "kraw m q'" "q' \<noteq> q" for q' using that T[of q'] by (simp add: kraw_def)
  have kp: "kptr m' p f" if kpf: "kptr m p f" for p f
  proof -
    obtain q' where q': "q' < 512 * 512" "p = kpage q'" using kpf by (auto simp: kptr_def)
    then have "q' \<noteq> q" using kptr_bits[of m q' f] that q by blast
    then show ?thesis using that T[of q'] q' by (auto simp: kptr_def)
  qed
  have d: "dir_pr m' = dir_pr m" "at_tbls m' = at_tbls m" "kheap_dir m' = kheap_dir m" "kpml4 m' = kpml4 m" unfolding eq by (simp_all add: dir_pr_def fun_eq_iff)
  have "kheap_ok m' = kheap_ok m" unfolding kheap_ok_def kpr d ..
  then show "mm_pres {} m m'" unfolding mm_pres_def using kp mm * d by (simp add: mm_ok_def)
qed

text \<open>A fresh page of the kernel with a fresh frame behind it.\<close>

lemma fresh_page:
  assumes ok: "mm_ok m" and ff: "free_frames m \<noteq> {}" and fk: "free_kpages m \<noteq> {}"
  shows "\<exists>q k m1 m2. q \<in> free_kpages m \<and> k \<in> free_frames m \<and> mmu_kalloc m 1 = Inr (kpage q, m1) \<and>
    mmu_alloc_phys m1 = Inr (4096 * k, m2) \<and>
    (let m3 = mmu_kmap m2 (kpage q) (4096 * k) (PAGE_PR OR PAGE_RW) in
      kptr m3 (kpage q) k \<and> mm_pres {} m m3 \<and> used m3 k \<and> phys m3 = phys m \<and> mm_heap m3 = mm_heap m \<and>
      free_frames m3 = free_frames m - {k} \<and> free_kpages m3 = free_kpages m - {q})"
proof -
  obtain q m1 where 1: "mmu_kalloc m 1 = Inr (kpage q, m1)" "mm_pres {} m m1" "kraw m1 q" "q \<in> free_kpages m"
      "free_kpages m1 = free_kpages m - {q}" "free_frames m1 = free_frames m" "phys m1 = phys m" "mm_heap m1 = mm_heap m"
    using kalloc_step[OF ok fk] by blast
  have mm1: "mm_ok m1" "free_frames m1 \<noteq> {}" using 1(2,6) ff by (simp_all add: mm_pres_def)
  obtain k m2 where 2: "mmu_alloc_phys m1 = Inr (4096 * k, m2)" "mm_pres {} m1 m2" "used m2 k" "kraw m2 q" "k \<in> free_frames m1"
      "free_frames m2 = free_frames m1 - {k}" "free_kpages m2 = free_kpages m1" "phys m2 = phys m1" "mm_heap m2 = mm_heap m1"
    using alloc_step[OF mm1] 1(3) by blast
  have mm2: "mm_ok m2" "k < 2 ^ 52" using 2(2,5) by (simp_all add: mm_pres_def free_frames_def)
  note 3 = kmap_step[OF mm2(1) 2(4) mm2(2)]
  have "mm_pres {} m m2" by (rule mm_pres_trans[OF 1(2) 2(2)]) auto
  then have "mm_pres {} m (mmu_kmap m2 (kpage q) (4096 * k) (PAGE_PR OR PAGE_RW))" by (rule mm_pres_trans[OF _ 3(1)]) auto
  then show ?thesis unfolding Let_def
    by (intro exI[of _ q] exI[of _ k] exI[of _ m1] exI[of _ m2]) (use 1 2 3(2-7) in \<open>simp\<close>)
qed

subsection \<open>The invariant of an address space\<close>

datatype tbl = PML4 | PDPT | PD nat | PT nat nat

primrec tptr :: "vm_map \<Rightarrow> tbl \<Rightarrow> addr" where
  "tptr v PML4 = vm_pml4 v"
| "tptr v PDPT = vm_pdpt v"
| "tptr v (PD i) = vm_pds v i"
| "tptr v (PT i j) = vm_pts v i j"

definition tbls :: "vm_map \<Rightarrow> tbl set" where
  "tbls v = {PML4, PDPT} \<union> PD ` {..<512} \<union> {PT i j |i j. i < 512 \<and> j < 512 \<and> vm_pts v i j \<noteq> 0}"

definition tframe :: "mm \<Rightarrow> vm_map \<Rightarrow> tbl \<Rightarrow> nat" where
  "tframe m v t = kframe m (tptr v t)"

text \<open>
  Every table of the address space is mapped into the kernel, its frame is in use, no two
  tables share a frame, and the entries of each level name the tables of the next.
\<close>

definition vm_ok :: "mm \<Rightarrow> vm_map \<Rightarrow> bool" where
  "vm_ok m v \<longleftrightarrow> (\<forall>t \<in> tbls v. kptr m (tptr v t) (tframe m v t) \<and> used m (tframe m v t)) \<and> inj_on (tframe m v) (tbls v) \<and>
     vm_pml4_phys v = 4096 * tframe m v PML4 \<and> vm_pdpt_phys v = 4096 * tframe m v PDPT \<and>
     phys m (tframe m v PML4) 0 = 4096 * tframe m v PDPT OR 7 \<and>
     (\<forall>i<512. vm_phys_pds v i = 4096 * tframe m v (PD i) \<and> phys m (tframe m v PDPT) i = 4096 * tframe m v (PD i) OR 7) \<and>
     (\<forall>i<512. \<forall>j<512. phys m (tframe m v (PD i)) j = (if vm_pts v i j = 0 then 0 else 4096 * tframe m v (PT i j) OR 7))"

definition leaf :: "mm \<Rightarrow> vm_map \<Rightarrow> nat \<Rightarrow> nat \<Rightarrow> nat \<Rightarrow> nat" where
  "leaf m v i j k = (if vm_pts v i j = 0 then 0 else phys m (tframe m v (PT i j)) k)"

abbreviation (input) tframes :: "mm \<Rightarrow> vm_map \<Rightarrow> nat set" where
  "tframes m v \<equiv> tframe m v ` tbls v"

lemma tbls_simps [simp]:
  "PML4 \<in> tbls v" "PDPT \<in> tbls v" "PD i \<in> tbls v \<longleftrightarrow> i < 512"
  "PT i j \<in> tbls v \<longleftrightarrow> i < 512 \<and> j < 512 \<and> vm_pts v i j \<noteq> 0"
  by (auto simp: tbls_def)

lemma vm_okD:
  assumes "vm_ok m v"
  shows "t \<in> tbls v \<Longrightarrow> kptr m (tptr v t) (tframe m v t)" "t \<in> tbls v \<Longrightarrow> used m (tframe m v t)" "inj_on (tframe m v) (tbls v)"
    "vm_pml4_phys v = 4096 * tframe m v PML4" "phys m (tframe m v PML4) 0 = 4096 * tframe m v PDPT OR 7"
    "i < 512 \<Longrightarrow> phys m (tframe m v PDPT) i = 4096 * tframe m v (PD i) OR 7"
    "i < 512 \<Longrightarrow> j < 512 \<Longrightarrow> phys m (tframe m v (PD i)) j = (if vm_pts v i j = 0 then 0 else 4096 * tframe m v (PT i j) OR 7)"
  using assms unfolding vm_ok_def by blast+

lemma tframe_inj: "vm_ok m v \<Longrightarrow> t \<in> tbls v \<Longrightarrow> t' \<in> tbls v \<Longrightarrow> tframe m v t = tframe m v t' \<longleftrightarrow> t = t'"
  by (meson inj_on_eq_iff vm_okD(3))

text \<open>An address space none of whose tables is touched.\<close>

lemma vm_ok_pres:
  assumes ok: "vm_ok m v" and p: "mm_pres F m m'" and F: "F \<inter> tframes m v = {}"
  shows "vm_ok m' v" "\<And>t. t \<in> tbls v \<Longrightarrow> tframe m' v t = tframe m v t" "\<And>i j k. i < 512 \<Longrightarrow> j < 512 \<Longrightarrow> leaf m' v i j k = leaf m v i j k"
proof -
  have kp: "kptr m' (tptr v t) (tframe m v t)" if "t \<in> tbls v" for t
    using vm_okD(1)[OF ok that] p unfolding mm_pres_def by blast
  show tf: "tframe m' v t = tframe m v t" if "t \<in> tbls v" for t
    using kptr_access(2)[OF kp[OF that]] by (simp add: tframe_def)
  have ph: "phys m' (tframe m v t) = phys m (tframe m v t)" if "t \<in> tbls v" for t
    using vm_okD(2)[OF ok that] p F that unfolding mm_pres_def by blast
  have us: "used m' (tframe m v t)" if "t \<in> tbls v" for t
    using vm_okD(2)[OF ok that] p unfolding mm_pres_def by blast
  show "vm_ok m' v"
    unfolding vm_ok_def
  proof (intro conjI)
    show "\<forall>t\<in>tbls v. kptr m' (tptr v t) (tframe m' v t) \<and> used m' (tframe m' v t)" using kp us tf by metis
    show "inj_on (tframe m' v) (tbls v)" using vm_okD(3)[OF ok] tf by (simp add: inj_on_def)
    show "\<forall>i<512. \<forall>j<512. phys m' (tframe m' v (PD i)) j = (if vm_pts v i j = 0 then 0 else 4096 * tframe m' v (PT i j) OR 7)"
      using vm_okD(7)[OF ok] by (auto simp: tf ph)
  qed (use ok in \<open>simp_all add: tf ph vm_ok_def\<close>)
  show "leaf m' v i j k = leaf m v i j k" if "i < 512" "j < 512" for i j k
    using that by (simp add: leaf_def tf ph)
qed

text \<open>Storing an entry in a page table.\<close>

lemma vm_ok_store:
  assumes ok: "vm_ok m v" and mm: "mm_ok m" and ij: "i < 512" "j < 512" "vm_pts v i j \<noteq> 0"
  shows "\<exists>m'. kstore m (vm_pts v i j) k e = Inr m' \<and> vm_ok m' v \<and> mm_pres {tframe m v (PT i j)} m m' \<and>
    m' = m\<lparr>phys := (phys m)(tframe m v (PT i j) := (phys m (tframe m v (PT i j)))(k := e))\<rparr> \<and>
    (\<forall>t. tframe m' v t = tframe m v t) \<and>
    (\<forall>i'<512. \<forall>j'<512. \<forall>k'. leaf m' v i' j' k' = (if (i', j', k') = (i, j, k) then e else leaf m v i' j' k'))"
proof -
  let ?f = "tframe m v (PT i j)"
  let ?m = "m\<lparr>phys := (phys m)(?f := (phys m ?f)(k := e))\<rparr>"
  have t: "PT i j \<in> tbls v" using ij by simp
  have kp: "kptr m (vm_pts v i j) ?f" using vm_okD(1)[OF ok t] by simp
  have tf: "tframe ?m v t' = tframe m v t'" for t' by (simp add: tframe_def kframe_def kentry_def)
  have ne: "tframe m v t' = ?f \<longleftrightarrow> t' = PT i j" if "t' \<in> tbls v" for t' using tframe_inj[OF ok that t] .
  have "vm_ok ?m v"
    unfolding vm_ok_def
  proof (intro conjI)
    show "\<forall>t\<in>tbls v. kptr ?m (tptr v t) (tframe ?m v t) \<and> used ?m (tframe ?m v t)" using vm_okD(1,2)[OF ok] by (simp add: tf)
    show "inj_on (tframe ?m v) (tbls v)" using vm_okD(3)[OF ok] by (simp add: tf inj_on_def)
  qed (use ok in \<open>simp_all add: tf ne vm_ok_def\<close>)
  moreover have "leaf ?m v i' j' k' = (if (i', j', k') = (i, j, k) then e else leaf m v i' j' k')" if "i' < 512" "j' < 512" for i' j' k'
    using that ij by (auto simp: leaf_def tf ne)
  moreover have "mm_pres {?f} m ?m" by (rule mm_pres_store[OF mm kp])
  moreover have "kstore m (vm_pts v i j) k e = Inr ?m" using kptr_access_simps(3)[OF kp] .
  ultimately show ?thesis using tf by blast
qed

lemma used_free: "k \<in> free_frames m \<Longrightarrow> \<not> used m k"
  by (simp add: free_frames_def)

text \<open>A new, empty page table.\<close>

lemma mktable_spec:
  assumes mm: "mm_ok m" and ok: "vm_ok m v" and ij: "i < 512" "j < 512" "vm_pts v i j = 0"
    and ff: "free_frames m \<noteq> {}" and fk: "free_kpages m \<noteq> {}"
  shows "\<exists>m' w p f q. mktable m v i j = Inr (m', w) \<and> w = v\<lparr>vm_pts := (vm_pts v)(i := (vm_pts v i)(j := p))\<rparr> \<and> p \<noteq> 0 \<and>
    vm_ok m' w \<and> mm_pres {tframe m v (PD i)} m m' \<and> mm_heap m' = mm_heap m \<and> (\<forall>t \<in> tbls v. tframe m' w t = tframe m v t) \<and>
    tframe m' w (PT i j) = f \<and> phys m' f = (\<lambda>_. 0) \<and>
    f \<in> free_frames m \<and> free_frames m' = free_frames m - {f} \<and> q \<in> free_kpages m \<and> free_kpages m' = free_kpages m - {q} \<and>
    (\<forall>i'<512. \<forall>j'<512. leaf m' w i' j' = leaf m v i' j')"
proof -
  obtain q f m1 m2 where a: "q \<in> free_kpages m" "f \<in> free_frames m" "mmu_kalloc m 1 = Inr (kpage q, m1)" "mmu_alloc_phys m1 = Inr (4096 * f, m2)"
    and b: "let m3 = mmu_kmap m2 (kpage q) (4096 * f) (PAGE_PR OR PAGE_RW) in
      kptr m3 (kpage q) f \<and> mm_pres {} m m3 \<and> used m3 f \<and> phys m3 = phys m \<and> mm_heap m3 = mm_heap m \<and>
      free_frames m3 = free_frames m - {f} \<and> free_kpages m3 = free_kpages m - {q}"
    using fresh_page[OF mm ff fk] by blast
  define m3 where "m3 = mmu_kmap m2 (kpage q) (4096 * f) (PAGE_PR OR PAGE_RW)"
  have m3: "kptr m3 (kpage q) f" "mm_pres {} m m3" "used m3 f" "phys m3 = phys m"
      "free_frames m3 = free_frames m - {f}" "free_kpages m3 = free_kpages m - {q}" "mm_heap m3 = mm_heap m"
    using b unfolding Let_def m3_def by blast+
  have mm3: "mm_ok m3" using m3(2) by (simp add: mm_pres_def)
  have v3: "vm_ok m3 v" "\<And>t. t \<in> tbls v \<Longrightarrow> tframe m3 v t = tframe m v t" using vm_ok_pres[OF ok m3(2)] by blast+
  let ?d = "tframe m v (PD i)"
  let ?e = "4096 * f OR 7"
  define m4 where "m4 = m3\<lparr>phys := (phys m3)(f := (\<lambda>_. 0))\<rparr>"
  define m5 where "m5 = m4\<lparr>phys := (phys m4)(?d := (phys m4 ?d)(j := ?e))\<rparr>"
  define w where "w = v\<lparr>vm_pts := (vm_pts v)(i := (vm_pts v i)(j := kpage q))\<rparr>"
  have m5: "kptr m5 = kptr m3" "used m5 = used m3" "free_frames m5 = free_frames m3" "free_kpages m5 = free_kpages m3"
    "kframe m5 = kframe m3" "mm_heap m5 = mm_heap m3" by (simp_all add: m5_def m4_def kframe_def kentry_def fun_eq_iff)
  have w: "vm_pml4 w = vm_pml4 v" "vm_pdpt w = vm_pdpt v" "vm_pds w = vm_pds v" "vm_pml4_phys w = vm_pml4_phys v"
    "vm_pdpt_phys w = vm_pdpt_phys v" "vm_phys_pds w = vm_phys_pds v" "vm_pts w i' j' = (if i' = i \<and> j' = j then kpage q else vm_pts v i' j')" for i' j'
    by (simp_all add: w_def)
  have d: "PD i \<in> tbls v" using ij by simp
  have kd: "kptr m4 (vm_pds v i) ?d" using vm_okD(1)[OF v3(1) d] v3(2)[OF d] by (simp add: m4_def)
  have e: "4096 * f OR PAGE_PR OR PAGE_RW OR PAGE_USR = ?e" by (simp add: or.assoc)
  have mk: "mktable m v i j = Inr (m5, w)"
    unfolding mktable_def a bindS_simps prod.case m3_def[symmetric] kptr_access_simps(2)[OF m3(1)] e
    using kptr_access_simps(3)[OF kd] by (simp add: m4_def m5_def w_def)
  have fu: "\<not> used m f" using a(2) by (rule used_free)
  have fne: "tframe m v t \<noteq> f" if "t \<in> tbls v" for t using vm_okD(2)[OF ok that] fu by metis
  have tptr: "tptr w t = tptr v t" if "t \<in> tbls v" for t using that ij w by (cases t) auto
  have tf: "tframe m5 w t = tframe m v t" if "t \<in> tbls v" for t
    using v3(2)[OF that] tptr[OF that] by (simp add: tframe_def m5)
  have tn: "tptr w (PT i j) = kpage q" "tframe m5 w (PT i j) = f" using kptr_access(2)[OF m3(1)] by (simp_all add: tframe_def m5 w)
  have tb: "tbls w = insert (PT i j) (tbls v)" using ij by (auto simp: tbls_def w)
  have ph: "phys m5 (tframe m v t) = (if t = PD i then (phys m ?d)(j := ?e) else phys m (tframe m v t))" if "t \<in> tbls v" for t
    using tframe_inj[OF ok that d] fne[OF that] fne[OF d] m3(4) by (auto simp: m5_def m4_def)
  have pf: "phys m5 f = (\<lambda>_. 0)" using fne[OF d] by (auto simp: m5_def m4_def)
  have kp: "kptr m5 (tptr w t) (tframe m5 w t)" "used m5 (tframe m5 w t)" if "t \<in> tbls w" for t
    using that m3(1,3) vm_okD(1,2)[OF v3(1), of t] unfolding tb m5 by (auto simp: tf tn tptr v3(2) w(7))
  have inj: "inj_on (tframe m5 w) (tbls w)"
    unfolding tb using vm_okD(3)[OF ok] fne by (auto simp: inj_on_def tf tn)
  have pd: "phys m5 (tframe m5 w (PD i')) j' = (if vm_pts w i' j' = 0 then 0 else 4096 * tframe m5 w (PT i' j') OR 7)" if l: "i' < 512" "j' < 512" for i' j'
  proof -
    have "tframe m5 w (PD i') = tframe m v (PD i')" using l by (intro tf) simp
    moreover have "tframe m5 w (PT i' j') = tframe m v (PT i' j')" if "vm_pts v i' j' \<noteq> 0" using l that by (intro tf) simp
    ultimately show ?thesis using ph[of "PD i'"] vm_okD(7)[OF ok l] l tn ij by (cases "i' = i \<and> j' = j") (auto simp: w)
  qed
  have vok: "vm_ok m5 w"
    using ok kp inj pd unfolding vm_ok_def by (simp add: w tf ph)
  have "mm_pres {f} m m4" unfolding m4_def by (rule mm_pres_trans[OF m3(2) mm_pres_store[OF mm3 m3(1)]]) auto
  moreover have "mm_pres {?d} m4 m5" unfolding m5_def by (rule mm_pres_store[OF _ kd]) (simp add: m4_def mm3)
  ultimately have "mm_pres {f, ?d} m m5" by (rule mm_pres_trans) auto
  then have pres: "mm_pres {?d} m m5" using fu unfolding mm_pres_def by auto
  have lf: "leaf m5 w i' j' = leaf m v i' j'" if "i' < 512" "j' < 512" for i' j'
    using that ij(3) tn(2) pf tf[of "PT i' j'"] ph[of "PT i' j'"] by (auto simp: leaf_def w fun_eq_iff)
  show ?thesis
    using mk w_def vok pres tf tn pf a(1,2) m3(5,6,7) lf unfolding m5(3,4,6)[symmetric]
    by (intro exI[of _ m5] exI[of _ w] exI[of _ "kpage q"] exI[of _ f] exI[of _ q]) simp
qed

subsection \<open>What the processor sees\<close>

text \<open>
  The walk of the processor through the four levels for an access from user mode: at each
  level the entry must be present and open to user mode. The result is the physical address.
\<close>

definition hw_step :: "mm \<Rightarrow> nat \<Rightarrow> nat \<Rightarrow> nat option" where
  "hw_step m f idx = (let e = phys m f idx in if e AND PAGE_PR \<noteq> 0 \<and> e AND PAGE_USR \<noteq> 0 then Some ((e AND PAGE_FRAME) div PAGE4K) else None)"

definition hw_walk :: "mm \<Rightarrow> addr \<Rightarrow> addr \<Rightarrow> addr option" where
  "hw_walk m root v =
     (case hw_step m (root div PAGE4K) (PML4_IDX v) of None \<Rightarrow> None | Some f3 \<Rightarrow>
      (case hw_step m f3 (PDPT_IDX v) of None \<Rightarrow> None | Some f2 \<Rightarrow>
       (case hw_step m f2 (PD_IDX v) of None \<Rightarrow> None | Some f1 \<Rightarrow>
        (case hw_step m f1 (PT_IDX v) of None \<Rightarrow> None | Some f \<Rightarrow> Some (f * PAGE4K + v mod PAGE4K)))))"

definition leaf_frame :: "nat \<Rightarrow> nat option" where
  "leaf_frame e = (if e AND PAGE_PR \<noteq> 0 \<and> e AND PAGE_USR \<noteq> 0 then Some ((e AND PAGE_FRAME) div PAGE4K) else None)"

lemma leaf_frame_table: "f < 2 ^ 52 \<Longrightarrow> leaf_frame (4096 * f OR 7) = Some f"
proof -
  assume f: "f < 2 ^ 52"
  have "bit (4096 * f OR 7) 0" "bit (4096 * f OR 7) 2"
    by (subst ent_bit; simp add: bit_numeral_rec bit_Suc_0_iff)+
  then have "(4096 * f OR 7) AND PAGE_PR \<noteq> 0" "(4096 * f OR 7) AND PAGE_USR \<noteq> 0" unfolding and_pr .
  moreover have "(4096 * f OR 7) AND PAGE_FRAME = 4096 * f" by (rule ent_frame[OF f]) simp
  ultimately show ?thesis unfolding leaf_frame_def by simp
qed

lemma PML4_IDX_user: "v < 2 ^ 39 \<Longrightarrow> PML4_IDX v = 0"
  by (simp add: idx_div)

lemma hw_walk_leaf:
  assumes ok: "vm_ok m v" and va: "va < 2 ^ 39"
  shows "hw_walk m (vm_pml4_phys v) va =
    map_option (\<lambda>f. f * PAGE4K + va mod PAGE4K) (leaf_frame (leaf m v (PDPT_IDX va) (PD_IDX va) (PT_IDX va)))"
proof -
  let ?i = "PDPT_IDX va" let ?j = "PD_IDX va"
  have step: "hw_step m f x = leaf_frame (phys m f x)" for f x by (simp add: hw_step_def leaf_frame_def Let_def)
  have b: "tframe m v t < 2 ^ 52" if "t \<in> tbls v" for t using vm_okD(1)[OF ok that] by (simp add: kptr_def)
  have 1: "hw_step m (vm_pml4_phys v div PAGE4K) (PML4_IDX va) = Some (tframe m v PDPT)"
    unfolding step PML4_IDX_user[OF va] vm_okD(4)[OF ok] using vm_okD(5)[OF ok] leaf_frame_table[OF b] by simp
  have 2: "hw_step m (tframe m v PDPT) ?i = Some (tframe m v (PD ?i))"
    unfolding step vm_okD(6)[OF ok idx_less(1)] by (rule leaf_frame_table[OF b]) simp
  show ?thesis
  proof (cases "vm_pts v ?i ?j = 0")
    case True
    then have "hw_step m (tframe m v (PD ?i)) ?j = None"
      unfolding step using vm_okD(7)[OF ok idx_less(1,2), of va va] by (simp add: leaf_frame_def)
    then show ?thesis using 1 2 True by (simp add: hw_walk_def leaf_def leaf_frame_def)
  next
    case False
    then have 3: "hw_step m (tframe m v (PD ?i)) ?j = Some (tframe m v (PT ?i ?j))"
      unfolding step using vm_okD(7)[OF ok idx_less(1,2), of va va] leaf_frame_table[OF b, of "PT ?i ?j"] by simp
    show ?thesis using 1 2 3 False
      by (cases "leaf_frame (phys m (tframe m v (PT ?i ?j)) (PT_IDX va))") (simp_all add: hw_walk_def leaf_def step)
  qed
qed

lemma mmu_virt2phys_leaf:
  assumes ok: "vm_ok m v" and va: "va < 2 ^ 39"
  shows "mmu_virt2phys m v va = Inr (leaf m v (PDPT_IDX va) (PD_IDX va) (PT_IDX va) AND PAGE_FRAME)"
proof -
  let ?i = "PDPT_IDX va" let ?j = "PD_IDX va"
  have pd: "kload m (vm_pds v ?i) ?j = Inr (if vm_pts v ?i ?j = 0 then 0 else 4096 * tframe m v (PT ?i ?j) OR 7)"
    using kptr_access_simps(1)[OF vm_okD(1)[OF ok, of "PD ?i"]] vm_okD(7)[OF ok idx_less(1,2), of va va] by simp
  show ?thesis
  proof (cases "vm_pts v ?i ?j = 0")
    case True
    then show ?thesis using pd by (simp add: mmu_virt2phys_def leaf_def PML4_IDX_user[OF va])
  next
    case False
    then have t: "PT ?i ?j \<in> tbls v" by simp
    have "bit (4096 * tframe m v (PT ?i ?j) OR 7) 0" by (subst ent_bit) simp_all
    then have "(4096 * tframe m v (PT ?i ?j) OR 7) AND PAGE_PR \<noteq> 0" unfolding and_pr .
    then show ?thesis using pd False kptr_access_simps(1)[OF vm_okD(1)[OF ok t]]
      unfolding mmu_virt2phys_def Let_def PML4_IDX_user[OF va] by (simp add: leaf_def)
  qed
qed

text \<open>\<open>mmu_map\<close> changes one entry of the address space, adding a table for it where there is none.\<close>

lemma mmu_map_spec:
  assumes mm: "mm_ok m" and ok: "vm_ok m v"
    and ff: "free_frames m \<noteq> {}" and fk: "free_kpages m \<noteq> {}"
  shows "\<exists>m' w. mmu_map m v va ph fl = Inr (m', w) \<and> vm_ok m' w \<and> mm_pres (tframes m v) m m' \<and> mm_heap m' = mm_heap m \<and>
    tframes m v \<subseteq> tframes m' w \<and> tframes m' w \<subseteq> tframes m v \<union> free_frames m \<and>
    vm_pml4_phys w = vm_pml4_phys v \<and> vm_areas w = vm_areas v \<and> w = v\<lparr>vm_pts := vm_pts w\<rparr> \<and>
    (\<forall>i j. (i, j) \<noteq> (PDPT_IDX va, PD_IDX va) \<longrightarrow> vm_pts w i j = vm_pts v i j) \<and>
    (\<exists>f. free_frames m - {f} \<subseteq> free_frames m') \<and> (\<exists>q. free_kpages m - {q} \<subseteq> free_kpages m') \<and>
    (\<forall>i<512. \<forall>j<512. \<forall>k. leaf m' w i j k =
       (if (i, j, k) = (PDPT_IDX va, PD_IDX va, PT_IDX va) then ph OR fl OR PAGE_USR else leaf m v i j k))"
proof -
  let ?i = "PDPT_IDX va" let ?j = "PD_IDX va"
  have pd: "kload m (vm_pds v ?i) ?j = Inr (if vm_pts v ?i ?j = 0 then 0 else 4096 * tframe m v (PT ?i ?j) OR 7)"
    using kptr_access_simps(1)[OF vm_okD(1)[OF ok, of "PD ?i"]] vm_okD(7)[OF ok idx_less(1,2), of va va] by simp
  show ?thesis
  proof (cases "vm_pts v ?i ?j = 0")
    case True
    obtain m1 w p f q where t: "mktable m v ?i ?j = Inr (m1, w)" "w = v\<lparr>vm_pts := (vm_pts v)(?i := (vm_pts v ?i)(?j := p))\<rparr>" "p \<noteq> 0"
      and s: "mm_pres {tframe m v (PD ?i)} m m1" "mm_heap m1 = mm_heap m" "f \<in> free_frames m" "free_frames m1 = free_frames m - {f}" "free_kpages m1 = free_kpages m - {q}"
      and w: "vm_ok m1 w" "\<forall>t \<in> tbls v. tframe m1 w t = tframe m v t" "tframe m1 w (PT ?i ?j) = f"
        "\<forall>i'<512. \<forall>j'<512. leaf m1 w i' j' = leaf m v i' j'"
      using mktable_spec[OF mm ok idx_less(1,2) True ff fk] by (elim exE conjE) (rule that; assumption)
    have mm1: "mm_ok m1" using s(1) by (simp add: mm_pres_def)
    have wp: "vm_pts w ?i ?j \<noteq> 0" using t(3) unfolding t(2) by simp
    have tb: "tbls w = insert (PT ?i ?j) (tbls v)" using t(3) unfolding t(2) by (auto simp: tbls_def)
    obtain m2 where m2: "kstore m1 (vm_pts w ?i ?j) (PT_IDX va) (ph OR fl OR PAGE_USR) = Inr m2" "vm_ok m2 w" "mm_pres {f} m1 m2"
        "m2 = m1\<lparr>phys := (phys m1)(f := (phys m1 f)(PT_IDX va := ph OR fl OR PAGE_USR))\<rparr>" "\<forall>t. tframe m2 w t = tframe m1 w t"
        "\<forall>i'<512. \<forall>j'<512. \<forall>k'. leaf m2 w i' j' k' = (if (i', j', k') = (?i, ?j, PT_IDX va) then ph OR fl OR PAGE_USR else leaf m1 w i' j' k')"
      using vm_ok_store[OF w(1) mm1 idx_less(1,2) wp, of "PT_IDX va" "ph OR fl OR PAGE_USR"] unfolding w(3) by (elim exE conjE) (rule that; assumption)
    have A: "mmu_map m v va ph fl = Inr (m2, w)" using pd True t(1) m2(1) by (simp add: mmu_map_def)
    have B: "mm_pres (tframes m v) m m2"
      by (rule mm_pres_trans[OF s(1) m2(3)]) (use used_free[OF s(3)] in auto)
    have eq: "tframes m2 w = insert f (tframes m v)" unfolding tb using m2(5) w(2,3) by auto
    have C: "tframes m v \<subseteq> tframes m2 w" "tframes m2 w \<subseteq> tframes m v \<union> free_frames m" unfolding eq using s(3) by auto
    have "free_frames m2 = free_frames m - {f}" "free_kpages m2 = free_kpages m - {q}" using s(4,5) m2(4) by simp_all
    then have D: "\<exists>f. free_frames m - {f} \<subseteq> free_frames m2" "\<exists>q. free_kpages m - {q} \<subseteq> free_kpages m2" by blast+
    have E: "vm_pml4_phys w = vm_pml4_phys v" "vm_areas w = vm_areas v" "w = v\<lparr>vm_pts := vm_pts w\<rparr>"
        "\<forall>i j. (i, j) \<noteq> (PDPT_IDX va, PD_IDX va) \<longrightarrow> vm_pts w i j = vm_pts v i j" unfolding t(2) by auto
    have F: "\<forall>i<512. \<forall>j<512. \<forall>k. leaf m2 w i j k =
       (if (i, j, k) = (PDPT_IDX va, PD_IDX va, PT_IDX va) then ph OR fl OR PAGE_USR else leaf m v i j k)"
      using m2(6) w(4) by simp
    have G: "mm_heap m2 = mm_heap m" using s(2) m2(4) by simp
    show ?thesis by (intro exI[of _ m2] exI[of _ w] conjI A B C D E F G m2(2))
  next
    case False
    have "bit (4096 * tframe m v (PT ?i ?j) OR 7) 0" by (subst ent_bit) simp_all
    then have pr: "(4096 * tframe m v (PT ?i ?j) OR 7) AND PAGE_PR \<noteq> 0" unfolding and_pr .
    obtain m2 where m2: "kstore m (vm_pts v ?i ?j) (PT_IDX va) (ph OR fl OR PAGE_USR) = Inr m2" "vm_ok m2 v" "mm_pres {tframe m v (PT ?i ?j)} m m2"
        "m2 = m\<lparr>phys := (phys m)(tframe m v (PT ?i ?j) := (phys m (tframe m v (PT ?i ?j)))(PT_IDX va := ph OR fl OR PAGE_USR))\<rparr>" "\<forall>t. tframe m2 v t = tframe m v t"
        "\<forall>i'<512. \<forall>j'<512. \<forall>k'. leaf m2 v i' j' k' = (if (i', j', k') = (?i, ?j, PT_IDX va) then ph OR fl OR PAGE_USR else leaf m v i' j' k')"
      using vm_ok_store[OF ok mm idx_less(1,2) False, of "PT_IDX va" "ph OR fl OR PAGE_USR"] by (elim exE conjE) (rule that; assumption)
    have A: "mmu_map m v va ph fl = Inr (m2, v)" using pd pr False m2(1) unfolding mmu_map_def Let_def by simp
    have eq: "tframes m2 v = tframes m v" using m2(5) by auto
    have "free_frames m2 = free_frames m" "free_kpages m2 = free_kpages m" using m2(4) by simp_all
    then have D: "\<exists>f. free_frames m - {f} \<subseteq> free_frames m2" "\<exists>q. free_kpages m - {q} \<subseteq> free_kpages m2" by blast+
    have C: "tframes m v \<subseteq> tframes m2 v" "tframes m2 v \<subseteq> tframes m v \<union> free_frames m" unfolding eq by auto
    have B: "mm_pres (tframes m v) m m2"
    proof -
      have "tframe m v (PT ?i ?j) \<in> tframes m v" using False by (intro imageI) simp
      then show ?thesis using m2(3) unfolding mm_pres_def by blast
    qed
    have E: "v = v\<lparr>vm_pts := vm_pts v\<rparr>" "\<forall>i j. (i, j) \<noteq> (PDPT_IDX va, PD_IDX va) \<longrightarrow> vm_pts v i j = vm_pts v i j" by simp_all
    have G: "mm_heap m2 = mm_heap m" using m2(4) by simp
    show ?thesis by (intro exI[of _ m2] exI[of _ v] conjI A B C D G m2(2,6) E refl)
  qed
qed

subsection \<open>Creating an address space\<close>

definition ptbls :: "nat \<Rightarrow> tbl set" where
  "ptbls n = {PML4, PDPT} \<union> PD ` {..<n}"

text \<open>An address space whose first \<open>n\<close> page directories are set up, and that is new since \<open>m0\<close>.\<close>

definition vm_part :: "mm \<Rightarrow> nat \<Rightarrow> mm \<Rightarrow> vm_map \<Rightarrow> bool" where
  "vm_part m0 n m v \<longleftrightarrow> mm_ok m \<and> mm_pres {} m0 m \<and> inj_on (tframe m v) (ptbls n) \<and>
     (\<forall>t \<in> ptbls n. kptr m (tptr v t) (tframe m v t) \<and> used m (tframe m v t) \<and> \<not> used m0 (tframe m v t)) \<and>
     vm_pml4_phys v = 4096 * tframe m v PML4 \<and> vm_pdpt_phys v = 4096 * tframe m v PDPT \<and>
     phys m (tframe m v PML4) 0 = 4096 * tframe m v PDPT OR 7 \<and>
     (\<forall>i<n. vm_phys_pds v i = 4096 * tframe m v (PD i) \<and> phys m (tframe m v PDPT) i = 4096 * tframe m v (PD i) OR 7 \<and>
        vm_pts v i = (\<lambda>_. 0) \<and> phys m (tframe m v (PD i)) = (\<lambda>_. 0))"

lemma vm_part_ok:
  assumes "vm_part m0 512 m v"
  shows "vm_ok m v" "tbls v = ptbls 512" "\<And>i j k. i < 512 \<Longrightarrow> leaf m v i j k = 0"
proof -
  have pts: "vm_pts v i j = 0" if "i < 512" for i j using assms that by (simp add: vm_part_def)
  then show tb: "tbls v = ptbls 512" by (auto simp: tbls_def ptbls_def)
  show "vm_ok m v" using assms unfolding vm_ok_def tb vm_part_def by (simp add: pts)
  show "leaf m v i j k = 0" if "i < 512" for i j k using pts[OF that] by (simp add: leaf_def)
qed

lemma create_step:
  assumes P: "vm_part m0 i m v" and ff: "free_frames m \<noteq> {}" and fk: "free_kpages m \<noteq> {}" and rm: "roomy (mm_heap m) (4160 + r)"
  shows "\<exists>m' v' f q. create_pds m v (i # is) = create_pds m' v' is \<and> vm_part m0 (Suc i) m' v' \<and> roomy (mm_heap m') r \<and>
    f \<in> free_frames m \<and> q \<in> free_kpages m \<and> free_frames m' = free_frames m - {f} \<and> free_kpages m' = free_kpages m - {q} \<and> vm_areas v' = vm_areas v"
proof -
  have mm: "mm_ok m" using P by (simp add: vm_part_def)
  obtain q f m1 m2 where a: "q \<in> free_kpages m" "f \<in> free_frames m" "mmu_kalloc m 1 = Inr (kpage q, m1)" "mmu_alloc_phys m1 = Inr (4096 * f, m2)"
    and b: "let m3 = mmu_kmap m2 (kpage q) (4096 * f) (PAGE_PR OR PAGE_RW) in
      kptr m3 (kpage q) f \<and> mm_pres {} m m3 \<and> used m3 f \<and> phys m3 = phys m \<and> mm_heap m3 = mm_heap m \<and>
      free_frames m3 = free_frames m - {f} \<and> free_kpages m3 = free_kpages m - {q}"
    using fresh_page[OF mm ff fk] by blast
  define m3 where "m3 = mmu_kmap m2 (kpage q) (4096 * f) (PAGE_PR OR PAGE_RW)"
  have m3: "kptr m3 (kpage q) f" "mm_pres {} m m3" "used m3 f" "phys m3 = phys m"
      "free_frames m3 = free_frames m - {f}" "free_kpages m3 = free_kpages m - {q}" "mm_heap m3 = mm_heap m"
    using b unfolding Let_def m3_def by blast+
  let ?d = "tframe m v PDPT"
  let ?e = "4096 * f OR 7"
  obtain row h where h: "kmalloc (mm_heap m) 4096 = ret (row, h)" "roomy h r"
    using roomy_kmalloc[OF rm, of 4096] by auto
  define m4 where "m4 = m3\<lparr>phys := (phys m3)(f := (\<lambda>_. 0))\<rparr>"
  define m5 where "m5 = m4\<lparr>phys := (phys m4)(?d := (phys m4 ?d)(i := ?e))\<rparr>"
  define m6 where "m6 = m5\<lparr>mm_heap := h\<rparr>"
  define w where "w = v\<lparr>vm_pds := (vm_pds v)(i := kpage q), vm_phys_pds := (vm_phys_pds v)(i := 4096 * f),
     vm_pts_row := (vm_pts_row v)(i := row), vm_pts := (vm_pts v)(i := (\<lambda>_. 0))\<rparr>"
  have m6: "kptr m6 = kptr m3" "used m6 = used m3" "free_frames m6 = free_frames m3" "free_kpages m6 = free_kpages m3"
    "kframe m6 = kframe m3" "mm_heap m6 = h" "phys m6 = phys m5"
    by (simp_all add: m6_def m5_def m4_def kframe_def kentry_def fun_eq_iff)
  have d: "PDPT \<in> ptbls i" by (simp add: ptbls_def)
  have old: "kptr m (tptr v t) (tframe m v t)" "used m (tframe m v t)" "\<not> used m0 (tframe m v t)" if "t \<in> ptbls i" for t
    using P that unfolding vm_part_def by blast+
  have kp3: "kptr m3 (tptr v t) (tframe m v t)" "used m3 (tframe m v t)" if "t \<in> ptbls i" for t
    using old[OF that] m3(2) unfolding mm_pres_def by blast+
  have kd: "kptr m4 (vm_pdpt v) ?d" using kp3(1)[OF d] by (simp add: m4_def)
  have e: "4096 * f OR PAGE_PR OR PAGE_RW OR PAGE_USR = ?e" by (simp add: or.assoc)
  have km: "mm_kmalloc m5 4096 = ret (row, m6)" using h(1) m3(7) by (simp add: mm_kmalloc_def m6_def m5_def m4_def)
  have st: "kpage_set m3 (kpage q) (\<lambda>_. 0) = Inr m4" "kstore m4 (vm_pdpt v) i ?e = Inr m5"
    using kptr_access_simps(2)[OF m3(1)] kptr_access_simps(3)[OF kd] by (simp_all add: m4_def m5_def)
  have cr: "create_pds m v (i # is) = create_pds m6 w is"
    unfolding create_pds.simps a bindR_simps prod.case m3_def[symmetric] st e km w_def by simp
  have fu: "\<not> used m f" using a(2) by (rule used_free)
  have fne: "tframe m v t \<noteq> f" if "t \<in> ptbls i" for t using old(2)[OF that] fu by metis
  have tptr: "tptr w t = tptr v t" if "t \<in> ptbls i" for t using that by (cases t) (auto simp: w_def ptbls_def)
  have tf: "tframe m6 w t = tframe m v t" if "t \<in> ptbls i" for t
    using kptr_access(2)[OF kp3(1)[OF that]] tptr[OF that] by (simp add: tframe_def m6)
  have tn: "tptr w (PD i) = kpage q" "tframe m6 w (PD i) = f" using kptr_access(2)[OF m3(1)] by (simp_all add: tframe_def m6 w_def)
  have tb: "ptbls (Suc i) = insert (PD i) (ptbls i)" "PD i \<notin> ptbls i" by (auto simp: ptbls_def less_Suc_eq)
  have inj0: "inj_on (tframe m v) (ptbls i)" using P by (simp add: vm_part_def)
  have ph: "phys m6 (tframe m v t) = (if t = PDPT then (phys m ?d)(i := ?e) else phys m (tframe m v t))" if "t \<in> ptbls i" for t
  proof -
    have "tframe m v t = ?d \<longleftrightarrow> t = PDPT" using inj_on_eq_iff[OF inj0 that d] .
    then show ?thesis using fne[OF that] fne[OF d] m3(4) by (auto simp: m6 m5_def m4_def)
  qed
  have pf: "phys m6 f = (\<lambda>_. 0)" using fne[OF d] by (auto simp: m6 m5_def m4_def)
  have mm3: "mm_ok m3" "mm_ok m6" using m3(2) by (simp_all add: mm_pres_def m6_def m5_def m4_def)
  have p0: "mm_pres {} m0 m" using P by (simp add: vm_part_def)
  have p3: "mm_pres {} m0 m3" by (rule mm_pres_trans[OF p0 m3(2)]) auto
  have f0: "\<not> used m0 f" using fu p0 unfolding mm_pres_def by blast
  have "mm_pres {f} m3 m4" unfolding m4_def by (rule mm_pres_store[OF mm3(1) m3(1)])
  then have p4: "mm_pres {} m0 m4" by (rule mm_pres_trans[OF p3]) (use f0 in auto)
  have "mm_pres {?d} m4 m5" unfolding m5_def by (rule mm_pres_store[OF _ kd]) (simp add: m4_def mm3)
  then have p5: "mm_pres {} m0 m5" by (rule mm_pres_trans[OF p4]) (use old(3)[OF d] in auto)
  have "mm_pres {} m5 m6" unfolding m6_def by (rule mm_pres_heap) (use mm3(2) in \<open>simp add: m6_def\<close>)
  then have pres: "mm_pres {} m0 m6" by (rule mm_pres_trans[OF p5]) auto
  have inj: "inj_on (tframe m6 w) (ptbls (Suc i))"
    unfolding tb(1) using inj0 fne by (auto simp: inj_on_def tf tn)
  have all: "kptr m6 (tptr w t) (tframe m6 w t) \<and> used m6 (tframe m6 w t) \<and> \<not> used m0 (tframe m6 w t)" if "t \<in> ptbls (Suc i)" for t
  proof (cases "t = PD i")
    case True
    then show ?thesis using m3(1,3) tn fu p0 by (auto simp: m6 mm_pres_def w_def)
  next
    case False
    then have "t \<in> ptbls i" using that tb by blast
    then show ?thesis using kp3 old(3) by (simp add: m6 tf tptr)
  qed
  have pd: "vm_phys_pds w i' = 4096 * tframe m6 w (PD i') \<and> phys m6 (tframe m6 w PDPT) i' = 4096 * tframe m6 w (PD i') OR 7 \<and>
        vm_pts w i' = (\<lambda>_. 0) \<and> phys m6 (tframe m6 w (PD i')) = (\<lambda>_. 0)" if "i' < Suc i" for i'
  proof (cases "i' = i")
    case True
    then show ?thesis using tn pf tf[OF d] ph[OF d] by (simp add: w_def)
  next
    case False
    then have "PD i' \<in> ptbls i" "i' < i" using that by (auto simp: ptbls_def)
    then show ?thesis using P False tf[OF d] ph[OF d] tf[of "PD i'"] ph[of "PD i'"] by (simp add: vm_part_def w_def)
  qed
  have top: "PML4 \<in> ptbls i" by (simp add: ptbls_def)
  have "vm_part m0 (Suc i) m6 w"
    unfolding vm_part_def using mm3(2) pres inj all pd P tf[OF d] tf[OF top] ph[OF top] by (simp add: vm_part_def w_def)
  moreover have "vm_areas w = vm_areas v" by (simp add: w_def)
  ultimately show ?thesis using cr h(2) a(1,2) m3(5,6) unfolding m6(3,4)[symmetric] m6(6)[symmetric]
    by (intro exI[of _ m6] exI[of _ w] exI[of _ f] exI[of _ q] conjI)
qed

lemma create_pds_spec:
  assumes "vm_part m0 i m v" "i \<le> 512" "512 - i \<le> card (free_frames m)" "512 - i \<le> card (free_kpages m)"
    "roomy (mm_heap m) ((512 - i) * 4160 + r)"
  shows "\<exists>m' v'. create_pds m v [i..<512] = ret (m', v') \<and> vm_part m0 512 m' v' \<and> roomy (mm_heap m') r \<and> vm_areas v' = vm_areas v \<and>
    card (free_frames m) \<le> card (free_frames m') + (512 - i) \<and> card (free_kpages m) \<le> card (free_kpages m') + (512 - i)"
  using assms
proof (induction "512 - i" arbitrary: i m v)
  case 0
  then show ?case by auto
next
  case (Suc x)
  then have i: "i < 512" "[i..<512] = i # [Suc i..<512]" by (simp_all add: upt_conv_Cons)
  have ne: "free_frames m \<noteq> {}" "free_kpages m \<noteq> {}" using Suc.prems(3,4) i(1) by auto
  have rm: "roomy (mm_heap m) (4160 + ((512 - Suc i) * 4160 + r))"
  proof -
    have "(512 - i) * 4160 = 4160 + (512 - Suc i) * 4160" using i(1) by (simp add: diff_Suc split: nat.splits)
    then show ?thesis using Suc.prems(5) by (simp add: add.assoc)
  qed
  obtain m1 v1 f q where st: "create_pds m v (i # [Suc i..<512]) = create_pds m1 v1 [Suc i..<512]" "vm_part m0 (Suc i) m1 v1"
      "roomy (mm_heap m1) ((512 - Suc i) * 4160 + r)" "f \<in> free_frames m" "q \<in> free_kpages m" "free_frames m1 = free_frames m - {f}"
      "free_kpages m1 = free_kpages m - {q}" "vm_areas v1 = vm_areas v"
    using create_step[OF Suc.prems(1) ne rm] by blast
  have c: "Suc (card (free_frames m1)) = card (free_frames m)" "Suc (card (free_kpages m1)) = card (free_kpages m)"
    using st(4-7) by (simp_all add: card_Suc_Diff1 del: card_Diff_insert)
  have "\<exists>m' v'. create_pds m1 v1 [Suc i..<512] = ret (m', v') \<and> vm_part m0 512 m' v' \<and> roomy (mm_heap m') r \<and> vm_areas v' = vm_areas v1 \<and>
    card (free_frames m1) \<le> card (free_frames m') + (512 - Suc i) \<and> card (free_kpages m1) \<le> card (free_kpages m') + (512 - Suc i)"
    using Suc.hyps(1)[of "Suc i" m1 v1] st(2,3) Suc.hyps(2) Suc.prems(3,4) c i(1) by simp
  then obtain m' v' where r: "create_pds m1 v1 [Suc i..<512] = ret (m', v')" "vm_part m0 512 m' v'" "roomy (mm_heap m') r" "vm_areas v' = vm_areas v1"
    "card (free_frames m1) \<le> card (free_frames m') + (512 - Suc i)" "card (free_kpages m1) \<le> card (free_kpages m') + (512 - Suc i)"
    by blast
  have "card (free_frames m) \<le> card (free_frames m') + (512 - i)" "card (free_kpages m) \<le> card (free_kpages m') + (512 - i)"
    using r(5,6) c i(1) by linarith+
  then show ?case unfolding i(2) st(1) using r st(8) by (intro exI[of _ m'] exI[of _ v']) simp
qed

lemma kraw_upd [simp]: "kraw (m\<lparr>mm_heap := h\<rparr>) = kraw m" "kraw (m\<lparr>phys := P\<rparr>) = kraw m"
  by (simp_all add: kraw_def fun_eq_iff)

lemma mm_kmalloc_roomy:
  assumes "roomy (mm_heap m) (n + 64 + r)" "0 < n" "n \<le> 2 ^ 32"
  shows "\<exists>p h. mm_kmalloc m n = ret (p, m\<lparr>mm_heap := h\<rparr>) \<and> roomy h r"
  using roomy_kmalloc[OF assms(1,2) _ assms(3)] by (auto simp: mm_kmalloc_def)

text \<open>The two top tables, before the loop over the page directories.\<close>

lemma vm_part_0:
  assumes mm: "mm_ok m" and p0: "mm_pres {} m0 m" and k1: "kptr m (kpage q1) f1" "used m f1" "\<not> used m0 f1"
    and k2: "kptr m (kpage q2) f2" "used m f2" "\<not> used m0 f2" and ne: "f1 \<noteq> f2"
    and v: "vm_pml4 v = kpage q1" "vm_pdpt v = kpage q2" "vm_pml4_phys v = 4096 * f1" "vm_pdpt_phys v = 4096 * f2"
  shows "\<exists>m1 m2 m3. kpage_set m (kpage q1) g = Inr m1 \<and> kpage_set m1 (kpage q2) (\<lambda>_. 0) = Inr m2 \<and>
    kstore m2 (kpage q1) 0 (4096 * f2 OR PAGE_PR OR PAGE_RW OR PAGE_USR) = Inr m3 \<and> vm_part m0 0 m3 v \<and>
    free_frames m3 = free_frames m \<and> free_kpages m3 = free_kpages m \<and> mm_heap m3 = mm_heap m"
proof -
  define m1 where "m1 = m\<lparr>phys := (phys m)(f1 := g)\<rparr>"
  define m2 where "m2 = m1\<lparr>phys := (phys m1)(f2 := (\<lambda>_. 0))\<rparr>"
  define m3 where "m3 = m2\<lparr>phys := (phys m2)(f1 := (phys m2 f1)(0 := 4096 * f2 OR 7))\<rparr>"
  have kp: "kptr m1 = kptr m" "kptr m2 = kptr m" "kptr m3 = kptr m" by (simp_all add: m1_def m2_def m3_def)
  have oks: "mm_ok m1" "mm_ok m2" "mm_ok m3" using mm by (simp_all add: m1_def m2_def m3_def)
  have "mm_pres {f1} m m1" unfolding m1_def by (rule mm_pres_store[OF mm k1(1)])
  then have "mm_pres {} m0 m1" by (rule mm_pres_trans[OF p0]) (use k1(3) in auto)
  moreover have "mm_pres {f2} m1 m2" unfolding m2_def by (rule mm_pres_store[OF oks(1)]) (use k2(1) kp in simp)
  ultimately have p2: "mm_pres {} m0 m2" by (rule mm_pres_trans) (use k2(3) in auto)
  have "mm_pres {f1} m2 m3" unfolding m3_def by (rule mm_pres_store[OF oks(2)]) (use k1(1) kp in simp)
  then have p3: "mm_pres {} m0 m3" by (rule mm_pres_trans[OF p2]) (use k1(3) in auto)
  have e: "4096 * f2 OR PAGE_PR OR PAGE_RW OR PAGE_USR = 4096 * f2 OR 7" by (simp add: or.assoc)
  have st: "kpage_set m (kpage q1) g = Inr m1" "kpage_set m1 (kpage q2) (\<lambda>_. 0) = Inr m2" "kstore m2 (kpage q1) 0 (4096 * f2 OR 7) = Inr m3"
    using kptr_access_simps(2)[of m "kpage q1" f1] kptr_access_simps(2)[of m1 "kpage q2" f2] kptr_access_simps(3)[of m2 "kpage q1" f1] k1(1) k2(1)
    unfolding kp by (simp_all add: m1_def m2_def m3_def)
  have tf: "tframe m3 v PML4 = f1" "tframe m3 v PDPT = f2"
    using kptr_access(2)[of m3 "kpage q1" f1] kptr_access(2)[of m3 "kpage q2" f2] k1(1) k2(1) unfolding kp by (simp_all add: tframe_def v)
  have us: "used m3 = used m" by (simp add: m1_def m2_def m3_def)
  have "vm_part m0 0 m3 v"
    unfolding vm_part_def ptbls_def using oks(3) p3 tf ne k1 k2 v us
    by (simp add: kp inj_on_def m3_def)
  moreover have "free_frames m3 = free_frames m" "free_kpages m3 = free_kpages m" "mm_heap m3 = mm_heap m"
    by (simp_all add: m1_def m2_def m3_def)
  ultimately show ?thesis using st unfolding e by blast
qed

lemma mmu_create_vmmap_spec:
  assumes mm: "mm_ok m" and ff: "514 \<le> card (free_frames m)" and fk: "514 \<le> card (free_kpages m)"
    and rm: "roomy (mm_heap m) (2142472 + r)"
  shows "\<exists>m' v. mmu_create_vmmap m junk = ret (m', v) \<and> vm_part m 512 m' v \<and> roomy (mm_heap m') r \<and> vm_areas v = kl_create \<and>
    card (free_frames m) \<le> card (free_frames m') + 514 \<and> card (free_kpages m) \<le> card (free_kpages m') + 514"
proof -
  obtain self h1 where 1: "mm_kmalloc m 4168 = ret (self, m\<lparr>mm_heap := h1\<rparr>)" "roomy h1 (4160 + (4160 + (512 * 4160 + r)))"
    using mm_kmalloc_roomy[of m 4168 "4160 + (4160 + (512 * 4160 + r))"] rm by auto
  let ?m1 = "m\<lparr>mm_heap := h1\<rparr>"
  have ok1: "mm_ok ?m1" "free_kpages ?m1 \<noteq> {}" "free_frames ?m1 = free_frames m" "free_kpages ?m1 = free_kpages m" using mm fk by auto
  obtain q1 m2 where 2: "mmu_kalloc ?m1 1 = Inr (kpage q1, m2)" "mm_pres {} ?m1 m2" "kraw m2 q1" "q1 \<in> free_kpages m"
      "free_kpages m2 = free_kpages m - {q1}" "free_frames m2 = free_frames m" "mm_heap m2 = h1"
    using kalloc_step[OF ok1(1,2)] by auto
  have c2: "Suc (card (free_kpages m2)) = card (free_kpages m)" using 2(4,5) by (simp add: card_Suc_Diff1 del: card_Diff_insert)
  have ok2: "mm_ok m2" "free_kpages m2 \<noteq> {}" using 2(2) c2 fk by (auto simp: mm_pres_def)
  obtain q2 m3 where 3: "mmu_kalloc m2 1 = Inr (kpage q2, m3)" "mm_pres {} m2 m3" "kraw m3 q2" "\<forall>q'. kraw m2 q' \<longrightarrow> kraw m3 q' \<and> q' \<noteq> q2" "q2 \<in> free_kpages m2"
      "free_kpages m3 = free_kpages m2 - {q2}" "free_frames m3 = free_frames m2" "mm_heap m3 = mm_heap m2"
    using kalloc_step[OF ok2] by blast
  have c3: "Suc (card (free_kpages m3)) = card (free_kpages m2)" using 3(5,6) by (simp add: card_Suc_Diff1 del: card_Diff_insert)
  obtain pds h4 where 4: "mm_kmalloc m3 4096 = ret (pds, m3\<lparr>mm_heap := h4\<rparr>)" "roomy h4 (4160 + (512 * 4160 + r))"
    using mm_kmalloc_roomy[of m3 4096 "4160 + (512 * 4160 + r)"] 1(2) 2(7) 3(8) by auto
  obtain pts h5 where 5: "mm_kmalloc (m3\<lparr>mm_heap := h4\<rparr>) 4096 = ret (pts, m3\<lparr>mm_heap := h5\<rparr>)" "roomy h5 (512 * 4160 + r)"
    using mm_kmalloc_roomy[of "m3\<lparr>mm_heap := h4\<rparr>" 4096 "512 * 4160 + r"] 4(2) by auto
  let ?m5 = "m3\<lparr>mm_heap := h5\<rparr>"
  have p5: "mm_pres {} m ?m5"
  proof -
    have "mm_pres {} m m2" by (rule mm_pres_trans[OF mm_pres_heap[OF mm] 2(2)]) auto
    then have "mm_pres {} m m3" by (rule mm_pres_trans[OF _ 3(2)]) auto
    moreover have "mm_pres {} m3 ?m5" by (rule mm_pres_heap) (use 3(2) in \<open>simp add: mm_pres_def\<close>)
    ultimately show ?thesis by (rule mm_pres_trans) auto
  qed
  have ok5: "mm_ok ?m5" "free_frames ?m5 \<noteq> {}" using p5 3(7) 2(6) ff by (auto simp: mm_pres_def)
  obtain f1 m6 where 6: "mmu_alloc_phys ?m5 = Inr (4096 * f1, m6)" "mm_pres {} ?m5 m6" "used m6 f1" "\<forall>q. kraw ?m5 q \<longrightarrow> kraw m6 q"
    "f1 \<in> free_frames ?m5" "free_frames m6 = free_frames ?m5 - {f1}" "free_kpages m6 = free_kpages ?m5" "mm_heap m6 = mm_heap ?m5"
    using alloc_step[OF ok5] by blast
  have c6: "Suc (card (free_frames m6)) = card (free_frames m)" using 6(5,6) 3(7) 2(6) by (simp add: card_Suc_Diff1 del: card_Diff_insert)
  have ok6: "mm_ok m6" "free_frames m6 \<noteq> {}" using 6(2) c6 ff by (auto simp: mm_pres_def)
  obtain f2 m7 where 7: "mmu_alloc_phys m6 = Inr (4096 * f2, m7)" "mm_pres {} m6 m7" "used m7 f2" "\<forall>q. kraw m6 q \<longrightarrow> kraw m7 q"
    "f2 \<in> free_frames m6" "free_frames m7 = free_frames m6 - {f2}" "free_kpages m7 = free_kpages m6" "mm_heap m7 = mm_heap m6"
    using alloc_step[OF ok6] by blast
  have c7: "Suc (card (free_frames m7)) = card (free_frames m6)" using 7(5,6) by (simp add: card_Suc_Diff1 del: card_Diff_insert)
  have p7: "mm_pres {} m m7"
    by (rule mm_pres_trans[OF mm_pres_trans[OF p5 6(2), of "{}"] 7(2)]) auto
  have raw: "kraw m7 q1" "kraw m7 q2" "q1 \<noteq> q2" using 2(3) 3(3,4) 6(4) 7(4) by simp_all
  have fb: "f1 < 2 ^ 52" "f2 < 2 ^ 52" using 6(5) 7(5) by (simp_all add: free_frames_def)
  have ok7: "mm_ok m7" using p7 by (simp add: mm_pres_def)
  define m8 where "m8 = mmu_kmap m7 (kpage q1) (4096 * f1) (PAGE_PR OR PAGE_RW)"
  define m9 where "m9 = mmu_kmap m8 (kpage q2) (4096 * f2) (PAGE_PR OR PAGE_RW)"
  note k8 = kmap_step[OF ok7 raw(1) fb(1), folded m8_def]
  have ok8: "mm_ok m8" using k8(1) by (simp add: mm_pres_def)
  note k9 = kmap_step[OF ok8 k8(8)[OF raw(2) raw(3)[symmetric]] fb(2), folded m9_def]
  have p9: "mm_pres {} m m9" by (rule mm_pres_trans[OF mm_pres_trans[OF p7 k8(1), of "{}"] k9(1)]) auto
  have ok9: "mm_ok m9" using p9 by (simp add: mm_pres_def)
  have kp: "kptr m9 (kpage q1) f1" using k8(2) k9(1) by (simp add: mm_pres_def)
  have us: "used m9 f1" "used m9 f2" using 6(3) 7(2,3) unfolding k9(3) k8(3) by (simp_all add: mm_pres_def)
  have nu: "\<not> used m f1" "\<not> used m f2"
  proof -
    show "\<not> used m f1" using used_free[OF 6(5)] p5 unfolding mm_pres_def by blast
    have "mm_pres {} m m6" by (rule mm_pres_trans[OF p5 6(2)]) auto
    then show "\<not> used m f2" using used_free[OF 7(5)] unfolding mm_pres_def by blast
  qed
  have ne: "f1 \<noteq> f2" using 7(5) 6(6) by blast
  define v where "v = junk\<lparr>vm_self := self, vm_areas := kl_create, vm_pml4 := kpage q1, vm_pdpt := kpage q2, vm_pds_at := pds,
                        vm_pts_at := pts, vm_pml4_phys := 4096 * f1, vm_pdpt_phys := 4096 * f2\<rparr>"
  have v: "vm_pml4 v = kpage q1" "vm_pdpt v = kpage q2" "vm_pml4_phys v = 4096 * f1" "vm_pdpt_phys v = 4096 * f2" "vm_areas v = kl_create"
    by (simp_all add: v_def)
  obtain m10 m11 m12 where t: "kpage_set m9 (kpage q1) (kpml4 m9) = Inr m10" "kpage_set m10 (kpage q2) (\<lambda>_. 0) = Inr m11"
      "kstore m11 (kpage q1) 0 (4096 * f2 OR PAGE_PR OR PAGE_RW OR PAGE_USR) = Inr m12" "vm_part m 0 m12 v"
      "free_frames m12 = free_frames m9" "free_kpages m12 = free_kpages m9" "mm_heap m12 = mm_heap m9"
    using vm_part_0[OF ok9 p9 kp us(1) nu(1) k9(2) us(2) nu(2) ne v(1-4), of "kpml4 m9"] by blast
  have fr: "free_frames m12 = free_frames m7" "free_kpages m12 = free_kpages m3" "mm_heap m12 = h5"
    using t(5-7) k9(4-7) k8(4-7) 7(6-8) 6(6-8) by simp_all
  have "vm_part m 0 m12 v" "0 \<le> (512::nat)" "512 - 0 \<le> card (free_frames m12)" "512 - 0 \<le> card (free_kpages m12)"
    "roomy (mm_heap m12) ((512 - 0) * 4160 + r)"
    using t(4) fr c2 c3 c6 c7 ff fk 5(2) by simp_all
  from create_pds_spec[OF this] obtain m' v' where c: "create_pds m12 v [0..<512] = ret (m', v')" "vm_part m 512 m' v'" "roomy (mm_heap m') r"
    "vm_areas v' = vm_areas v" "card (free_frames m12) \<le> card (free_frames m') + (512 - 0)" "card (free_kpages m12) \<le> card (free_kpages m') + (512 - 0)"
    by blast
  have "mmu_create_vmmap m junk = ret (m', v')"
    unfolding mmu_create_vmmap_def 1(1) bindR_simps prod.case 2(1) 3(1) 4(1) 5(1) 6(1) 7(1) Let_def m8_def[symmetric] m9_def[symmetric] t(1-3)
      v_def[symmetric] by (rule c(1))
  moreover have "card (free_frames m) \<le> card (free_frames m') + 514" "card (free_kpages m) \<le> card (free_kpages m') + 514"
    using c(5,6) c2 c3 c6 c7 unfolding fr by linarith+
  ultimately show ?thesis using c(2-4) v(5) by (intro exI[of _ m'] exI[of _ v']) simp
qed

subsection \<open>Copying an address space\<close>

definition ent_fr :: "nat \<Rightarrow> nat" where
  "ent_fr e = (e AND PAGE_FRAME) div PAGE4K"

lemma ent_fr: "e AND PAGE_FRAME = 4096 * ent_fr e" "ent_fr e < 2 ^ 52"
proof -
  have eq: "e AND PAGE_FRAME = 4096 * take_bit 52 (drop_bit 12 e)"
    unfolding frame_push page_frame_push by (rule bit_eqI) (auto simp: bit_simps)
  show "e AND PAGE_FRAME = 4096 * ent_fr e" unfolding ent_fr_def eq by simp
  show "ent_fr e < 2 ^ 52" unfolding ent_fr_def eq using take_bit_nat_less_exp[of 52 "drop_bit 12 e"] by simp
qed

lemma kfree_step:
  assumes mm: "mm_ok m" and q: "q < 512 * 512"
  defines "m' \<equiv> mmu_kfree m (kpage q) 1"
  shows "mm_ok m'" "used m' = used m" "phys m' = phys m" "mm_heap m' = mm_heap m" "kpml4 m' = kpml4 m" "free_frames m' = free_frames m"
    "free_kpages m' = insert q (free_kpages m)" "\<And>p f. kptr m p f \<Longrightarrow> p \<noteq> kpage q \<Longrightarrow> kptr m' p f"
proof -
  have eq: "m' = m\<lparr>kheap_tbls := (kheap_tbls m)(q div 512 := (kheap_tbls m (q div 512))(q mod 512 := 0))\<rparr>"
    unfolding m'_def using q by (simp add: kpage_idx)
  have T: "kheap_tbls m' (q' div 512) (q' mod 512) = (if q' = q then 0 else kheap_tbls m (q' div 512) (q' mod 512))" for q'
    unfolding eq using tbl_upd[of "kheap_tbls m" q 0 q'] by simp
  show *: "used m' = used m" "phys m' = phys m" "mm_heap m' = mm_heap m" "kpml4 m' = kpml4 m" "free_frames m' = free_frames m"
    unfolding eq by (simp_all add: free_frames_def)
  have kpr: "kpr m' q' \<longleftrightarrow> kpr m q' \<and> q' \<noteq> q" for q' using T[of q'] by (simp add: kpr_def)
  then show "free_kpages m' = insert q (free_kpages m)" using q by (auto simp: free_kpages_def)
  show "kptr m' p f" if kpf: "kptr m p f" and ne: "p \<noteq> kpage q" for p f
  proof -
    obtain q' where q': "q' < 512 * 512" "p = kpage q'" using kpf by (auto simp: kptr_def)
    then show ?thesis using kpf ne T[of q'] by (auto simp: kptr_def)
  qed
  have d: "dir_pr m' = dir_pr m" "at_tbls m' = at_tbls m" "kheap_dir m' = kheap_dir m" unfolding eq by (simp_all add: dir_pr_def fun_eq_iff)
  show "mm_ok m'" using mm unfolding mm_ok_def kheap_ok_def kpr d * by blast
qed

lemma clone_page_spec:
  assumes mm: "mm_ok m" and ok: "vm_ok m w" and ij: "i < 512" "j < 512" "vm_pts w i j \<noteq> 0"
    and e: "used m (ent_fr e)" "ent_fr e \<notin> tframes m w"
    and ff: "free_frames m \<noteq> {}" and fk: "2 \<le> card (free_kpages m)"
  shows "\<exists>m' f. clone_page m w i j k e = Inr m' \<and> vm_ok m' w \<and> mm_pres {tframe m w (PT i j)} m m' \<and> f \<in> free_frames m \<and>
    used m' f \<and> phys m' f = phys m (ent_fr e) \<and> free_frames m' = free_frames m - {f} \<and> free_kpages m' = free_kpages m \<and>
    (\<forall>t \<in> tbls w. tframe m' w t = tframe m w t) \<and> mm_heap m' = mm_heap m \<and>
    (\<forall>i'<512. \<forall>j'<512. \<forall>k'. leaf m' w i' j' k' = (if (i', j', k') = (i, j, k) then (e AND 0xfff) OR 4096 * f else leaf m w i' j' k'))"
proof -
  have ne: "free_kpages m \<noteq> {}" using fk by auto
  obtain q1 m1 where 1: "mmu_kalloc m 1 = Inr (kpage q1, m1)" "mm_pres {} m m1" "kraw m1 q1" "q1 \<in> free_kpages m"
      "free_kpages m1 = free_kpages m - {q1}" "free_frames m1 = free_frames m" "phys m1 = phys m" "mm_heap m1 = mm_heap m" "used m1 = used m"
    using kalloc_step[OF mm ne] by blast
  have c1: "Suc (card (free_kpages m1)) = card (free_kpages m)" using 1(4,5) by (simp add: card_Suc_Diff1 del: card_Diff_insert)
  have ok1: "mm_ok m1" "free_kpages m1 \<noteq> {}" using 1(2) c1 fk by (auto simp: mm_pres_def)
  obtain q2 m2 where 2: "mmu_kalloc m1 1 = Inr (kpage q2, m2)" "mm_pres {} m1 m2" "kraw m2 q2" "\<forall>q'. kraw m1 q' \<longrightarrow> kraw m2 q' \<and> q' \<noteq> q2" "q2 \<in> free_kpages m1"
      "free_kpages m2 = free_kpages m1 - {q2}" "free_frames m2 = free_frames m1" "phys m2 = phys m1" "mm_heap m2 = mm_heap m1" "used m2 = used m1"
    using kalloc_step[OF ok1] by blast
  have ok2: "mm_ok m2" "free_frames m2 \<noteq> {}" using 2(2,7) 1(6) ff by (auto simp: mm_pres_def)
  obtain f m3 where 3: "mmu_alloc_phys m2 = Inr (4096 * f, m3)" "mm_pres {} m2 m3" "used m3 f" "\<forall>q. kraw m2 q \<longrightarrow> kraw m3 q"
    "f \<in> free_frames m2" "free_frames m3 = free_frames m2 - {f}" "free_kpages m3 = free_kpages m2" "phys m3 = phys m2" "mm_heap m3 = mm_heap m2"
    using alloc_step[OF ok2] by blast
  have ok3: "mm_ok m3" "f < 2 ^ 52" using 3(2,5) by (auto simp: mm_pres_def free_frames_def)
  have raw: "kraw m3 q1" "kraw m3 q2" "q1 \<noteq> q2" using 1(3) 2(3,4) 3(4) by simp_all
  define m4 where "m4 = mmu_kmap m3 (kpage q1) (4096 * ent_fr e) (PAGE_PR OR PAGE_RW)"
  note k4 = kmap_step[OF ok3(1) raw(1) ent_fr(2)[of e], folded m4_def]
  have ok4: "mm_ok m4" using k4(1) by (simp add: mm_pres_def)
  define m5 where "m5 = mmu_kmap m4 (kpage q2) (4096 * f) (PAGE_PR OR PAGE_RW)"
  note k5 = kmap_step[OF ok4 k4(8)[OF raw(2) raw(3)[symmetric]] ok3(2), folded m5_def]
  have ok5: "mm_ok m5" using k5(1) by (simp add: mm_pres_def)
  have p5: "mm_pres {} m m5"
  proof -
    have "mm_pres {} m m2" by (rule mm_pres_trans[OF 1(2) 2(2)]) auto
    then have "mm_pres {} m m3" by (rule mm_pres_trans[OF _ 3(2)]) auto
    then have "mm_pres {} m m4" by (rule mm_pres_trans[OF _ k4(1)]) auto
    then show ?thesis by (rule mm_pres_trans[OF _ k5(1)]) auto
  qed
  have kp5: "kptr m5 (kpage q1) (ent_fr e)" using k4(2) k5(1) by (simp add: mm_pres_def)
  define m6 where "m6 = m5\<lparr>phys := (phys m5)(f := phys m5 (ent_fr e))\<rparr>"
  have st6: "(if kmapped m5 (kpage q1) then kpage_set m5 (kpage q2) (phys m5 (kframe m5 (kpage q1))) else Inl BadAccess) = Inr m6"
    using kptr_access[OF kp5] kptr_access_simps(2)[OF k5(2)] by (simp add: m6_def)
  have ok6: "mm_ok m6" using ok5 by (simp add: m6_def)
  have q: "q1 < 512 * 512" "q2 < 512 * 512" using raw by (simp_all add: kraw_def)
  define m7 where "m7 = mmu_kfree m6 (kpage q1) 1"
  note k7 = kfree_step[OF ok6 q(1), folded m7_def]
  define m8 where "m8 = mmu_kfree m7 (kpage q2) 1"
  note k8 = kfree_step[OF k7(1) q(2), folded m8_def]
  have fu: "\<not> used m f" using 3(5) 2(7) 1(6) used_free by metis
  have nk: "p \<noteq> kpage q1 \<and> p \<noteq> kpage q2" if "kptr m p g" for p g
    using that kptr_bits[of m q1 g] kptr_bits[of m q2 g] 1(4,5) 2(5) by (auto simp: free_kpages_def)
  have ph: "phys m8 = (phys m)(f := phys m (ent_fr e))"
    using k8(3) k7(3) k5(6) k4(6) 3(8) 2(8) 1(7) by (simp add: m6_def)
  have us: "used m8 = used m3" using k8(2) k7(2) k5(3) k4(3) by (simp add: m6_def)
  have p8: "mm_pres {} m m8"
    unfolding mm_pres_def
  proof (intro conjI allI impI)
    show "mm_ok m8" by (rule k8(1))
    show "used m8 g" if "used m g" for g using that p5 us k5(3) k4(3) by (simp add: mm_pres_def)
    show "kptr m8 p g" if "kptr m p g" for p g
      using that p5 nk[OF that] by (intro k8(8) k7(8)) (simp_all add: mm_pres_def m6_def)
    show "phys m8 g = phys m g" if "used m g \<and> g \<notin> {}" for g using that fu by (auto simp: ph)
    show "kpml4 m8 = kpml4 m" using p5 k8(5) k7(5) by (simp add: mm_pres_def m6_def)
  qed
  note v8 = vm_ok_pres[OF ok p8, simplified]
  obtain m9 where 9: "kstore m8 (vm_pts w i j) k ((e AND 0xfff) OR 4096 * f) = Inr m9" "vm_ok m9 w" "mm_pres {tframe m8 w (PT i j)} m8 m9"
      "m9 = m8\<lparr>phys := (phys m8)(tframe m8 w (PT i j) := (phys m8 (tframe m8 w (PT i j)))(k := (e AND 0xfff) OR 4096 * f))\<rparr>"
      "\<forall>t. tframe m9 w t = tframe m8 w t"
      "\<forall>i'<512. \<forall>j'<512. \<forall>k'. leaf m9 w i' j' k' = (if (i', j', k') = (i, j, k) then (e AND 0xfff) OR 4096 * f else leaf m8 w i' j' k')"
    using vm_ok_store[OF v8(1) k8(1) ij, of k "(e AND 0xfff) OR 4096 * f"] by (elim exE conjE) (rule that; assumption)
  have t: "PT i j \<in> tbls w" using ij by simp
  have A: "clone_page m w i j k e = Inr m9"
    unfolding clone_page_def 1(1) bindS_simps prod.case 2(1) 3(1) ent_fr(1)[of e] Let_def m4_def[symmetric] m5_def[symmetric] st6
      m7_def[symmetric] m8_def[symmetric] by (rule 9(1))
  have B: "mm_pres {tframe m w (PT i j)} m m9"
    using mm_pres_trans[OF p8 9(3), of "{tframe m w (PT i j)}"] v8(2)[OF t] by auto
  have "tframe m w (PT i j) \<noteq> f" using vm_okD(2)[OF ok t] fu by metis
  then have C: "phys m9 f = phys m (ent_fr e)" using v8(2)[OF t] by (simp add: 9(4) ph)
  have D: "used m9 f" using 3(3) us by (simp add: 9(4))
  have fr: "f \<in> free_frames m" "free_frames m9 = free_frames m - {f}" "free_kpages m9 = free_kpages m" "mm_heap m9 = mm_heap m"
    using 3(5-9) 2(5-9) 1(4-8) k8(4,6,7) k7(4,6,7) k5(4,5,7) k4(4,5,7) by (auto simp: 9(4) m6_def)
  show ?thesis
    using A B C D fr 9(2,5,6) v8(2,3) by (intro exI[of _ m9] exI[of _ f]) simp
qed

text \<open>
  The frames behind the user pages of an address space are in use, and none of them is one of
  its page tables.
\<close>

definition user_frames :: "mm \<Rightarrow> vm_map \<Rightarrow> nat set" where
  "user_frames m v = {f. \<exists>i<512. \<exists>j<512. \<exists>k<512. leaf_frame (leaf m v i j k) = Some f}"

definition vm_user_ok :: "mm \<Rightarrow> vm_map \<Rightarrow> bool" where
  "vm_user_ok m v \<longleftrightarrow> (\<forall>f \<in> user_frames m v. used m f \<and> f \<notin> tframes m v)"

lemma leaf_frame_ent_fr: "leaf_frame e = (if e AND PAGE_PR \<noteq> 0 \<and> e AND PAGE_USR \<noteq> 0 then Some (ent_fr e) else None)"
  by (simp add: leaf_frame_def ent_fr_def)

text \<open>
  The entry \<open>e'\<close> of the copy stands for the entry \<open>e\<close> of the source: nothing for nothing, and for
  a user page the same flags and a frame that is new since \<open>m0\<close> with the same contents.
\<close>

definition copied :: "mm \<Rightarrow> mm \<Rightarrow> vm_map \<Rightarrow> nat \<Rightarrow> nat \<Rightarrow> bool" where
  "copied m0 m w e e' \<longleftrightarrow> (case leaf_frame e of None \<Rightarrow> e' = 0
     | Some g \<Rightarrow> \<exists>f. e' = (e AND 0xfff) OR 4096 * f \<and> f < 2 ^ 52 \<and> \<not> used m0 f \<and> used m f \<and> f \<notin> tframes m w \<and> phys m f = phys m0 g)"

lemma copied_pres:
  assumes "copied m0 m w e e'" "mm_pres (tframes m w) m m'" "tframes m' w' \<inter> {f. used m f} \<subseteq> tframes m w"
  shows "copied m0 m' w' e e'"
proof (cases "leaf_frame e")
  case None
  then show ?thesis using assms(1) by (simp add: copied_def)
next
  case (Some g)
  then obtain f where f: "e' = (e AND 0xfff) OR 4096 * f" "f < 2 ^ 52" "\<not> used m0 f" "used m f" "f \<notin> tframes m w" "phys m f = phys m0 g"
    using assms(1) by (auto simp: copied_def)
  have "used m' f" "phys m' f = phys m f" using assms(2) f(4,5) unfolding mm_pres_def by blast+
  moreover have "f \<notin> tframes m' w'" using assms(3) f(4,5) by blast
  ultimately show ?thesis using Some f by (auto simp: copied_def)
qed

definition clone_inv :: "mm \<Rightarrow> mm \<Rightarrow> vm_map \<Rightarrow> bool" where
  "clone_inv m0 m w \<longleftrightarrow> mm_ok m \<and> mm_pres {} m0 m \<and> vm_ok m w \<and> (\<forall>t \<in> tbls w. \<not> used m0 (tframe m w t))"

lemma clone_inv_src:
  assumes "clone_inv m0 m w" "vm_ok m0 v"
  shows "vm_ok m v" "\<And>t. t \<in> tbls v \<Longrightarrow> tframe m v t = tframe m0 v t" "\<And>i j k. i < 512 \<Longrightarrow> j < 512 \<Longrightarrow> leaf m v i j k = leaf m0 v i j k"
  using vm_ok_pres[OF assms(2), of "{}" m] assms(1) by (auto simp: clone_inv_def)

text \<open>One page table of the source.\<close>

lemma clone_table_spec:
  assumes v: "vm_ok m0 v" "vm_user_ok m0 v" and ij: "i < 512" "j < 512" "vm_pts v i j \<noteq> 0" "vm_pts w i j \<noteq> 0"
    and inv: "clone_inv m0 m w" and ks: "distinct ks" "set ks \<subseteq> {..<512}" "\<forall>k \<in> set ks. leaf m w i j k = 0"
    and ff: "length ks \<le> card (free_frames m)" and fk: "2 \<le> card (free_kpages m)"
  shows "\<exists>m'. clone_table m w (vm_pts v i j) i j ks = Inr m' \<and> clone_inv m0 m' w \<and> mm_pres (tframes m w) m m' \<and>
    (\<forall>t \<in> tbls w. tframe m' w t = tframe m w t) \<and> mm_heap m' = mm_heap m \<and> free_kpages m' = free_kpages m \<and>
    card (free_frames m) \<le> card (free_frames m') + length ks \<and>
    (\<forall>k \<in> set ks. copied m0 m' w (leaf m0 v i j k) (leaf m' w i j k)) \<and>
    (\<forall>i'<512. \<forall>j'<512. \<forall>k'. (i', j') \<noteq> (i, j) \<or> k' \<notin> set ks \<longrightarrow> leaf m' w i' j' k' = leaf m w i' j' k')"
  using inv ks ff fk
proof (induction ks arbitrary: m)
  case Nil
  have "mm_pres (tframes m w) m m" using Nil.prems(1) by (simp add: clone_inv_def mm_pres_def)
  then show ?case using Nil.prems by (intro exI[of _ m]) simp
next
  case (Cons k ks)
  note inv = Cons.prems(1)
  have mm: "mm_ok m" and okw: "vm_ok m w" and p0: "mm_pres {} m0 m" using inv by (simp_all add: clone_inv_def)
  have k: "k < 512" "k \<notin> set ks" "leaf m w i j k = 0" using Cons.prems(2,3,4) by simp_all
  let ?e = "leaf m0 v i j k"
  have t: "PT i j \<in> tbls v" "PT i j \<in> tbls w" using ij by simp_all
  have ld: "kload m (vm_pts v i j) k = Inr ?e"
    using kptr_access_simps(1)[OF vm_okD(1)[OF clone_inv_src(1)[OF inv v(1)] t(1)]] clone_inv_src(3)[OF inv v(1) ij(1,2), of k] ij(3)
    by (simp add: leaf_def)
  have "\<exists>m1. (if ?e AND PAGE_PR \<noteq> 0 \<and> ?e AND PAGE_USR \<noteq> 0 then clone_page m w i j k ?e else Inr m) = Inr m1 \<and>
    clone_inv m0 m1 w \<and> mm_pres (tframes m w) m m1 \<and> (\<forall>t \<in> tbls w. tframe m1 w t = tframe m w t) \<and> mm_heap m1 = mm_heap m \<and> free_kpages m1 = free_kpages m \<and>
    card (free_frames m) \<le> Suc (card (free_frames m1)) \<and> copied m0 m1 w ?e (leaf m1 w i j k) \<and>
    (\<forall>i'<512. \<forall>j'<512. \<forall>k'. (i', j', k') \<noteq> (i, j, k) \<longrightarrow> leaf m1 w i' j' k' = leaf m w i' j' k')"
  proof (cases "?e AND PAGE_PR \<noteq> 0 \<and> ?e AND PAGE_USR \<noteq> 0")
    case False
    have "mm_pres (tframes m w) m m" using mm by (simp add: mm_pres_def)
    moreover have "copied m0 m w ?e (leaf m w i j k)" using False k(3) by (auto simp: copied_def leaf_frame_def)
    ultimately show ?thesis using False inv by (intro exI[of _ m]) auto
  next
    case True
    then have lf: "leaf_frame ?e = Some (ent_fr ?e)" by (simp add: leaf_frame_ent_fr)
    then have "ent_fr ?e \<in> user_frames m0 v" using ij(1,2) k(1) unfolding user_frames_def by blast
    then have u0: "used m0 (ent_fr ?e)" using v(2) unfolding vm_user_ok_def by blast
    have u: "used m (ent_fr ?e)" "ent_fr ?e \<notin> tframes m w" using u0 p0 inv unfolding mm_pres_def clone_inv_def by auto
    have ne: "free_frames m \<noteq> {}" using Cons.prems(5) by auto
    obtain m1 f where c: "clone_page m w i j k ?e = Inr m1" "vm_ok m1 w" "mm_pres {tframe m w (PT i j)} m m1" "f \<in> free_frames m"
        "used m1 f" "phys m1 f = phys m (ent_fr ?e)" "free_frames m1 = free_frames m - {f}" "free_kpages m1 = free_kpages m"
        "\<forall>t \<in> tbls w. tframe m1 w t = tframe m w t" "mm_heap m1 = mm_heap m"
        "\<forall>i'<512. \<forall>j'<512. \<forall>k'. leaf m1 w i' j' k' = (if (i', j', k') = (i, j, k) then (?e AND 0xfff) OR 4096 * f else leaf m w i' j' k')"
      using clone_page_spec[OF mm okw ij(1,2,4) u ne Cons.prems(6), of k] by (elim exE conjE) (rule that; assumption)
    have pr: "mm_pres (tframes m w) m m1" using c(3) t(2) unfolding mm_pres_def by blast
    have "mm_pres {} m0 m1" by (rule mm_pres_trans[OF p0 pr]) (use inv in \<open>auto simp: clone_inv_def\<close>)
    then have i1: "clone_inv m0 m1 w" using inv c(2,9) unfolding clone_inv_def by (auto simp: mm_pres_def)
    have fu: "\<not> used m f" using c(4) by (rule used_free)
    then have "\<not> used m0 f" using p0 unfolding mm_pres_def by blast
    moreover have "f \<notin> tframes m1 w" using c(9) fu vm_okD(2)[OF okw] by fastforce
    moreover have "phys m1 f = phys m0 (ent_fr ?e)" using c(6) u0 p0 unfolding mm_pres_def by auto
    moreover have "f < 2 ^ 52" using c(4) by (simp add: free_frames_def)
    ultimately have "copied m0 m1 w ?e (leaf m1 w i j k)" using lf c(5,11) ij(1,2) by (auto simp: copied_def)
    moreover have "card (free_frames m) \<le> Suc (card (free_frames m1))" using c(4,7) by (simp add: card_Suc_Diff1 del: card_Diff_insert)
    ultimately show ?thesis using True c(1,8,9,10,11) i1 pr by (intro exI[of _ m1]) simp
  qed
  then obtain m1 where s: "(if ?e AND PAGE_PR \<noteq> 0 \<and> ?e AND PAGE_USR \<noteq> 0 then clone_page m w i j k ?e else Inr m) = Inr m1"
    "clone_inv m0 m1 w" "mm_pres (tframes m w) m m1" "\<forall>t \<in> tbls w. tframe m1 w t = tframe m w t" "mm_heap m1 = mm_heap m" "free_kpages m1 = free_kpages m"
    "card (free_frames m) \<le> Suc (card (free_frames m1))" "copied m0 m1 w ?e (leaf m1 w i j k)"
    "\<forall>i'<512. \<forall>j'<512. \<forall>k'. (i', j', k') \<noteq> (i, j, k) \<longrightarrow> leaf m1 w i' j' k' = leaf m w i' j' k'"
    by (elim exE conjE) (rule that; assumption)
  have tf1: "tframes m1 w = tframes m w" using s(4) by auto
  have "leaf m1 w i j k' = leaf m w i j k'" if "k' \<noteq> k" for k' using s(9) ij(1,2) that by simp
  then have z: "\<forall>k' \<in> set ks. leaf m1 w i j k' = 0" using Cons.prems(4) k(2) by (metis list.set_intros(2))
  have hyps: "length ks \<le> card (free_frames m1)" "2 \<le> card (free_kpages m1)" "distinct ks" "set ks \<subseteq> {..<512}"
    using Cons.prems(2,3,5,6) s(6,7) by simp_all
  obtain m' where r: "clone_table m1 w (vm_pts v i j) i j ks = Inr m'" "clone_inv m0 m' w" "mm_pres (tframes m1 w) m1 m'"
    "\<forall>t \<in> tbls w. tframe m' w t = tframe m1 w t" "mm_heap m' = mm_heap m1" "free_kpages m' = free_kpages m1"
    "card (free_frames m1) \<le> card (free_frames m') + length ks" "\<forall>k \<in> set ks. copied m0 m' w (leaf m0 v i j k) (leaf m' w i j k)"
    "\<forall>i'<512. \<forall>j'<512. \<forall>k'. (i', j') \<noteq> (i, j) \<or> k' \<notin> set ks \<longrightarrow> leaf m' w i' j' k' = leaf m1 w i' j' k'"
    using Cons.IH[OF s(2) hyps(3,4) z hyps(1,2)] by (elim exE conjE) (rule that; assumption)
  have cp: "copied m0 m' w ?e (leaf m' w i j k)"
    using copied_pres[OF s(8), of m' w] r(3,4,9) k(2) ij(1,2) by auto
  have pr: "mm_pres (tframes m w) m m'" by (rule mm_pres_trans[OF s(3) r(3)]) (simp_all add: tf1)
  have run: "clone_table m w (vm_pts v i j) i j (k # ks) = Inr m'" using ld s(1) r(1) by simp
  show ?case
    using run r(2,4-9) s(4-7,9) cp pr
    by (intro exI[of _ m']) auto
qed

abbreviation (input) ntab :: "vm_map \<Rightarrow> (nat \<times> nat) list \<Rightarrow> nat" where
  "ntab v ps \<equiv> length (filter (\<lambda>(i, j). vm_pts v i j \<noteq> 0) ps)"

text \<open>One step of the loop over the tables: a copy of the table, or nothing where there is none.\<close>

lemma clone_tables_step:
  assumes v: "vm_ok m0 v" "vm_user_ok m0 v" and ij: "i < 512" "j < 512" "vm_pts w i j = 0"
    and inv: "clone_inv m0 m w" and ff: "513 * ntab v ((i, j) # ps) \<le> card (free_frames m)" and fk: "ntab v ((i, j) # ps) + 2 \<le> card (free_kpages m)"
  shows "\<exists>m' w'. clone_tables m w v ((i, j) # ps) = clone_tables m' w' v ps \<and> clone_inv m0 m' w' \<and> mm_pres (tframes m w) m m' \<and>
    tframes m' w' \<inter> {f. used m f} \<subseteq> tframes m w \<and> w' = w\<lparr>vm_pts := vm_pts w'\<rparr> \<and> mm_heap m' = mm_heap m \<and>
    513 * ntab v ps \<le> card (free_frames m') \<and> ntab v ps + 2 \<le> card (free_kpages m') \<and>
    (\<forall>k<512. copied m0 m' w' (leaf m0 v i j k) (leaf m' w' i j k)) \<and>
    (\<forall>i'<512. \<forall>j'<512. (i', j') \<noteq> (i, j) \<longrightarrow> vm_pts w' i' j' = vm_pts w i' j' \<and> leaf m' w' i' j' = leaf m w i' j')"
proof (cases "vm_pts v i j = 0")
  case True
  have mm: "mm_ok m" and okw: "vm_ok m w" using inv by (simp_all add: clone_inv_def)
  have kp: "kptr m (vm_pds w i) (tframe m w (PD i))" using vm_okD(1)[OF okw, of "PD i"] ij by simp
  have "(phys m (tframe m w (PD i)))(j := 0) = phys m (tframe m w (PD i))"
    using vm_okD(7)[OF okw ij(1,2)] ij(3) by (simp add: fun_upd_idem)
  then have st: "kstore m (vm_pds w i) j 0 = Inr m" using kptr_access_simps(3)[OF kp] by simp
  have wp: "w\<lparr>vm_pts := (vm_pts w)(i := (vm_pts w i)(j := 0))\<rparr> = w"
    using ij(3) by (simp add: fun_upd_idem)
  have run: "clone_tables m w v ((i, j) # ps) = clone_tables m w v ps" using True st wp by simp
  have cp: "copied m0 m w (leaf m0 v i j k) (leaf m w i j k)" for k
    using True ij(3) by (simp add: leaf_def copied_def leaf_frame_def)
  have "mm_pres (tframes m w) m m" using mm by (simp add: mm_pres_def)
  then show ?thesis using run inv ff fk True cp by (intro exI[of _ m] exI[of _ w]) auto
next
  case False
  have mm: "mm_ok m" and okw: "vm_ok m w" and p0: "mm_pres {} m0 m" using inv by (simp_all add: clone_inv_def)
  have n: "ntab v ((i, j) # ps) = Suc (ntab v ps)" using False by simp
  have ne: "free_frames m \<noteq> {}" "free_kpages m \<noteq> {}" using ff fk unfolding n by auto
  obtain m1 w1 p f q where t: "mktable m w i j = Inr (m1, w1)" "w1 = w\<lparr>vm_pts := (vm_pts w)(i := (vm_pts w i)(j := p))\<rparr>" "p \<noteq> 0"
      "vm_ok m1 w1" "mm_pres {tframe m w (PD i)} m m1" "mm_heap m1 = mm_heap m" "\<forall>t \<in> tbls w. tframe m1 w1 t = tframe m w t"
      "tframe m1 w1 (PT i j) = f" "phys m1 f = (\<lambda>_. 0)" "f \<in> free_frames m" "free_frames m1 = free_frames m - {f}"
      "q \<in> free_kpages m" "free_kpages m1 = free_kpages m - {q}" "\<forall>i'<512. \<forall>j'<512. leaf m1 w1 i' j' = leaf m w i' j'"
    using mktable_spec[OF mm okw ij ne] by (elim exE conjE) (rule that; assumption)
  have tb: "tbls w1 = insert (PT i j) (tbls w)" using t(3) ij(1,2) unfolding t(2) by (auto simp: tbls_def)
  have tfs: "tframes m1 w1 = insert f (tframes m w)" unfolding tb using t(7,8) by auto
  have p1: "mm_pres (tframes m w) m m1"
  proof -
    have "tframe m w (PD i) \<in> tframes m w" using ij(1) by (intro imageI) simp
    then show ?thesis using t(5) unfolding mm_pres_def by blast
  qed
  have "\<not> used m f" using t(10) by (rule used_free)
  note fu = this
  then have fu0: "\<not> used m0 f" using p0 unfolding mm_pres_def by blast
  have "mm_pres {} m0 m1" by (rule mm_pres_trans[OF p0 p1]) (use inv in \<open>auto simp: clone_inv_def\<close>)
  then have i1: "clone_inv m0 m1 w1" using inv t(4,7,8) fu0 unfolding clone_inv_def tb by (auto simp: mm_pres_def)
  have c1: "Suc (card (free_frames m1)) = card (free_frames m)" "Suc (card (free_kpages m1)) = card (free_kpages m)"
    using t(10-13) by (simp_all add: card_Suc_Diff1 del: card_Diff_insert)
  have hyps: "vm_pts w1 i j \<noteq> 0" "distinct [0..<512]" "set [0..<512] \<subseteq> {..<512}" "\<forall>k \<in> set [0..<512]. leaf m1 w1 i j k = 0"
      "length [0..<512] \<le> card (free_frames m1)" "2 \<le> card (free_kpages m1)"
    using t(2,3,14) ij c1 ff fk unfolding n by (simp_all add: leaf_def del: upt_rec_numeral) auto
  obtain m2 where s: "clone_table m1 w1 (vm_pts v i j) i j [0..<512] = Inr m2" "clone_inv m0 m2 w1" "mm_pres (tframes m1 w1) m1 m2"
    "\<forall>t \<in> tbls w1. tframe m2 w1 t = tframe m1 w1 t" "mm_heap m2 = mm_heap m1" "free_kpages m2 = free_kpages m1"
    "card (free_frames m1) \<le> card (free_frames m2) + length [0..<512]" "\<forall>k \<in> set [0..<512]. copied m0 m2 w1 (leaf m0 v i j k) (leaf m2 w1 i j k)"
    "\<forall>i'<512. \<forall>j'<512. \<forall>k'. (i', j') \<noteq> (i, j) \<or> k' \<notin> set [0..<512] \<longrightarrow> leaf m2 w1 i' j' k' = leaf m1 w1 i' j' k'"
    using clone_table_spec[OF v ij(1,2) False hyps(1) i1 hyps(2-6)] by (elim exE conjE) (rule that; assumption)
  have A: "clone_tables m w v ((i, j) # ps) = clone_tables m2 w1 v ps" using False t(1) s(1) by simp
  have B: "mm_pres (tframes m w) m m2" by (rule mm_pres_trans[OF p1 s(3)]) (use fu in \<open>auto simp: tfs\<close>)
  have "tframes m2 w1 = tframes m1 w1" using s(4) by auto
  then have C: "tframes m2 w1 \<inter> {f. used m f} \<subseteq> tframes m w" using fu tfs by auto
  have D: "513 * ntab v ps \<le> card (free_frames m2)" "ntab v ps + 2 \<le> card (free_kpages m2)"
    using s(6,7) c1 ff fk unfolding n by simp_all
  have E: "\<forall>k<512. copied m0 m2 w1 (leaf m0 v i j k) (leaf m2 w1 i j k)" using s(8) by (simp del: upt_rec_numeral)
  have F: "vm_pts w1 i' j' = vm_pts w i' j' \<and> leaf m2 w1 i' j' = leaf m w i' j'" if "i' < 512" "j' < 512" "(i', j') \<noteq> (i, j)" for i' j'
    using that s(9) t(2,14) by (auto simp: fun_eq_iff)
  have G: "w1 = w\<lparr>vm_pts := vm_pts w1\<rparr>" "mm_heap m2 = mm_heap m" using s(5) t(6) unfolding t(2) by simp_all
  show ?thesis using A s(2) B C D E F G by (intro exI[of _ m2] exI[of _ w1]) blast
qed

lemma clone_tables_spec:
  assumes v: "vm_ok m0 v" "vm_user_ok m0 v" and inv: "clone_inv m0 m w"
    and ps: "distinct ps" "set ps \<subseteq> {..<512} \<times> {..<512}" "\<forall>(i, j) \<in> set ps. vm_pts w i j = 0"
    and ff: "513 * ntab v ps \<le> card (free_frames m)" and fk: "ntab v ps + 2 \<le> card (free_kpages m)"
  shows "\<exists>m' w'. clone_tables m w v ps = Inr (m', w') \<and> clone_inv m0 m' w' \<and> mm_pres (tframes m w) m m' \<and>
    tframes m' w' \<inter> {f. used m f} \<subseteq> tframes m w \<and> w' = w\<lparr>vm_pts := vm_pts w'\<rparr> \<and> mm_heap m' = mm_heap m \<and>
    (\<forall>(i, j) \<in> set ps. \<forall>k<512. copied m0 m' w' (leaf m0 v i j k) (leaf m' w' i j k)) \<and>
    (\<forall>i'<512. \<forall>j'<512. (i', j') \<notin> set ps \<longrightarrow> leaf m' w' i' j' = leaf m w i' j')"
  using inv ps ff fk
proof (induction ps arbitrary: m w)
  case Nil
  have "mm_pres (tframes m w) m m" using Nil.prems(1) by (simp add: clone_inv_def mm_pres_def)
  then show ?case using Nil.prems by (intro exI[of _ m] exI[of _ w]) simp
next
  case (Cons a ps)
  obtain i j where a: "a = (i, j)" by (cases a)
  have ij: "i < 512" "j < 512" "vm_pts w i j = 0" "(i, j) \<notin> set ps" using Cons.prems(2,3,4) by (simp_all add: a)
  obtain m1 w1 where s: "clone_tables m w v ((i, j) # ps) = clone_tables m1 w1 v ps" "clone_inv m0 m1 w1" "mm_pres (tframes m w) m m1"
    "tframes m1 w1 \<inter> {f. used m f} \<subseteq> tframes m w" "w1 = w\<lparr>vm_pts := vm_pts w1\<rparr>" "mm_heap m1 = mm_heap m"
    "513 * ntab v ps \<le> card (free_frames m1)" "ntab v ps + 2 \<le> card (free_kpages m1)"
    "\<forall>k<512. copied m0 m1 w1 (leaf m0 v i j k) (leaf m1 w1 i j k)"
    "\<forall>i'<512. \<forall>j'<512. (i', j') \<noteq> (i, j) \<longrightarrow> vm_pts w1 i' j' = vm_pts w i' j' \<and> leaf m1 w1 i' j' = leaf m w i' j'"
    using clone_tables_step[OF v ij(1-3) Cons.prems(1) Cons.prems(5,6)[unfolded a]] by (elim exE conjE) (rule that; assumption)
  have hyps: "distinct ps" "set ps \<subseteq> {..<512} \<times> {..<512}" using Cons.prems(2,3) by simp_all
  have z: "\<forall>(i', j') \<in> set ps. vm_pts w1 i' j' = 0"
  proof (intro ballI, clarify)
    fix i' j' assume p: "(i', j') \<in> set ps"
    then have "i' < 512" "j' < 512" "(i', j') \<noteq> (i, j)" using hyps(2) ij(4) by auto
    then show "vm_pts w1 i' j' = 0" using s(10) Cons.prems(4) p by auto
  qed
  obtain m' w' where r: "clone_tables m1 w1 v ps = Inr (m', w')" "clone_inv m0 m' w'" "mm_pres (tframes m1 w1) m1 m'"
    "tframes m' w' \<inter> {f. used m1 f} \<subseteq> tframes m1 w1" "w' = w1\<lparr>vm_pts := vm_pts w'\<rparr>" "mm_heap m' = mm_heap m1"
    "\<forall>(i, j) \<in> set ps. \<forall>k<512. copied m0 m' w' (leaf m0 v i j k) (leaf m' w' i j k)"
    "\<forall>i'<512. \<forall>j'<512. (i', j') \<notin> set ps \<longrightarrow> leaf m' w' i' j' = leaf m1 w1 i' j'"
    using Cons.IH[OF s(2) hyps z s(7,8)] by (elim exE conjE) (rule that; assumption)
  have u: "used m f \<Longrightarrow> used m1 f" for f using s(3) by (simp add: mm_pres_def)
  have A: "clone_tables m w v (a # ps) = Inr (m', w')" unfolding a s(1) by (rule r(1))
  have B: "mm_pres (tframes m w) m m'" by (rule mm_pres_trans[OF s(3) r(3)]) (use s(4) in auto)
  have C: "tframes m' w' \<inter> {f. used m f} \<subseteq> tframes m w" using r(4) s(4) u by blast
  have D: "w' = w\<lparr>vm_pts := vm_pts w'\<rparr>" by (subst r(5), subst s(5)) simp
  have cp: "\<forall>k<512. copied m0 m' w' (leaf m0 v i j k) (leaf m' w' i j k)"
    using copied_pres[OF _ r(3,4)] s(9) r(8) ij by auto
  have E: "\<forall>(i, j) \<in> set (a # ps). \<forall>k<512. copied m0 m' w' (leaf m0 v i j k) (leaf m' w' i j k)" using cp r(7) by (simp add: a)
  have F: "\<forall>i'<512. \<forall>j'<512. (i', j') \<notin> set (a # ps) \<longrightarrow> leaf m' w' i' j' = leaf m w i' j'" using r(8) s(10) by (simp add: a)
  have G: "mm_heap m' = mm_heap m" using r(6) s(6) by simp
  show ?case by (intro exI[of _ m'] exI[of _ w'] conjI A B C D E F G r(2))
qed

subsection \<open>Properties\<close>

lemma user_page_idx:
  assumes "x < 2 ^ 39" "y < 2 ^ 39"
  shows "(PDPT_IDX x, PD_IDX x, PT_IDX x) = (PDPT_IDX y, PD_IDX y, PT_IDX y) \<longleftrightarrow> x div 4096 = y div 4096"
proof -
  have dec: "z div 4096 = (PDPT_IDX z * 512 + PD_IDX z) * 512 + PT_IDX z" if "z < 2 ^ 39" for z :: nat
  proof -
    have 1: "z div 2 ^ 12 = z div 2 ^ 12 div 512 * 512 + PT_IDX z" unfolding idx_div by simp
    have 2: "z div 2 ^ 12 div 512 = z div 2 ^ 21" using div_mult2_eq[of z "2 ^ 12" 512] by simp
    have 3: "z div 2 ^ 21 = z div 2 ^ 21 div 512 * 512 + PD_IDX z" unfolding idx_div by simp
    have 4: "z div 2 ^ 21 div 512 = z div 2 ^ 30" using div_mult2_eq[of z "2 ^ 21" 512] by simp
    have "z div 2 ^ 30 < 512" using that by (simp add: div_less_iff_less_mult)
    then have "PDPT_IDX z = z div 2 ^ 30" by (simp add: idx_div)
    then have "z div 2 ^ 12 = (PDPT_IDX z * 512 + PD_IDX z) * 512 + PT_IDX z" using 1 2 3 4 by metis
    then show ?thesis by simp
  qed
  have s: "z div 2 ^ 21 = z div 2 ^ 12 div 2 ^ 9" "z div 2 ^ 30 = z div 2 ^ 12 div 2 ^ 18" for z :: nat
    using div_mult2_eq[of z "2 ^ 12" "2 ^ 9"] div_mult2_eq[of z "2 ^ 12" "2 ^ 18"] by simp_all
  have inc: "PDPT_IDX x = PDPT_IDX y" "PD_IDX x = PD_IDX y" "PT_IDX x = PT_IDX y" if e: "x div 2 ^ 12 = y div 2 ^ 12"
    unfolding idx_div s e by (rule refl)+
  show ?thesis
  proof
    assume "(PDPT_IDX x, PD_IDX x, PT_IDX x) = (PDPT_IDX y, PD_IDX y, PT_IDX y)"
    then show "x div 4096 = y div 4096" unfolding dec[OF assms(1)] dec[OF assms(2)] by simp
  next
    assume "x div 4096 = y div 4096"
    then have "x div 2 ^ 12 = y div 2 ^ 12" by simp
    then show "(PDPT_IDX x, PD_IDX x, PT_IDX x) = (PDPT_IDX y, PD_IDX y, PT_IDX y)" by (simp only: inc)
  qed
qed

lemma leaf_frame_user:
  assumes "fr < 2 ^ 52" "fl < 2 ^ 12" "fl AND PAGE_PR \<noteq> 0"
  shows "leaf_frame (4096 * fr OR fl OR PAGE_USR) = Some fr"
proof -
  have "take_bit 12 (fl OR PAGE_USR) = fl OR PAGE_USR"
    using assms(2) by (simp only: take_bit_or take_bit_nat_eq_self) simp
  then have fl: "fl OR PAGE_USR < 2 ^ 12" using take_bit_nat_less_exp[of 12 "fl OR PAGE_USR"] by simp
  have b: "bit (4096 * fr OR (fl OR PAGE_USR)) 0" "bit (4096 * fr OR (fl OR PAGE_USR)) 2"
    using assms(3) unfolding and_pr by (subst ent_bit; simp add: bit_simps bit_numeral_rec)+
  then have "(4096 * fr OR (fl OR PAGE_USR)) AND PAGE_PR \<noteq> 0" "(4096 * fr OR (fl OR PAGE_USR)) AND PAGE_USR \<noteq> 0" unfolding and_pr .
  then show ?thesis unfolding leaf_frame_def or.assoc ent_frame[OF assms(1) fl] by simp
qed

text \<open>A machine after boot, for the witnesses: frame 0 is reserved, every other frame is free.\<close>

definition boot_mm :: mm where
  "boot_mm = \<lparr>at_kpml4 = KBASE, at_kpdpt = KBASE + 4096, at_kpd = KBASE + 8192, at_dir = KBASE + 12288, at_tbls = KBASE + 16384,
     kpml4 = (\<lambda>_. 0), kpdpt = (\<lambda>_. 0), kpd = (\<lambda>_. 0), kheap_dir = (\<lambda>_. 0), kheap_tbls = (\<lambda>_ _. 0),
     phys_bmp = (\<lambda>_. 0)(0 := 1), phys = (\<lambda>_ _. 0), mm_heap = boot_heap, cr3 = 0\<rparr>"

definition no_map :: vm_map where
  "no_map = \<lparr>vm_self = 0, vm_pml4 = 0, vm_pml4_phys = 0, vm_pdpt = 0, vm_pdpt_phys = 0, vm_pds_at = 0, vm_pds = (\<lambda>_. 0),
     vm_phys_pds = (\<lambda>_. 0), vm_pts_at = 0, vm_pts_row = (\<lambda>_. 0), vm_pts = (\<lambda>_ _. 0), vm_areas = kl_create\<rparr>"

lemma boot_used: "used boot_mm k \<longleftrightarrow> k = 0"
proof -
  have "used boot_mm k \<longleftrightarrow> k div 8 = 0 \<and> k mod 8 = 0" by (simp add: used_def boot_mm_def bit_1_iff)
  then show ?thesis by (metis div_mult_mod_eq add_0 mult_0 div_0 mod_0)
qed

lemma boot_mm_ok: "mm_ok boot_mm"
  by (simp add: mm_ok_def boot_used) (simp add: boot_mm_def kheap_ok_def kpr_def dir_pr_def)

lemma boot_free: "free_frames boot_mm = {1..<1600000}" "free_kpages boot_mm = {..<262144}"
  by (auto simp: free_frames_def boot_used free_kpages_def kpr_def) (simp_all add: boot_mm_def)

lemma boot_create:
  "\<exists>m v. mmu_create_vmmap boot_mm no_map = ret (m, v) \<and> vm_part boot_mm 512 m v \<and> roomy (mm_heap m) 30000000 \<and> vm_areas v = kl_create \<and>
     1000000 \<le> card (free_frames m) \<and> 200000 \<le> card (free_kpages m)"
proof -
  have h: "514 \<le> card (free_frames boot_mm)" "514 \<le> card (free_kpages boot_mm)" "roomy (mm_heap boot_mm) (2142472 + 30000000)"
    using roomy_mono[OF boot_heap_roomy] by (simp_all add: boot_free) (simp add: boot_mm_def)
  obtain m v where "mmu_create_vmmap boot_mm no_map = ret (m, v)" "vm_part boot_mm 512 m v" "roomy (mm_heap m) 30000000" "vm_areas v = kl_create"
      "card (free_frames boot_mm) \<le> card (free_frames m) + 514" "card (free_kpages boot_mm) \<le> card (free_kpages m) + 514"
    using mmu_create_vmmap_spec[OF boot_mm_ok h] by blast
  then show ?thesis by (intro exI[of _ m] exI[of _ v]) (simp add: boot_free)
qed

text \<open>
  C21: the frame allocator is a set of frames in use: \<open>mmu_alloc_phys\<close> adds the lowest frame that
  is free and returns its address, or returns 0 when none is; \<open>mmu_free_phys\<close> removes exactly the
  frames of its range. Frame 0, which the boot loader never reports as usable, is never handed out.
\<close>

theorem frame_allocator_is_a_set:
  assumes "used m 0" and "k + n \<le> 8 * BUF_SZ"
  shows "(case mmu_alloc_phys m of
      Inl e \<Rightarrow> False
    | Inr (a, m') \<Rightarrow>
        if free_frames m = {} then a = 0 \<and> m' = m
        else a = 4096 * Min (free_frames m) \<and> {i. used m' i} = insert (Min (free_frames m)) {i. used m i})
    \<and> (\<exists>m'. mmu_free_phys m (4096 * k) n = Inr m' \<and> {i. used m' i} = {i. used m i} - {k..<k + n})"
proof
  show "case mmu_alloc_phys m of
      Inl e \<Rightarrow> False
    | Inr (a, m') \<Rightarrow>
        if free_frames m = {} then a = 0 \<and> m' = m
        else a = 4096 * Min (free_frames m) \<and> {i. used m' i} = insert (Min (free_frames m)) {i. used m i}"
  proof (cases "free_frames m = {}")
    case True
    then show ?thesis using mmu_alloc_phys_full[OF assms(1)] by simp
  next
    case False
    obtain f b where f: "f \<in> free_frames m" "mmu_alloc_phys m = Inr (4096 * f, m\<lparr>phys_bmp := b\<rparr>)"
        "\<forall>i. used (m\<lparr>phys_bmp := b\<rparr>) i \<longleftrightarrow> used m i \<or> i = f" "\<forall>l \<in> free_frames m. f \<le> l"
      using mmu_alloc_phys_spec[OF assms(1) False] by blast
    then have mn: "Min (free_frames m) = f" by (intro Min_eqI) simp_all
    have "{i. used (m\<lparr>phys_bmp := b\<rparr>) i} = insert f {i. used m i}" using f(3) by blast
    then show ?thesis using False unfolding f(2) mn sum.case prod.case by simp
  qed
  obtain b where "mmu_free_phys m (4096 * k) n = Inr (m\<lparr>phys_bmp := b\<rparr>)"
      "\<forall>i. used (m\<lparr>phys_bmp := b\<rparr>) i \<longleftrightarrow> used m i \<and> \<not> (k \<le> i \<and> i < k + n)"
    using mmu_free_phys_spec[OF assms(2), of m] by blast
  moreover from this have "{i. used (m\<lparr>phys_bmp := b\<rparr>) i} = {i. used m i} - {k..<k + n}" by (intro set_eqI) simp
  ultimately show "\<exists>m'. mmu_free_phys m (4096 * k) n = Inr m' \<and> {i. used m' i} = {i. used m i} - {k..<k + n}" by blast
qed

theorem frame_allocator_is_a_set_witness:
  "\<exists>m'. mmu_alloc_phys boot_mm = Inr (4096, m') \<and> {i. used m' i} = {0, 1}"
proof -
  have "Min {1..<1600000::nat} = 1" by (intro Min_eqI) auto
  moreover have "{i. used boot_mm i} = {0}" by (simp add: boot_used)
  ultimately show ?thesis using frame_allocator_is_a_set[of boot_mm 0 0] boot_used
    by (auto simp: boot_free split: sum.splits)
qed

text \<open>
  C22: \<open>mmu_kalloc\<close> returns 0 and changes nothing, or the address of \<open>n\<close> consecutive pages of the
  kernel's range that were all free; these pages are marked, no other page changes, and the range
  does not leave the one gigabyte that the tables cover.
\<close>

theorem mmu_kalloc_contiguous:
  assumes "kheap_ok m" and "0 < n"
  shows "\<exists>a m'. mmu_kalloc m n = Inr (a, m') \<and> kheap_ok m' \<and>
    (a = 0 \<and> m' = m \<or>
     (\<exists>s. a = HEAPBASE + 4096 * s \<and> s + n \<le> 512 * 512 \<and> {s..<s + n} \<subseteq> free_kpages m \<and> free_kpages m' = free_kpages m - {s..<s + n} \<and>
        (\<forall>q<512 * 512. q \<notin> {s..<s + n} \<longrightarrow> kheap_tbls m' (q div 512) (q mod 512) = kheap_tbls m (q div 512) (q mod 512))))"
proof -
  consider "mmu_kalloc m n = Inr (0, m)" | s D where
    "mmu_kalloc m n = Inr (kpage s, m\<lparr>kheap_dir := D, kheap_tbls := mark_range (kheap_tbls m) s n\<rparr>)"
    "s + n \<le> 512 * 512" "\<forall>q. s \<le> q \<and> q < s + n \<longrightarrow> \<not> kpr m q"
    "kheap_ok (m\<lparr>kheap_dir := D, kheap_tbls := mark_range (kheap_tbls m) s n\<rparr>)"
    using mmu_kalloc_spec[OF assms] by blast
  then show ?thesis
  proof cases
    case 1
    then show ?thesis using assms(1) by blast
  next
    case (2 s D)
    define m' where "m' = m\<lparr>kheap_dir := D, kheap_tbls := mark_range (kheap_tbls m) s n\<rparr>"
    have k: "kpr m' q \<longleftrightarrow> kpr m q \<or> s \<le> q \<and> q < s + n" if "q < 512 * 512" for q unfolding m'_def by (rule kpr_mark[OF that])
    have A: "{s..<s + n} \<subseteq> free_kpages m"
    proof
      fix q assume "q \<in> {s..<s + n}"
      then show "q \<in> free_kpages m" using 2(2,3) by (simp add: free_kpages_def)
    qed
    have B: "free_kpages m' = free_kpages m - {s..<s + n}" using k by (auto simp: free_kpages_def)
    have C: "kheap_tbls m' (q div 512) (q mod 512) = kheap_tbls m (q div 512) (q mod 512)" if "q \<notin> {s..<s + n}" for q
      using that by (auto simp: m'_def mark_range_def)
    show ?thesis using 2(1,2,4) A B C unfolding m'_def[symmetric] by blast
  qed
qed

lemma kalloc_scan_empty: "\<forall>i \<in> set is. kheap_dir m i = 0 \<Longrightarrow> kalloc_scan m n is st = None"
  by (induction "is" arbitrary: st) simp_all

lemma boot_kalloc: "\<exists>m'. mmu_kalloc boot_mm 1000 = Inr (HEAPBASE, m')"
proof -
  have s: "kalloc_scan boot_mm 1000 [0..<512] (0, 0, 0) = None" by (rule kalloc_scan_empty) (simp add: boot_mm_def)
  have "[0..<512] = 0 # [Suc 0..<512]" "[Suc 0..<512] = Suc 0 # [Suc (Suc 0)..<512]" by (rule upt_conv_Cons, simp)+
  then have "[0..<512] = 0 # Suc 0 # [Suc (Suc 0)..<512]" by simp
  then have n: "kalloc_new boot_mm 1000 [0..<512] 0 0 = Some 0" by (simp add: boot_mm_def del: upt_rec_numeral)
  obtain m' where "kalloc_mark_new (set_dir boot_mm 0) 0 0 1000 = Inr m'"
    using kalloc_mark_new_spec[of 0 0 1000 "set_dir boot_mm 0"] by simp
  then show ?thesis using s n unfolding mmu_kalloc_def by (simp del: upt_rec_numeral)
qed

theorem mmu_kalloc_contiguous_witness:
  "\<exists>m'. mmu_kalloc boot_mm 1000 = Inr (HEAPBASE, m') \<and> free_kpages m' = {1000..<262144}"
proof -
  obtain m' where m': "mmu_kalloc boot_mm 1000 = Inr (HEAPBASE, m')" using boot_kalloc by blast
  have "kheap_ok boot_mm" using boot_mm_ok by (simp add: mm_ok_def)
  from mmu_kalloc_contiguous[OF this, of 1000] m' obtain s where s: "HEAPBASE = HEAPBASE + 4096 * s"
      "free_kpages m' = free_kpages boot_mm - {s..<s + 1000}" by fastforce
  then have "s = 0" by simp
  then have "free_kpages m' = {..<262144} - {0..<1000}" using s(2) unfolding boot_free by simp
  moreover have "{..<262144} - {0..<1000} = {1000..<262144::nat}" by (intro set_eqI) auto
  ultimately show ?thesis using m' by blast
qed

text \<open>\<open>mmu_map\<close> in terms of the processor's walk.\<close>

lemma mmu_map_walk:
  assumes "mm_ok m" and "vm_ok m v" and "free_frames m \<noteq> {}" and "free_kpages m \<noteq> {}" and "va < 2 ^ 39"
    and "fr < 2 ^ 52" and "fl < 2 ^ 12" and "fl AND PAGE_PR \<noteq> 0"
  shows "\<exists>m' w. mmu_map m v va (4096 * fr) fl = Inr (m', w) \<and> vm_ok m' w \<and> mm_pres (tframes m v) m m' \<and>
    w = v\<lparr>vm_pts := vm_pts w\<rparr> \<and> mmu_virt2phys m' w va = Inr (4096 * fr) \<and>
    (\<forall>x<2 ^ 39. hw_walk m' (vm_pml4_phys w) x =
       (if x div 4096 = va div 4096 then Some (4096 * fr + x mod 4096) else hw_walk m (vm_pml4_phys v) x))"
proof -
  let ?e = "4096 * fr OR fl OR PAGE_USR"
  obtain m' w where r: "mmu_map m v va (4096 * fr) fl = Inr (m', w)" "vm_ok m' w" "mm_pres (tframes m v) m m'" "w = v\<lparr>vm_pts := vm_pts w\<rparr>"
      "\<forall>i<512. \<forall>j<512. \<forall>k. leaf m' w i j k = (if (i, j, k) = (PDPT_IDX va, PD_IDX va, PT_IDX va) then ?e else leaf m v i j k)"
    using mmu_map_spec[OF assms(1-4), of va "4096 * fr" fl] by (elim exE conjE) (rule that; assumption)
  have lf: "leaf m' w (PDPT_IDX x) (PD_IDX x) (PT_IDX x) =
      (if x div 4096 = va div 4096 then ?e else leaf m v (PDPT_IDX x) (PD_IDX x) (PT_IDX x))" if "x < 2 ^ 39" for x
    using r(5) user_page_idx[OF that assms(5)] by simp
  have A: "\<forall>x<2 ^ 39. hw_walk m' (vm_pml4_phys w) x =
       (if x div 4096 = va div 4096 then Some (4096 * fr + x mod 4096) else hw_walk m (vm_pml4_phys v) x)"
    using leaf_frame_user[OF assms(6-8)] by (simp add: hw_walk_leaf[OF r(2)] hw_walk_leaf[OF assms(2)] lf mult.commute)
  have "ent_fr ?e = fr" using leaf_frame_user[OF assms(6-8)] unfolding leaf_frame_ent_fr by (simp split: if_splits)
  then have B: "mmu_virt2phys m' w va = Inr (4096 * fr)"
    unfolding mmu_virt2phys_leaf[OF r(2) assms(5)] lf[OF assms(5)] by (simp add: ent_fr(1))
  show ?thesis by (intro exI[of _ m'] exI[of _ w] conjI r(1-4) A B)
qed

text \<open>
  C8: after \<open>mmu_map\<close> the processor translates every address of the page to the new frame and all
  other user addresses as before; what \<open>mmu_virt2phys\<close> reports agrees with it, and every address
  space that shares no page table with this one translates as before. The addresses are those of
  the lower 512 gigabytes, the only ones that user tables cover.
\<close>

theorem mmu_map_translates:
  assumes "mm_ok m" and "vm_ok m v" and "free_frames m \<noteq> {}" and "free_kpages m \<noteq> {}" and "va < 2 ^ 39"
    and "fr < 2 ^ 52" and "fl < 2 ^ 12" and "fl AND PAGE_PR \<noteq> 0"
  shows "\<exists>m' w. mmu_map m v va (4096 * fr) fl = Inr (m', w) \<and> mm_ok m' \<and> vm_ok m' w \<and>
    (\<forall>x<2 ^ 39. hw_walk m' (vm_pml4_phys w) x =
       (if x div 4096 = va div 4096 then Some (4096 * fr + x mod 4096) else hw_walk m (vm_pml4_phys v) x)) \<and>
    mmu_virt2phys m' w va = Inr (4096 * fr) \<and>
    (\<forall>u. vm_ok m u \<and> tframe m u ` tbls u \<inter> tframe m v ` tbls v = {} \<longrightarrow> vm_ok m' u \<and>
       (\<forall>x<2 ^ 39. hw_walk m' (vm_pml4_phys u) x = hw_walk m (vm_pml4_phys u) x))"
proof -
  obtain m' w where r: "mmu_map m v va (4096 * fr) fl = Inr (m', w)" "vm_ok m' w" "mm_pres (tframes m v) m m'" "mmu_virt2phys m' w va = Inr (4096 * fr)"
      "\<forall>x<2 ^ 39. hw_walk m' (vm_pml4_phys w) x =
         (if x div 4096 = va div 4096 then Some (4096 * fr + x mod 4096) else hw_walk m (vm_pml4_phys v) x)"
    using mmu_map_walk[OF assms] by (elim exE conjE) (rule that; assumption)
  have "vm_ok m' u \<and> (\<forall>x<2 ^ 39. hw_walk m' (vm_pml4_phys u) x = hw_walk m (vm_pml4_phys u) x)"
    if u: "vm_ok m u" "tframes m u \<inter> tframes m v = {}" for u
  proof -
    have "tframes m v \<inter> tframes m u = {}" using u(2) by blast
    note p = vm_ok_pres[OF u(1) r(3) this]
    show ?thesis using p(1,3) by (simp add: hw_walk_leaf[OF p(1)] hw_walk_leaf[OF u(1)])
  qed
  moreover have "mm_ok m'" using r(3) by (simp add: mm_pres_def)
  ultimately show ?thesis using r by blast
qed

lemma boot_map:
  "\<exists>m0 v0. mmu_create_vmmap boot_mm no_map = ret (m0, v0) \<and> mm_ok m0 \<and> vm_ok m0 v0 \<and> vm_areas v0 = kl_create \<and> free_frames m0 \<noteq> {} \<and> free_kpages m0 \<noteq> {} \<and>
     (\<forall>x<2 ^ 39. hw_walk m0 (vm_pml4_phys v0) x = None)"
proof -
  obtain m v where c: "mmu_create_vmmap boot_mm no_map = ret (m, v)" "vm_part boot_mm 512 m v" "vm_areas v = kl_create"
      "1000000 \<le> card (free_frames m)" "200000 \<le> card (free_kpages m)"
    using boot_create by blast
  have "free_frames m \<noteq> {}" "free_kpages m \<noteq> {}" using c(4,5) by auto
  moreover have "hw_walk m (vm_pml4_phys v) x = None" if "x < 2 ^ 39" for x
    using hw_walk_leaf[OF vm_part_ok(1)[OF c(2)] that] vm_part_ok(3)[OF c(2)] by (simp add: leaf_frame_def)
  ultimately show ?thesis using c vm_part_ok(1)[OF c(2)] by (auto simp: vm_part_def)
qed

theorem mmu_map_translates_witness:
  "\<exists>m0 v0 m v. mmu_create_vmmap boot_mm no_map = ret (m0, v0) \<and> mmu_map m0 v0 0x400000 (4096 * 1234) 3 = Inr (m, v) \<and>
     hw_walk m (vm_pml4_phys v) 0x400123 = Some (4096 * 1234 + 0x123) \<and> hw_walk m (vm_pml4_phys v) 0x401123 = None"
proof -
  obtain m v where b: "mmu_create_vmmap boot_mm no_map = ret (m, v)" "mm_ok m" "vm_ok m v" "free_frames m \<noteq> {}" "free_kpages m \<noteq> {}"
      "\<forall>x<2 ^ 39. hw_walk m (vm_pml4_phys v) x = None" using boot_map by blast
  have "(3::nat) AND PAGE_PR \<noteq> 0" by simp
  from mmu_map_translates[OF b(2-5), where va = "0x400000" and fr = 1234 and fl = 3] this obtain m' w where
    w: "mmu_map m v 0x400000 (4096 * 1234) 3 = Inr (m', w)"
      "\<forall>x<2 ^ 39. hw_walk m' (vm_pml4_phys w) x = (if x div 4096 = 0x400000 div 4096 then Some (4096 * 1234 + x mod 4096) else hw_walk m (vm_pml4_phys v) x)"
    by auto
  then show ?thesis using b(1,6) by (intro exI[of _ m] exI[of _ v] exI[of _ m'] exI[of _ w]) simp
qed

lemma copied_leaf_frame:
  assumes "copied m m' w e e'"
  shows "case leaf_frame e of None \<Rightarrow> leaf_frame e' = None
    | Some g \<Rightarrow> \<exists>f. leaf_frame e' = Some f \<and> phys m' f = phys m g \<and> \<not> used m f \<and> used m' f"
proof (cases "leaf_frame e")
  case None
  then have "e' = 0" using assms by (simp add: copied_def)
  then show ?thesis using None by (simp add: leaf_frame_def)
next
  case (Some g)
  then obtain f where f: "e' = (e AND 0xfff) OR 4096 * f" "f < 2 ^ 52" "\<not> used m f" "used m' f" "phys m' f = phys m g"
    using assms by (auto simp: copied_def)
  have fff: "(0xfff::nat) = mask 12" by (simp add: mask_eq_exp_minus_1)
  have bits: "bit e 0" "bit e 2" using Some unfolding leaf_frame_def and_pr by (auto split: if_splits)
  have b: "bit e' i = bit e i" if "i < 12" for i
    using that ent_bit[OF that, of f "e AND 0xfff"] unfolding f(1) fff by (simp add: or.commute bit_simps)
  have "e AND 0xfff < 2 ^ 12" unfolding fff take_bit_eq_mask[symmetric] by (rule take_bit_nat_less_exp)
  then have "e' AND PAGE_FRAME = 4096 * f" using ent_frame[OF f(2)] unfolding f(1) by (simp add: or.commute)
  then have "leaf_frame e' = Some f" using b[of 0] b[of 2] bits unfolding leaf_frame_def and_pr by simp
  then show ?thesis using Some f by auto
qed

text \<open>The copy as a whole: every entry of the source has its copy.\<close>

lemma mmu_clone_vmmap_spec:
  assumes "mm_ok m" and "vm_ok m v" and "vm_user_ok m v" and "roomy (mm_heap m) 2142472"
    and "514 + 513 * card {(i, j). i < 512 \<and> j < 512 \<and> vm_pts v i j \<noteq> 0} \<le> card (free_frames m)"
    and "516 + card {(i, j). i < 512 \<and> j < 512 \<and> vm_pts v i j \<noteq> 0} \<le> card (free_kpages m)"
  shows "\<exists>m' w. mmu_clone_vmmap m junk v = ret (m', w) \<and> clone_inv m m' w \<and>
    (\<forall>i<512. \<forall>j<512. \<forall>k<512. copied m m' w (leaf m v i j k) (leaf m' w i j k))"
proof -
  let ?ps = "List.product [0..<512] [0..<512]"
  have sps: "set ?ps = {..<512} \<times> {..<512}" by (auto simp del: upt_rec_numeral)
  have dps: "distinct ?ps" by (simp add: distinct_product del: upt_rec_numeral)
  have nt: "ntab v ?ps = card {(i, j). i < 512 \<and> j < 512 \<and> vm_pts v i j \<noteq> 0}"
  proof -
    have "ntab v ?ps = card (set (filter (\<lambda>(i, j). vm_pts v i j \<noteq> 0) ?ps))" by (rule distinct_card[symmetric]) (rule distinct_filter[OF dps])
    also have "set (filter (\<lambda>(i, j). vm_pts v i j \<noteq> 0) ?ps) = {(i, j). i < 512 \<and> j < 512 \<and> vm_pts v i j \<noteq> 0}"
      unfolding set_filter sps by auto
    finally show ?thesis .
  qed
  obtain m1 w1 where c: "mmu_create_vmmap m junk = ret (m1, w1)" "vm_part m 512 m1 w1"
      "card (free_frames m) \<le> card (free_frames m1) + 514" "card (free_kpages m) \<le> card (free_kpages m1) + 514"
    using mmu_create_vmmap_spec[OF assms(1), of 0 junk] assms(4-6) by auto
  note part = vm_part_ok[OF c(2)]
  have inv: "clone_inv m m1 w1" using c(2) part(1,2) unfolding clone_inv_def vm_part_def by simp
  have z: "\<forall>(i, j) \<in> set ?ps. vm_pts w1 i j = 0" using c(2) unfolding sps vm_part_def by auto
  have res: "513 * ntab v ?ps \<le> card (free_frames m1)" "ntab v ?ps + 2 \<le> card (free_kpages m1)"
    using c(3,4) assms(5,6) unfolding nt by linarith+
  have sub: "set ?ps \<subseteq> {..<512} \<times> {..<512}" unfolding sps by simp
  obtain m' w where t: "clone_tables m1 w1 v ?ps = Inr (m', w)" "clone_inv m m' w"
      "\<forall>(i, j) \<in> set ?ps. \<forall>k<512. copied m m' w (leaf m v i j k) (leaf m' w i j k)"
    using clone_tables_spec[OF assms(2,3) inv dps sub z res] by (elim exE conjE) (rule that; assumption)
  have run: "mmu_clone_vmmap m junk v = ret (m', w)" unfolding mmu_clone_vmmap_def c(1) using t(1) by simp
  then show ?thesis using t(2,3) unfolding sps by blast
qed

text \<open>
  C2: \<open>fork\<close> copies memory. For an address space whose user pages lie in frames that are in use, and
  with enough frames, kernel pages and heap left, \<open>mmu_clone_vmmap\<close> returns a new address space in
  which exactly the same addresses are mapped, each to a frame that was free before and now holds
  the same bytes; the translations and the contents of the original stay as they were, so neither
  side sees later writes of the other.
\<close>

theorem fork_copies_memory:
  assumes "mm_ok m" and "vm_ok m v" and "vm_user_ok m v" and "roomy (mm_heap m) 2142472"
    and "514 + 513 * card {(i, j). i < 512 \<and> j < 512 \<and> vm_pts v i j \<noteq> 0} \<le> card (free_frames m)"
    and "516 + card {(i, j). i < 512 \<and> j < 512 \<and> vm_pts v i j \<noteq> 0} \<le> card (free_kpages m)"
  shows "\<exists>m' w. mmu_clone_vmmap m junk v = ret (m', w) \<and> mm_ok m' \<and> vm_ok m' v \<and> vm_ok m' w \<and>
    (\<forall>x<2 ^ 39. hw_walk m' (vm_pml4_phys v) x = hw_walk m (vm_pml4_phys v) x \<and>
       (case hw_walk m (vm_pml4_phys v) x of
          None \<Rightarrow> hw_walk m' (vm_pml4_phys w) x = None
        | Some a \<Rightarrow> \<exists>b. hw_walk m' (vm_pml4_phys w) x = Some b \<and> b mod 4096 = a mod 4096 \<and>
            phys m' (b div 4096) = phys m (a div 4096) \<and> phys m' (a div 4096) = phys m (a div 4096) \<and>
            \<not> used m (b div 4096) \<and> used m' (b div 4096)))"
proof -
  obtain m' w where run: "mmu_clone_vmmap m junk v = ret (m', w)" and t: "clone_inv m m' w"
      "\<forall>i<512. \<forall>j<512. \<forall>k<512. copied m m' w (leaf m v i j k) (leaf m' w i j k)"
    using mmu_clone_vmmap_spec[OF assms] by blast
  have i': "mm_ok m'" "vm_ok m' w" "mm_pres {} m m'" using t(1) by (simp_all add: clone_inv_def)
  note src = clone_inv_src[OF t(1) assms(2)]
  show ?thesis
  proof (intro exI[of _ m'] exI[of _ w] conjI run i'(1,2) src(1) allI impI)
    fix x :: nat assume x: "x < 2 ^ 39"
    let ?i = "PDPT_IDX x" let ?j = "PD_IDX x" let ?k = "PT_IDX x"
    show "hw_walk m' (vm_pml4_phys v) x = hw_walk m (vm_pml4_phys v) x"
      unfolding hw_walk_leaf[OF src(1) x] hw_walk_leaf[OF assms(2) x] using src(3) by simp
    have cp: "copied m m' w (leaf m v ?i ?j ?k) (leaf m' w ?i ?j ?k)" using t(2) by simp
    show "case hw_walk m (vm_pml4_phys v) x of
          None \<Rightarrow> hw_walk m' (vm_pml4_phys w) x = None
        | Some a \<Rightarrow> \<exists>b. hw_walk m' (vm_pml4_phys w) x = Some b \<and> b mod 4096 = a mod 4096 \<and>
            phys m' (b div 4096) = phys m (a div 4096) \<and> phys m' (a div 4096) = phys m (a div 4096) \<and>
            \<not> used m (b div 4096) \<and> used m' (b div 4096)"
      unfolding hw_walk_leaf[OF i'(2) x] hw_walk_leaf[OF assms(2) x]
    proof (cases "leaf_frame (leaf m v ?i ?j ?k)")
      case None
      then show "case map_option (\<lambda>f. f * 4096 + x mod 4096) (leaf_frame (leaf m v ?i ?j ?k)) of
          None \<Rightarrow> map_option (\<lambda>f. f * 4096 + x mod 4096) (leaf_frame (leaf m' w ?i ?j ?k)) = None
        | Some a \<Rightarrow> \<exists>b. map_option (\<lambda>f. f * 4096 + x mod 4096) (leaf_frame (leaf m' w ?i ?j ?k)) = Some b \<and> b mod 4096 = a mod 4096 \<and>
            phys m' (b div 4096) = phys m (a div 4096) \<and> phys m' (a div 4096) = phys m (a div 4096) \<and>
            \<not> used m (b div 4096) \<and> used m' (b div 4096)" using copied_leaf_frame[OF cp] by simp
    next
      case (Some g)
      then have "g \<in> user_frames m v" unfolding user_frames_def by (auto intro: idx_less)
      then have "phys m' g = phys m g" using assms(3) i'(3) unfolding vm_user_ok_def mm_pres_def by blast
      then show "case map_option (\<lambda>f. f * 4096 + x mod 4096) (leaf_frame (leaf m v ?i ?j ?k)) of
          None \<Rightarrow> map_option (\<lambda>f. f * 4096 + x mod 4096) (leaf_frame (leaf m' w ?i ?j ?k)) = None
        | Some a \<Rightarrow> \<exists>b. map_option (\<lambda>f. f * 4096 + x mod 4096) (leaf_frame (leaf m' w ?i ?j ?k)) = Some b \<and> b mod 4096 = a mod 4096 \<and>
            phys m' (b div 4096) = phys m (a div 4096) \<and> phys m' (a div 4096) = phys m (a div 4096) \<and>
            \<not> used m (b div 4096) \<and> used m' (b div 4096)" using copied_leaf_frame[OF cp] Some by auto
    qed
  qed
qed

text \<open>The new address space with frame 0 mapped at the address \<open>0x400000\<close>.\<close>

lemma boot_mapped:
  "\<exists>m0 v0 m v. mmu_create_vmmap boot_mm no_map = ret (m0, v0) \<and> mmu_map m0 v0 0x400000 0 3 = Inr (m, v) \<and> mm_ok m \<and> vm_ok m v \<and>
     vm_user_ok m v \<and> roomy (mm_heap m) 30000000 \<and> 999999 \<le> card (free_frames m) \<and> 199999 \<le> card (free_kpages m) \<and>
     card {(i, j). i < 512 \<and> j < 512 \<and> vm_pts v i j \<noteq> 0} \<le> 1 \<and> hw_walk m (vm_pml4_phys v) 0x400000 = Some 0"
proof -
  obtain m0 v0 where c: "mmu_create_vmmap boot_mm no_map = ret (m0, v0)" "vm_part boot_mm 512 m0 v0" "roomy (mm_heap m0) 30000000"
      "1000000 \<le> card (free_frames m0)" "200000 \<le> card (free_kpages m0)"
    using boot_create by blast
  have ne: "free_frames m0 \<noteq> {}" "free_kpages m0 \<noteq> {}" and mm0: "mm_ok m0" using c(2,4,5) by (auto simp: vm_part_def)
  note part = vm_part_ok[OF c(2)]
  obtain m v f q where r: "mmu_map m0 v0 0x400000 0 3 = Inr (m, v)" "vm_ok m v" "mm_pres (tframes m0 v0) m0 m" "mm_heap m = mm_heap m0"
      "tframes m v \<subseteq> tframes m0 v0 \<union> free_frames m0"
      "\<forall>i j. (i, j) \<noteq> (PDPT_IDX 0x400000, PD_IDX 0x400000) \<longrightarrow> vm_pts v i j = vm_pts v0 i j"
      "free_frames m0 - {f} \<subseteq> free_frames m" "free_kpages m0 - {q} \<subseteq> free_kpages m"
      "\<forall>i<512. \<forall>j<512. \<forall>k. leaf m v i j k = (if (i, j, k) = (PDPT_IDX 0x400000, PD_IDX 0x400000, PT_IDX 0x400000) then 0 OR 3 OR PAGE_USR else leaf m0 v0 i j k)"
    using mmu_map_spec[OF mm0 part(1) ne, of "0x400000" 0 3] by (elim exE conjE) (rule that; assumption)
  have lf: "leaf m v i j k = (if (i, j, k) = (PDPT_IDX 0x400000, PD_IDX 0x400000, PT_IDX 0x400000) then 7 else 0)" if "i < 512" "j < 512" for i j k
    using r(9) part(3) that by simp
  have l7: "leaf_frame 7 = Some 0" "leaf_frame 0 = None" by (simp_all add: leaf_frame_def)
  have u0: "used boot_mm 0" by (simp add: boot_used)
  have "0 \<notin> tframes m v"
  proof -
    have "0 \<notin> tframes m0 v0" using c(2) u0 unfolding part(2) vm_part_def by auto
    then show ?thesis using r(5) by (auto simp: free_frames_def)
  qed
  moreover have "used m 0" using c(2) u0 r(3) unfolding vm_part_def mm_pres_def by blast
  moreover have "user_frames m v \<subseteq> {0}" using lf l7 by (auto simp: user_frames_def split: if_splits)
  ultimately have A: "vm_user_ok m v" by (auto simp: vm_user_ok_def)
  have B: "999999 \<le> card (free_frames m)" "199999 \<le> card (free_kpages m)"
  proof -
    have "card (free_frames m0 - {f}) \<le> card (free_frames m)" "card (free_kpages m0 - {q}) \<le> card (free_kpages m)"
      using r(7,8) by (simp_all add: card_mono)
    moreover have "card (free_frames m0) - 1 \<le> card (free_frames m0 - {f})" "card (free_kpages m0) - 1 \<le> card (free_kpages m0 - {q})"
      by (simp_all add: diff_card_le_card_Diff[of "{_}", simplified])
    ultimately show "999999 \<le> card (free_frames m)" "199999 \<le> card (free_kpages m)" using c(4,5) by linarith+
  qed
  define ij where "ij = (PDPT_IDX 0x400000, PD_IDX 0x400000)"
  have z: "vm_pts v0 i j = 0" if "i < 512" for i j using c(2) that by (simp add: vm_part_def)
  have "vm_pts v i j = 0" if "i < 512" "(i, j) \<noteq> ij" for i j using z[OF that(1)] r(6) that(2) unfolding ij_def by metis
  then have "{(i, j). i < 512 \<and> j < 512 \<and> vm_pts v i j \<noteq> 0} \<subseteq> {ij}" by (auto, metis less_irrefl)
  then have C: "card {(i, j). i < 512 \<and> j < 512 \<and> vm_pts v i j \<noteq> 0} \<le> 1" using card_mono[of "{ij}"] by fastforce
  have D: "hw_walk m (vm_pml4_phys v) 0x400000 = Some 0"
    using lf[OF idx_less(1,2), of "0x400000" "0x400000"] l7 by (subst hw_walk_leaf[OF r(2)]) simp_all
  have E: "mm_ok m" "roomy (mm_heap m) 30000000" using r(3,4) c(3) by (simp_all add: mm_pres_def)
  show ?thesis by (intro exI[of _ m0] exI[of _ v0] exI[of _ m] exI[of _ v] conjI c(1) r(1,2) A B C D E)
qed

lemma boot_clone:
  "\<exists>m0 v0 m v m' w. mmu_create_vmmap boot_mm no_map = ret (m0, v0) \<and> mmu_map m0 v0 0x400000 0 3 = Inr (m, v) \<and> mmu_clone_vmmap m no_map v = ret (m', w)"
proof -
  obtain m0 v0 m v where h: "mmu_create_vmmap boot_mm no_map = ret (m0, v0)" "mmu_map m0 v0 0x400000 0 3 = Inr (m, v)" "mm_ok m" "vm_ok m v"
     "vm_user_ok m v" "roomy (mm_heap m) 30000000" "999999 \<le> card (free_frames m)" "199999 \<le> card (free_kpages m)"
     "card {(i, j). i < 512 \<and> j < 512 \<and> vm_pts v i j \<noteq> 0} \<le> 1"
    using boot_mapped by blast
  have rm: "roomy (mm_heap m) 2142472" by (rule roomy_mono[OF h(6)]) simp
  have res: "514 + 513 * card {(i, j). i < 512 \<and> j < 512 \<and> vm_pts v i j \<noteq> 0} \<le> card (free_frames m)"
    "516 + card {(i, j). i < 512 \<and> j < 512 \<and> vm_pts v i j \<noteq> 0} \<le> card (free_kpages m)" using h(7-9) by linarith+
  show ?thesis using mmu_clone_vmmap_spec[OF h(3-5) rm res, of no_map] h(1,2) by blast
qed

theorem fork_copies_memory_witness:
  "\<exists>m0 v0 m v m' w b. mmu_create_vmmap boot_mm no_map = ret (m0, v0) \<and> mmu_map m0 v0 0x400000 0 3 = Inr (m, v) \<and>
     mmu_clone_vmmap m no_map v = ret (m', w) \<and> hw_walk m' (vm_pml4_phys w) 0x400000 = Some b \<and>
     phys m' (b div 4096) = phys m 0 \<and> \<not> used m (b div 4096)"
proof -
  obtain m0 v0 m v where h: "mmu_create_vmmap boot_mm no_map = ret (m0, v0)" "mmu_map m0 v0 0x400000 0 3 = Inr (m, v)" "mm_ok m" "vm_ok m v"
     "vm_user_ok m v" "roomy (mm_heap m) 30000000" "999999 \<le> card (free_frames m)" "199999 \<le> card (free_kpages m)"
     "card {(i, j). i < 512 \<and> j < 512 \<and> vm_pts v i j \<noteq> 0} \<le> 1" "hw_walk m (vm_pml4_phys v) 0x400000 = Some 0"
    using boot_mapped by blast
  have rm: "roomy (mm_heap m) 2142472" by (rule roomy_mono[OF h(6)]) simp
  have res: "514 + 513 * card {(i, j). i < 512 \<and> j < 512 \<and> vm_pts v i j \<noteq> 0} \<le> card (free_frames m)"
    "516 + card {(i, j). i < 512 \<and> j < 512 \<and> vm_pts v i j \<noteq> 0} \<le> card (free_kpages m)" using h(7-9) by linarith+
  obtain m' w where f: "mmu_clone_vmmap m no_map v = ret (m', w)"
    "\<forall>x<2 ^ 39. hw_walk m' (vm_pml4_phys v) x = hw_walk m (vm_pml4_phys v) x \<and>
       (case hw_walk m (vm_pml4_phys v) x of
          None \<Rightarrow> hw_walk m' (vm_pml4_phys w) x = None
        | Some a \<Rightarrow> \<exists>b. hw_walk m' (vm_pml4_phys w) x = Some b \<and> b mod 4096 = a mod 4096 \<and>
            phys m' (b div 4096) = phys m (a div 4096) \<and> phys m' (a div 4096) = phys m (a div 4096) \<and>
            \<not> used m (b div 4096) \<and> used m' (b div 4096))"
    using fork_copies_memory[OF h(3-5) rm res, of no_map] by blast
  have "(0x400000::nat) < 2 ^ 39" by simp
  with f(2) have "case hw_walk m (vm_pml4_phys v) 0x400000 of
          None \<Rightarrow> hw_walk m' (vm_pml4_phys w) 0x400000 = None
        | Some a \<Rightarrow> \<exists>b. hw_walk m' (vm_pml4_phys w) 0x400000 = Some b \<and> b mod 4096 = a mod 4096 \<and>
            phys m' (b div 4096) = phys m (a div 4096) \<and> phys m' (a div 4096) = phys m (a div 4096) \<and>
            \<not> used m (b div 4096) \<and> used m' (b div 4096)" by blast
  then obtain b where "hw_walk m' (vm_pml4_phys w) 0x400000 = Some b" "phys m' (b div 4096) = phys m 0" "\<not> used m (b div 4096)"
    unfolding h(10) by auto
  then show ?thesis using h(1,2) f(1) by blast
qed

end
