(* ===== verification/Vmarea.thy ===== *)
theory Vmarea
  imports Pagetable Fsys
begin

text \<open>
  The areas of an address space and the system calls on memory: the second half of
  \<^verbatim>\<open>kernel/arch/amd64/amd64/mmu.c\<close> from \<open>vm_area_create\<close> on, \<^verbatim>\<open>kernel/kern/mm/mmap.c\<close>, and the
  operations \<^verbatim>\<open>mmap\<close> of the framebuffer (\<^verbatim>\<open>fbdev.c\<close>) and of the text console (\<^verbatim>\<open>vga.c\<close>).

  The list of areas is kept sorted and disjoint by a first-fit search; a fault on a page of an
  anonymous area gets a frame. The lemmas show where the search puts a new area, what the calls
  take from the kernel heap, and what a fault changes in the translation that the processor sees.
\<close>

unbundle bit_operations_syntax

subsection \<open>The list of areas\<close>

text \<open>
  A pointer to an area is its position in the list: the code uses the pointer that it gets only
  until the list changes again. \<open>None\<close> is the null pointer.
\<close>

abbreviation (input) sizeof_area :: nat where "sizeof_area \<equiv> 24"
abbreviation (input) sizeof_lnode :: nat where "sizeof_lnode \<equiv> 24"
abbreviation (input) sizeof_anon_vmo :: nat where "sizeof_anon_vmo \<equiv> 16"
abbreviation (input) sizeof_inode_vmo :: nat where "sizeof_inode_vmo \<equiv> 32"

type_synonym space = "mm \<times> vm_map"

definition vm_area_create :: "mm \<Rightarrow> addr \<Rightarrow> addr \<Rightarrow> vm_object option \<Rightarrow> (vm_area \<times> mm) run" where
  "vm_area_create m base fin obj =
     bindR (mm_kmalloc m sizeof_area) (\<lambda>(p, m).
       if p = 0 then Some (Inl BadAccess) else ret (\<lparr>va_base = base, va_end = fin, va_obj = obj\<rparr>, m))"

text \<open>\<open>list_insert_before\<close> and \<open>list_enqueue\<close> on the areas, with the node they allocate.\<close>

definition area_insert :: "space \<Rightarrow> nat \<Rightarrow> vm_area \<Rightarrow> (nat option \<times> space) run" where
  "area_insert s i a =
     (case s of (m, v) \<Rightarrow>
        bindR (mm_kmalloc m sizeof_lnode) (\<lambda>(p, m).
        bindR (Some (if p = 0 then Inl BadAccess else kl_insert_before (vm_areas v) i a)) (\<lambda>l.
          ret (Some i, m, v\<lparr>vm_areas := l\<rparr>))))"

definition area_enqueue :: "space \<Rightarrow> vm_area \<Rightarrow> (nat option \<times> space) run" where
  "area_enqueue s a =
     (case s of (m, v) \<Rightarrow>
        bindR (mm_kmalloc m sizeof_lnode) (\<lambda>(p, m).
          if p = 0 then Some (Inl BadAccess)
          else ret (Some (length (kl_items (vm_areas v))), m, v\<lparr>vm_areas := kl_enqueue (vm_areas v) a\<rparr>)))"

definition intersects :: "vm_area \<Rightarrow> addr \<Rightarrow> addr \<Rightarrow> bool" where
  "intersects a base fin \<longleftrightarrow>
     base \<ge> va_base a \<and> base < va_end a \<or> fin > va_base a \<and> fin \<le> va_end a \<or> base < va_base a \<and> fin > va_end a"

text \<open>The loop of \<open>vm_map_alloc\<close>: the range it ends with, and the position to insert before if it stops early.\<close>

fun alloc_loop :: "nat \<Rightarrow> vm_area list \<Rightarrow> nat \<Rightarrow> addr \<Rightarrow> addr \<Rightarrow> nat option \<times> addr \<times> addr" where
  "alloc_loop sz [] i base fin = (None, base, fin)"
| "alloc_loop sz (a # as) i base fin =
     (if va_base a \<ge> fin then (Some i, base, fin)
      else if intersects a base fin then alloc_loop sz as (i + 1) (va_end a) (add64 (va_end a) sz)
      else alloc_loop sz as (i + 1) base fin)"

definition vm_map_alloc :: "space \<Rightarrow> nat \<Rightarrow> (nat option \<times> space) run" where
  "vm_map_alloc s sz =
     (case s of (m, v) \<Rightarrow>
        (case alloc_loop sz (kl_items (vm_areas v)) 0 PAGE4K (add64 PAGE4K sz) of
           (Some i, base, fin) \<Rightarrow> bindR (vm_area_create m base fin None) (\<lambda>(a, m). area_insert (m, v) i a)
         | (None, base, fin) \<Rightarrow>
             if fin < KBASE then bindR (vm_area_create m base fin None) (\<lambda>(a, m). area_enqueue (m, v) a)
             else ret (None, s)))"

datatype place = Taken | Before nat | AtEnd

fun allocat_loop :: "addr \<Rightarrow> addr \<Rightarrow> vm_area list \<Rightarrow> nat \<Rightarrow> place" where
  "allocat_loop base fin [] i = AtEnd"
| "allocat_loop base fin (a # as) i =
     (if intersects a base fin then Taken
      else if va_end a \<le> base then allocat_loop base fin as (i + 1)
      else if va_base a \<ge> fin then Before i
      else allocat_loop base fin as i)"

definition vm_map_allocat :: "space \<Rightarrow> addr \<Rightarrow> nat \<Rightarrow> (nat option \<times> space) run" where
  "vm_map_allocat s base sz =
     (case s of (m, v) \<Rightarrow>
        let fin = add64 base sz; l = vm_areas v in
        case allocat_loop base fin (kl_items l) 0 of
          Taken \<Rightarrow> ret (None, s)
        | Before i \<Rightarrow> bindR (vm_area_create m base fin None) (\<lambda>(a, m). area_insert (m, v) i a)
        | AtEnd \<Rightarrow>
            bindR (Some (if kl_size l = 0 then Inr True else bindS (kl_back l) (\<lambda>b. Inr (va_end b \<le> base)))) (\<lambda>fits.
              if fits then bindR (vm_area_create m base fin None) (\<lambda>(a, m). area_enqueue (m, v) a)
              else ret (None, s)))"

definition alloc_vmarea :: "space \<Rightarrow> addr \<Rightarrow> nat \<Rightarrow> bool \<Rightarrow> (nat option \<times> space) run" where
  "alloc_vmarea s base sz fixed =
     (if base \<noteq> 0 then
        bindR (vm_map_allocat s base sz) (\<lambda>(area, s).
          if area \<noteq> None then ret (area, s)
          else if fixed then ret (None, s) else vm_map_alloc s sz)
      else vm_map_alloc s sz)"

subsection \<open>Mappings\<close>

definition area_at :: "space \<Rightarrow> nat option \<Rightarrow> vm_area res" where
  "area_at s area = (case area of None \<Rightarrow> Inl BadAccess | Some i \<Rightarrow> kl_get (vm_areas (snd s)) i)"

definition area_set_obj :: "space \<Rightarrow> nat option \<Rightarrow> vm_object \<Rightarrow> space res" where
  "area_set_obj s area obj =
     bindS (area_at s area) (\<lambda>a.
       Inr (fst s, (snd s)\<lparr>vm_areas := (vm_areas (snd s))\<lparr>kl_items :=
                      (kl_items (vm_areas (snd s)))[the area := a\<lparr>va_obj := Some obj\<rparr>]\<rparr>\<rparr>))"

text \<open>An array of \<open>8 * size / 4096\<close> bytes.\<close>

definition pages_alloc :: "mm \<Rightarrow> nat \<Rightarrow> (addr \<times> addr option list \<times> mm) run" where
  "pages_alloc m sz =
     (let bytes = mul64 8 sz div PAGE4K in
      bindR (mm_kmalloc m bytes) (\<lambda>(p, m). ret (p, replicate (bytes div 8) None, m)))"

definition vm_map_anon :: "space \<Rightarrow> addr \<Rightarrow> nat \<Rightarrow> bool \<Rightarrow> (nat option \<times> space) run" where
  "vm_map_anon s base sz fixed =
     bindR (alloc_vmarea s base sz fixed) (\<lambda>(area, m, v).
     bindR (mm_kmalloc m sizeof_anon_vmo) (\<lambda>(obj, m).
       if obj = 0 then Some (Inl BadAccess)
       else
         bindR (pages_alloc m sz) (\<lambda>(p, pages, m).
         bindR (Some (area_set_obj (m, v) area (AnonVmo p pages))) (\<lambda>s. ret (area, s)))))"

text \<open>
  \<open>op\<close> is the \<^verbatim>\<open>mmap\<close> entry of the operations of the file, \<open>ino\<close> its inode. The operation gets the
  area, or null.
\<close>

type_synonym mmap_op = "space \<Rightarrow> vm_area option \<Rightarrow> (int \<times> space) res"

definition vm_map_file :: "space \<Rightarrow> addr \<Rightarrow> nat \<Rightarrow> bool \<Rightarrow> mmap_op option \<Rightarrow> nat \<Rightarrow> (nat option \<times> space) run" where
  "vm_map_file s base sz fixed op ino =
     (let sz = page_round sz in
      bindR (alloc_vmarea s base sz fixed) (\<lambda>(area, s).
      case op of
        None \<Rightarrow> ret (None, s)
      | Some f \<Rightarrow>
          bindR (Some (bindS (case area of None \<Rightarrow> Inr None | Some i \<Rightarrow> bindS (area_at s area) (\<lambda>a. Inr (Some a))) (f s))) (\<lambda>(_, m, v).
          bindR (mm_kmalloc m sizeof_inode_vmo) (\<lambda>(obj, m).
            if obj = 0 then Some (Inl BadAccess)
            else
              bindR (pages_alloc m sz) (\<lambda>(p, pages, m).
              bindR (Some (area_set_obj (m, v) area (InodeVmo p pages ino))) (\<lambda>s. ret (area, s)))))))"

text \<open>The framebuffer and the text console map their memory page by page.\<close>

fun map_device :: "space \<Rightarrow> addr \<Rightarrow> addr \<Rightarrow> nat list \<Rightarrow> space res" where
  "map_device s base ph [] = Inr s"
| "map_device s base ph (i # is) =
     bindS (mmu_map (fst s) (snd s) (add64 base (i * PAGE4K)) (add64 ph (i * PAGE4K)) (PAGE_PR OR PAGE_RW OR PAGE_USR)) (\<lambda>s.
       map_device s base ph is)"

definition fb_mmap :: "addr \<Rightarrow> mmap_op" where
  "fb_mmap ph s area =
     (case area of
        None \<Rightarrow> Inl BadAccess
      | Some a \<Rightarrow> bindS (map_device s (va_base a) ph [0..<sub64 (va_end a) (va_base a) div PAGE4K]) (\<lambda>s. Inr (0, s)))"

definition vga_mmap :: mmap_op where
  "vga_mmap = fb_mmap 0xb8000"

text \<open>
  A store to the array of an anonymous object. Reached with an object of another kind the cast
  would make it a store into the inode.
\<close>

definition page_put :: "space \<Rightarrow> nat \<Rightarrow> nat \<Rightarrow> addr \<Rightarrow> space res" where
  "page_put s area i ph =
     bindS (area_at s (Some area)) (\<lambda>a.
       case va_obj a of
         None \<Rightarrow> Inl BadAccess
       | Some (InodeVmo p pages ino) \<Rightarrow> Inl Overrun
       | Some (AnonVmo p pages) \<Rightarrow>
           if p = 0 then Inl BadAccess
           else if i \<ge> length pages then Inl Overrun
           else area_set_obj s (Some area) (AnonVmo p (pages[i := Some ph])))"

fun anon_alloc_loop :: "space \<Rightarrow> nat \<Rightarrow> addr \<Rightarrow> nat list \<Rightarrow> space res" where
  "anon_alloc_loop s area base [] = Inr s"
| "anon_alloc_loop s area base (i # is) =
     bindS (mmu_alloc_phys (fst s)) (\<lambda>(ph, m).
     bindS (page_put (m, snd s) area i ph) (\<lambda>s.
     bindS (mmu_map (fst s) (snd s) (add64 (i * PAGE4K) base) ph (PAGE_PR OR PAGE_RW)) (\<lambda>s.
       anon_alloc_loop s area base is)))"

definition vm_map_anon_alloc :: "space \<Rightarrow> nat option \<Rightarrow> addr \<Rightarrow> nat \<Rightarrow> space res" where
  "vm_map_anon_alloc s area base sz =
     bindS (area_at s area) (\<lambda>a.
       let base = sub64 base (va_base a) in
       anon_alloc_loop s (the area) (va_base a) [base div PAGE4K ..< add64 base sz div PAGE4K])"

subsection \<open>Page faults\<close>

fun fault_loop :: "vm_area list \<Rightarrow> addr \<Rightarrow> nat \<Rightarrow> (nat \<times> vm_area) option res" where
  "fault_loop [] addr i = Inr None"
| "fault_loop (a # as) addr i =
     (if addr \<ge> va_base a \<and> add64 addr PAGE4K \<le> va_end a then
        (case va_obj a of
           None \<Rightarrow> Inl BadAccess
         | Some (AnonVmo p pages) \<Rightarrow> Inr (Some (i, a))
         | Some (InodeVmo p pages ino) \<Rightarrow> fault_loop as addr (i + 1))
      else fault_loop as addr (i + 1))"

definition vm_map_handle_fault :: "space \<Rightarrow> addr \<Rightarrow> (int \<times> space) res" where
  "vm_map_handle_fault s va =
     (let va = va - va mod PAGE4K in
      bindS (fault_loop (kl_items (vm_areas (snd s))) va 0) (\<lambda>hit.
      case hit of
        None \<Rightarrow> Inr (-1, s)
      | Some (n, a) \<Rightarrow>
          bindS (mmu_alloc_phys (fst s)) (\<lambda>(ph, m).
          bindS (page_put (m, snd s) n ((va - va_base a) div PAGE4K mod 2 ^ 32) ph) (\<lambda>s.
          bindS (mmu_map (fst s) (snd s) va ph (PAGE_PR OR PAGE_RW)) (\<lambda>s. Inr (0, s))))))"

text \<open>\<open>vm_map_clear\<close> copies a new address space over the structure: the old tables are lost.\<close>

definition vm_map_clear :: "space \<Rightarrow> vm_map \<Rightarrow> space run" where
  "vm_map_clear s junk =
     bindR (mmu_create_vmmap (fst s) junk) (\<lambda>(m, v). ret (m, v\<lparr>vm_self := vm_self (snd s)\<rparr>))"

subsection \<open>The system calls\<close>

record uspace =
  us_space :: space
  us_brk :: addr

abbreviation (input) MAP_SHARED :: nat where "MAP_SHARED \<equiv> 1"
abbreviation (input) MAP_PRIVATE :: nat where "MAP_PRIVATE \<equiv> 2"
abbreviation (input) MAP_FIXED :: nat where "MAP_FIXED \<equiv> 0x10"
abbreviation (input) MAP_ANONYMOUS :: nat where "MAP_ANONYMOUS \<equiv> 0x20"

abbreviation (input) errval :: "int \<Rightarrow> nat" where "errval e \<equiv> u64_of (- e)"

text \<open>
  The descriptors are those of the process \<open>pr\<close>, and \<open>mops\<close> gives the \<^verbatim>\<open>mmap\<close> entry of each table
  of file operations.
\<close>

definition ksys_do_mmap :: "'w proc \<Rightarrow> (nat \<Rightarrow> mmap_op option) \<Rightarrow> uspace \<Rightarrow> addr \<Rightarrow> nat \<Rightarrow> nat \<Rightarrow> int \<Rightarrow> (nat \<times> uspace) run" where
  "ksys_do_mmap pr mops u va len flags fdno =
     (if len = 0 then ret (errval EINVAL, u)
      else if flags AND MAP_SHARED = 0 \<and> flags AND MAP_PRIVATE = 0 then ret (errval EINVAL, u)
      else if flags AND MAP_ANONYMOUS \<noteq> 0 then
        if flags AND MAP_SHARED \<noteq> 0 then ret (errval EINVAL, u)
        else
          let va = (if va < us_brk u then us_brk u else va) in
          bindR (vm_map_anon (us_space u) va len (flags AND MAP_FIXED \<noteq> 0)) (\<lambda>(area, s).
          bindR (Some (area_at s area)) (\<lambda>a. ret (va_base a, u\<lparr>us_space := s\<rparr>)))
      else if flags AND MAP_SHARED \<noteq> 0 then ret (errval EINVAL, u)
      else if \<not> fdvalid pr fdno then ret (errval EBADF, u)
      else fd_file pr fdno (\<lambda>f.
        if mops (f_ops f) = None then ret (0, u)
        else
          bindR (vm_map_file (us_space u) va len (flags AND MAP_FIXED \<noteq> 0) (mops (f_ops f)) (i_inode (f_inode f))) (\<lambda>(area, s).
          bindR (Some (area_at s area)) (\<lambda>a. ret (va_base a, u\<lparr>us_space := s\<rparr>)))))"

definition sys_mmap :: "'w proc \<Rightarrow> (nat \<Rightarrow> mmap_op option) \<Rightarrow> uspace \<Rightarrow> addr \<Rightarrow> nat \<Rightarrow> nat \<Rightarrow> nat \<Rightarrow> int \<Rightarrow> int \<Rightarrow> (nat \<times> uspace) run" where
  "sys_mmap pr mops u va len prot flags fdno off = ksys_do_mmap pr mops u va len flags fdno"

definition sys_munmap :: "uspace \<Rightarrow> addr \<Rightarrow> nat \<Rightarrow> int \<times> uspace" where
  "sys_munmap u va len =
     (if len = 0 then (- EINVAL, u) else if va mod PAGE4K \<noteq> 0 then (- EINVAL, u) else (0, u))"

definition sys_brk :: "'w proc \<Rightarrow> (nat \<Rightarrow> mmap_op option) \<Rightarrow> uspace \<Rightarrow> addr \<Rightarrow> (nat \<times> uspace) run" where
  "sys_brk pr mops u va =
     (if va = 0 then ret (us_brk u, u)
      else
        bindR (ksys_do_mmap pr mops u (us_brk u) (sub64 va (us_brk u)) (MAP_ANONYMOUS OR MAP_PRIVATE) (-1)) (\<lambda>(_, u).
          ret (va, u\<lparr>us_brk := va\<rparr>)))"

definition sys_mprotect :: "addr \<Rightarrow> nat \<Rightarrow> nat \<Rightarrow> int" where
  "sys_mprotect va len prot = 0"

subsection \<open>Sorted, disjoint areas\<close>

text \<open>The invariant of the list, and the ranges that no area meets.\<close>

definition areas_ok :: "vm_area list \<Rightarrow> bool" where
  "areas_ok as \<longleftrightarrow> sorted_wrt (\<lambda>a b. va_end a \<le> va_base b) as \<and> (\<forall>a \<in> set as. va_base a < va_end a)"

definition free_range :: "vm_area list \<Rightarrow> addr \<Rightarrow> addr \<Rightarrow> bool" where
  "free_range as b f \<longleftrightarrow> (\<forall>a \<in> set as. va_end a \<le> b \<or> f \<le> va_base a)"

text \<open>The position where the areas below the range end and those above it begin.\<close>

definition splits_at :: "vm_area list \<Rightarrow> nat \<Rightarrow> addr \<Rightarrow> addr \<Rightarrow> bool" where
  "splits_at as k b f \<longleftrightarrow> k \<le> length as \<and> (\<forall>a \<in> set (take k as). va_end a \<le> b) \<and> (\<forall>a \<in> set (drop k as). f \<le> va_base a)"

lemma areas_ok_Nil [simp]: "areas_ok []"
  by (simp add: areas_ok_def)

lemma areas_ok_Cons [simp]:
  "areas_ok (a # as) \<longleftrightarrow> va_base a < va_end a \<and> (\<forall>b \<in> set as. va_end a \<le> va_base b) \<and> areas_ok as"
  by (auto simp: areas_ok_def)

lemma intersects_iff:
  "va_base a < va_end a \<Longrightarrow> b < f \<Longrightarrow> intersects a b f \<longleftrightarrow> \<not> (va_end a \<le> b \<or> f \<le> va_base a)"
  by (auto simp: intersects_def)

lemma free_range_Cons [simp]: "free_range (a # as) b f \<longleftrightarrow> (va_end a \<le> b \<or> f \<le> va_base a) \<and> free_range as b f"
  by (simp add: free_range_def)

lemma splits_at_0: "areas_ok (a # as) \<Longrightarrow> f \<le> va_base a \<Longrightarrow> splits_at (a # as) 0 b f"
  by (fastforce simp: splits_at_def)

lemma splits_at_Suc: "splits_at (a # as) (Suc k) b f \<longleftrightarrow> va_end a \<le> b \<and> splits_at as k b f"
  by (auto simp: splits_at_def)

lemma splits_at_Nil [simp]: "splits_at [] k b f \<longleftrightarrow> k = 0"
  by (auto simp: splits_at_def)

lemma splits_at_free: "splits_at as k b f \<Longrightarrow> free_range as b f"
  unfolding splits_at_def free_range_def by (metis Un_iff append_take_drop_id set_append)


text \<open>The search of \<open>vm_map_alloc\<close> finds the lowest range that is free.\<close>

definition lowest :: "vm_area list \<Rightarrow> nat \<Rightarrow> addr \<Rightarrow> addr \<Rightarrow> bool" where
  "lowest as sz base b \<longleftrightarrow> base \<le> b \<and> (\<forall>c. base \<le> c \<and> c < b \<longrightarrow> \<not> free_range as c (c + sz))"

lemma lowest_Cons:
  assumes "lowest as sz base' b" "base \<le> base'" "\<And>c. base \<le> c \<Longrightarrow> c < base' \<Longrightarrow> va_base a < c + sz \<and> c < va_end a"
  shows "lowest (a # as) sz base b"
  unfolding lowest_def
proof (intro conjI allI impI)
  show "base \<le> b" using assms(1,2) by (simp add: lowest_def)
  show "\<not> free_range (a # as) c (c + sz)" if "base \<le> c \<and> c < b" for c
    using assms(1) assms(3)[of c] that by (cases "c < base'") (auto simp: lowest_def not_less)
qed

lemma alloc_loop_spec:
  assumes "areas_ok as" "0 < sz" "fin = base + sz" "\<forall>a \<in> set as. va_end a + sz < 2 ^ 64" "alloc_loop sz as i base fin = (r, b, f)"
  shows "f = b + sz \<and> lowest as sz base b \<and> (\<exists>k. splits_at as k b f \<and> r = (if k < length as then Some (i + k) else None))"
  using assms
proof (induction sz as i base fin rule: alloc_loop.induct)
  case (1 sz i base fin)
  then show ?case by (auto simp: lowest_def)
next
  case (2 sz a as i base fin)
  have a: "va_base a < va_end a" "areas_ok as" "\<forall>a \<in> set as. va_end a + sz < 2 ^ 64" "va_end a + sz < 2 ^ 64" using "2.prems" by auto
  have up: "f = b + sz \<and> lowest (a # as) sz base b \<and> (\<exists>k. splits_at (a # as) k b f \<and> r = (if k < length (a # as) then Some (i + k) else None))"
    if rec: "f = b + sz \<and> lowest as sz base' b \<and> (\<exists>k. splits_at as k b f \<and> r = (if k < length as then Some (i + 1 + k) else None))"
      and step: "base \<le> base'" "va_end a \<le> base'" "\<And>c. base \<le> c \<Longrightarrow> c < base' \<Longrightarrow> va_base a < c + sz \<and> c < va_end a" for base'
  proof -
    obtain k where k: "splits_at as k b f" "r = (if k < length as then Some (i + 1 + k) else None)" using rec by blast
    have "va_end a \<le> b" using rec step(2) by (simp add: lowest_def)
    then have "splits_at (a # as) (Suc k) b f" using k(1) by (simp add: splits_at_Suc)
    then show ?thesis using rec lowest_Cons[OF _ step(1,3)] k(2) by (intro conjI exI[of _ "Suc k"]) auto
  qed
  consider (stop) "fin \<le> va_base a" | (move) "\<not> fin \<le> va_base a" "intersects a base fin" | (skip) "\<not> fin \<le> va_base a" "\<not> intersects a base fin"
    by blast
  then show ?case
  proof cases
    case stop
    then show ?thesis using "2.prems" splits_at_0[OF "2.prems"(1) stop, of base] by (auto simp: lowest_def intro!: exI[of _ 0])
  next
    case move
    then have lt: "base < va_end a" using intersects_iff[OF a(1), of base fin] "2.prems"(2,3) by simp
    have "f = b + sz \<and> lowest as sz (va_end a) b \<and> (\<exists>k. splits_at as k b f \<and> r = (if k < length as then Some (i + 1 + k) else None))"
      by (rule "2.IH"(1)[OF move a(2) "2.prems"(2) add64_small[OF a(4)] a(3)]) (use "2.prems"(5) move in simp)
    then show ?thesis by (rule up) (use lt move(1) "2.prems"(3) in \<open>linarith+\<close>)
  next
    case skip
    then have e: "va_end a \<le> base" using intersects_iff[OF a(1), of base fin] "2.prems"(2,3) by simp
    have "f = b + sz \<and> lowest as sz base b \<and> (\<exists>k. splits_at as k b f \<and> r = (if k < length as then Some (i + 1 + k) else None))"
      by (rule "2.IH"(2)[OF skip a(2) "2.prems"(2,3) a(3)]) (use "2.prems"(5) skip in simp)
    then show ?thesis by (rule up) (use e in \<open>linarith+\<close>)
  qed
qed

lemma alloc_loop_pos: "alloc_loop sz as i base fin = (Some j, b, f) \<Longrightarrow> i \<le> j \<and> j < i + length as"
  by (induction sz as i base fin rule: alloc_loop.induct) (auto split: if_splits)

text \<open>The search of \<open>vm_map_allocat\<close> decides whether the range is free.\<close>

lemma allocat_loop_spec:
  assumes "areas_ok as" "base < fin"
  shows "case allocat_loop base fin as i of
      Taken \<Rightarrow> \<not> free_range as base fin
    | Before j \<Rightarrow> \<exists>k<length as. j = i + k \<and> splits_at as k base fin
    | AtEnd \<Rightarrow> splits_at as (length as) base fin"
  using assms
proof (induction base fin as i rule: allocat_loop.induct)
  case (2 base fin a as i)
  have a: "va_base a < va_end a" "areas_ok as" using "2.prems" by auto
  note i = intersects_iff[OF a(1) "2.prems"(2)]
  show ?case
  proof (cases "va_end a \<le> base")
    case True
    then have n: "\<not> intersects a base fin" using i by simp
    note IH = "2.IH"(1)[OF n True a(2) "2.prems"(2)]
    show ?thesis
    proof (cases "allocat_loop base fin as (i + 1)")
      case (Before j)
      then obtain k where "k < length as" "j = i + 1 + k" "splits_at as k base fin" using IH by auto
      then show ?thesis using n True Before by (auto simp: splits_at_Suc intro!: exI[of _ "Suc k"])
    qed (use IH n True in \<open>auto simp: splits_at_Suc\<close>)
  next
    case False
    then show ?thesis using i splits_at_0[OF "2.prems"(1), of fin base] by (auto simp: not_le)
  qed
qed simp

lemma allocat_loop_pos: "allocat_loop base fin as i = Before j \<Longrightarrow> i \<le> j \<and> j < i + length as"
  by (induction base fin as i rule: allocat_loop.induct) (fastforce split: if_splits)+

subsection \<open>What the operations take from the heap\<close>

text \<open>
  A run of steps that takes at most \<open>k\<close> bytes of the heap, headers included, and one that stops
  the machine, which happens only where the heap has no free block of \<open>k\<close> bytes.
\<close>

definition heap_step :: "nat \<Rightarrow> mm \<Rightarrow> mm \<Rightarrow> bool" where
  "heap_step k m m' \<longleftrightarrow> (\<exists>h. m' = m\<lparr>mm_heap := h\<rparr> \<and> heap_inv h \<and> h_first h = h_first (mm_heap m) \<and>
     (\<forall>s. k \<le> s \<and> roomy (mm_heap m) s \<longrightarrow> roomy h (s - k)))"

definition heap_out :: "nat \<Rightarrow> mm \<Rightarrow> 'a run \<Rightarrow> bool" where
  "heap_out k m x \<longleftrightarrow> x = Some (Inl InvalidOpcode) \<and> \<not> roomy (mm_heap m) k"

lemma heap_step_refl: "heap_inv (mm_heap m) \<Longrightarrow> heap_step k m m"
  unfolding heap_step_def by (intro exI[of _ "mm_heap m"]) (auto intro: roomy_mono)

lemma heap_step_trans: "heap_step k m m1 \<Longrightarrow> heap_step k' m1 m2 \<Longrightarrow> heap_step (k + k') m m2"
proof -
  assume "heap_step k m m1" "heap_step k' m1 m2"
  then obtain h1 h2 where 1: "m1 = m\<lparr>mm_heap := h1\<rparr>" "h_first h1 = h_first (mm_heap m)" "\<And>s. k \<le> s \<and> roomy (mm_heap m) s \<Longrightarrow> roomy h1 (s - k)"
    and 2: "m2 = m1\<lparr>mm_heap := h2\<rparr>" "heap_inv h2" "h_first h2 = h_first h1" "\<And>s. k' \<le> s \<and> roomy h1 s \<Longrightarrow> roomy h2 (s - k')"
    unfolding heap_step_def by auto
  have "roomy h2 (s - (k + k'))" if "k + k' \<le> s" "roomy (mm_heap m) s" for s
    using 2(4)[of "s - k"] 1(3)[of s] that by simp
  then show ?thesis unfolding heap_step_def using 1 2 by (intro exI[of _ h2]) simp
qed

lemma heap_out_trans: "heap_step k m m1 \<Longrightarrow> heap_out k' m1 x \<Longrightarrow> heap_out (k + k') m x"
  unfolding heap_step_def heap_out_def by (auto dest!: spec[of _ "k + k'"])

lemma heap_out_mono: "heap_out k m x \<Longrightarrow> k \<le> k' \<Longrightarrow> heap_out k' m x"
  unfolding heap_out_def using roomy_mono by blast

lemma heap_step_inv: "heap_step k m m' \<Longrightarrow> heap_inv (mm_heap m') \<and> h_first (mm_heap m') = h_first (mm_heap m)"
  by (auto simp: heap_step_def)

lemma mm_kmalloc_step:
  assumes inv: "heap_inv (mm_heap m)" and n: "n \<le> 2 ^ 32"
  shows "heap_out (n + 64) m (mm_kmalloc m n) \<or> (\<exists>p m'. mm_kmalloc m n = ret (p, m') \<and> heap_step (n + 64) m m' \<and> (p = 0 \<longleftrightarrow> n = 0))"
proof (cases "n = 0")
  case True
  then show ?thesis using heap_step_refl[OF inv, of 64] by (simp add: mm_kmalloc_def kmalloc_def)
next
  case False
  have n2: "0 < n" "n \<le> 2 ^ 64 - 32" using False n by simp_all
  from kmalloc_first[OF inv n2] show ?thesis
  proof (elim disjE exE conjE)
    assume c: "kmalloc (mm_heap m) n = Some (Inl InvalidOpcode)"
    have "\<not> roomy (mm_heap m) (n + 64)" using roomy_kmalloc[OF _ n2(1) order.refl n] c by fastforce
    then show ?thesis using c by (simp add: heap_out_def mm_kmalloc_def)
  next
    fix p h' assume r: "kmalloc (mm_heap m) n = ret (p, h')" "p \<noteq> 0" "heap_inv h'" "h_first h' = h_first (mm_heap m)"
    have "roomy h' (s - (n + 64))" if "n + 64 \<le> s" "roomy (mm_heap m) s" for s
      using roomy_kmalloc[OF that(2) n2(1) that(1) n] r(1) by auto
    then have "heap_step (n + 64) m (m\<lparr>mm_heap := h'\<rparr>)" unfolding heap_step_def using r by blast
    then show ?thesis using r False by (auto simp: mm_kmalloc_def)
  qed
qed

text \<open>\<open>l'\<close> is \<open>l\<close> with an area for the given range at position \<open>i\<close>.\<close>

definition grown :: "vm_area klist \<Rightarrow> nat \<Rightarrow> addr \<Rightarrow> addr \<Rightarrow> vm_area klist \<Rightarrow> bool" where
  "grown l i b f l' \<longleftrightarrow> i \<le> length (kl_items l) \<and>
     kl_items l' = take i (kl_items l) @ \<lparr>va_base = b, va_end = f, va_obj = None\<rparr> # drop i (kl_items l)"

lemma area_kmallocs:
  assumes inv: "heap_inv (mm_heap m)"
  shows "mm_kmalloc m 24 = Some (Inl InvalidOpcode) \<and> \<not> roomy (mm_heap m) 176 \<or>
    (\<exists>p m1. mm_kmalloc m 24 = ret (p, m1) \<and> p \<noteq> 0 \<and> mm_kmalloc m1 24 = Some (Inl InvalidOpcode) \<and> \<not> roomy (mm_heap m) 176) \<or>
    (\<exists>p m1 q m2. mm_kmalloc m 24 = ret (p, m1) \<and> p \<noteq> 0 \<and> mm_kmalloc m1 24 = ret (q, m2) \<and> q \<noteq> 0 \<and> heap_step 176 m m2)"
proof (cases "heap_out 88 m (mm_kmalloc m 24)")
  case True
  then show ?thesis using heap_out_mono[OF True, of 176] by (simp add: heap_out_def)
next
  case False
  then obtain p m1 where 1: "mm_kmalloc m 24 = ret (p, m1)" "p \<noteq> 0" "heap_step 88 m m1" using mm_kmalloc_step[OF inv, of 24] by auto
  then have "heap_inv (mm_heap m1)" using heap_step_inv by blast
  from mm_kmalloc_step[OF this, of 24] consider "heap_out 88 m1 (mm_kmalloc m1 24)"
    | q m2 where "mm_kmalloc m1 24 = ret (q, m2)" "q \<noteq> 0" "heap_step 88 m1 m2" by auto
  then show ?thesis
  proof cases
    case 1
    then show ?thesis using heap_out_trans[OF \<open>heap_step 88 m m1\<close> 1] \<open>p \<noteq> 0\<close> \<open>mm_kmalloc m 24 = ret (p, m1)\<close> by (simp add: heap_out_def)
  next
    case 2
    then show ?thesis using 1 heap_step_trans[OF 1(3) 2(3)] by simp
  qed
qed

lemma area_insert_step:
  fixes b f :: addr and v :: vm_map
  assumes inv: "heap_inv (mm_heap m)" and i: "i < length (kl_items (vm_areas v))"
  defines "x \<equiv> bindR (vm_area_create m b f None) (\<lambda>(a, m). area_insert (m, v) i a)"
  shows "heap_out 176 m x \<or> (\<exists>m' l. x = ret (Some i, m', v\<lparr>vm_areas := l\<rparr>) \<and> heap_step 176 m m' \<and> grown (vm_areas v) i b f l)"
  using area_kmallocs[OF inv]
proof (elim disjE exE conjE)
  fix p m1 q m2
  assume a: "mm_kmalloc m 24 = ret (p, m1)" "p \<noteq> 0" "mm_kmalloc m1 24 = ret (q, m2)" "q \<noteq> 0" "heap_step 176 m m2"
  obtain l where l: "kl_insert_before (vm_areas v) i \<lparr>va_base = b, va_end = f, va_obj = None\<rparr> = Inr l" "grown (vm_areas v) i b f l"
    using i by (simp add: kl_insert_before_def grown_def)
  have "x = ret (Some i, m2, v\<lparr>vm_areas := l\<rparr>)" using a l(1) by (simp add: x_def vm_area_create_def area_insert_def)
  then show ?thesis using a(5) l(2) by blast
qed (simp_all add: x_def heap_out_def vm_area_create_def area_insert_def)

lemma area_enqueue_step:
  fixes b f :: addr and v :: vm_map
  assumes inv: "heap_inv (mm_heap m)"
  defines "x \<equiv> bindR (vm_area_create m b f None) (\<lambda>(a, m). area_enqueue (m, v) a)" and "n \<equiv> length (kl_items (vm_areas v))"
  shows "heap_out 176 m x \<or> (\<exists>m' l. x = ret (Some n, m', v\<lparr>vm_areas := l\<rparr>) \<and> heap_step 176 m m' \<and> grown (vm_areas v) n b f l)"
  using area_kmallocs[OF inv]
proof (elim disjE exE conjE)
  fix p m1 q m2
  assume a: "mm_kmalloc m 24 = ret (p, m1)" "p \<noteq> 0" "mm_kmalloc m1 24 = ret (q, m2)" "q \<noteq> 0" "heap_step 176 m m2"
  let ?l = "kl_enqueue (vm_areas v) \<lparr>va_base = b, va_end = f, va_obj = None\<rparr>"
  have "x = ret (Some n, m2, v\<lparr>vm_areas := ?l\<rparr>)" using a by (simp add: x_def n_def vm_area_create_def area_enqueue_def)
  moreover have "grown (vm_areas v) n b f ?l" by (simp add: grown_def kl_enqueue_def n_def)
  ultimately show ?thesis using a(5) by blast
qed (simp_all add: x_def heap_out_def vm_area_create_def area_enqueue_def)

subsection \<open>Placing an area\<close>

abbreviation (input) areas :: "vm_map \<Rightarrow> vm_area list" where
  "areas v \<equiv> kl_items (vm_areas v)"

definition room_ok :: "vm_area list \<Rightarrow> nat \<Rightarrow> bool" where
  "room_ok as sz \<longleftrightarrow> areas_ok as \<and> 0 < sz \<and> PAGE4K + sz < 2 ^ 64 \<and> (\<forall>a \<in> set as. va_end a + sz < 2 ^ 64)"

text \<open>The result of a search: a new area at its place in the list, or none.\<close>

definition put_area :: "vm_map \<Rightarrow> nat option \<Rightarrow> addr \<Rightarrow> addr \<Rightarrow> vm_area klist \<Rightarrow> bool" where
  "put_area v r b f l \<longleftrightarrow> (case r of None \<Rightarrow> l = vm_areas v | Some i \<Rightarrow> grown (vm_areas v) i b f l)"

lemma vm_map_alloc_step:
  assumes inv: "heap_inv (mm_heap m)"
  shows "heap_out 176 m (vm_map_alloc (m, v) sz) \<or>
    (\<exists>m' l r b f. vm_map_alloc (m, v) sz = ret (r, m', v\<lparr>vm_areas := l\<rparr>) \<and> heap_step 176 m m' \<and> put_area v r b f l \<and>
      (room_ok (areas v) sz \<longrightarrow> lowest (areas v) sz PAGE4K b \<and> f = b + sz \<and>
        (case r of None \<Rightarrow> KBASE \<le> f | Some i \<Rightarrow> splits_at (areas v) i b f)))"
proof -
  obtain q b f where al: "alloc_loop sz (areas v) 0 PAGE4K (add64 PAGE4K sz) = (q, b, f)" by (cases "alloc_loop sz (areas v) 0 PAGE4K (add64 PAGE4K sz)")
  have sp: "f = b + sz \<and> lowest (areas v) sz PAGE4K b \<and> (\<exists>k. splits_at (areas v) k b f \<and> q = (if k < length (areas v) then Some k else None))"
    if "room_ok (areas v) sz"
  proof -
    have "areas_ok (areas v)" "0 < sz" "add64 PAGE4K sz = PAGE4K + sz" "\<forall>a \<in> set (areas v). va_end a + sz < 2 ^ 64"
      using that by (simp_all add: room_ok_def)
    from alloc_loop_spec[OF this al] show ?thesis unfolding add_0 .
  qed
  let ?x = "vm_map_alloc (m, v) sz"
  show ?thesis
  proof (cases q)
    case (Some i)
    have i: "i < length (areas v)" using alloc_loop_pos al Some by fastforce
    have x: "?x = bindR (vm_area_create m b f None) (\<lambda>(a, m). area_insert (m, v) i a)" using al Some by (simp add: vm_map_alloc_def)
    have s: "splits_at (areas v) i b f" if "room_ok (areas v) sz" using sp[OF that] Some by (auto split: if_splits)
    show ?thesis using area_insert_step[OF inv i, of b f] unfolding x[symmetric]
      by (elim disjE exE conjE) (auto simp: put_area_def dest: sp s)
  next
    case None
    have x: "?x = (if f < KBASE then bindR (vm_area_create m b f None) (\<lambda>(a, m). area_enqueue (m, v) a) else ret (None, m, v))"
      using al None by (simp add: vm_map_alloc_def)
    show ?thesis
    proof (cases "f < KBASE")
      case True
      have s: "splits_at (areas v) (length (areas v)) b f" if "room_ok (areas v) sz"
        using sp[OF that] None by (auto simp: splits_at_def split: if_splits)
      have x': "?x = bindR (vm_area_create m b f None) (\<lambda>(a, m). area_enqueue (m, v) a)" using x True by simp
      show ?thesis using area_enqueue_step[OF inv, of b f v] unfolding x'[symmetric]
        by (elim disjE exE conjE) (auto simp: put_area_def dest: sp s)
    next
      case False
      have "?x = ret (None, m, v\<lparr>vm_areas := vm_areas v\<rparr>)" using x False by simp
      moreover have "KBASE \<le> f" using False by (simp only: not_less)
      ultimately show ?thesis using heap_step_refl[OF inv, of 176]
        by (intro disjI2 exI[of _ m] exI[of _ "vm_areas v"] exI[of _ None] exI[of _ b] exI[of _ f] conjI impI) (simp_all add: put_area_def sp)
    qed
  qed
qed

lemma vm_map_allocat_step:
  assumes inv: "heap_inv (mm_heap m)" and ne: "areas v = [] \<longrightarrow> kl_size (vm_areas v) = 0"
  shows "heap_out 176 m (vm_map_allocat (m, v) base sz) \<or>
    (\<exists>m' l r. vm_map_allocat (m, v) base sz = ret (r, m', v\<lparr>vm_areas := l\<rparr>) \<and> heap_step 176 m m' \<and> put_area v r base (add64 base sz) l \<and>
      (areas_ok (areas v) \<and> base < add64 base sz \<longrightarrow>
        (case r of None \<Rightarrow> \<not> free_range (areas v) base (add64 base sz) | Some i \<Rightarrow> splits_at (areas v) i base (add64 base sz))))"
proof -
  define fin where "fin = add64 base sz"
  note sp = allocat_loop_spec[of "areas v" base fin 0]
  let ?x = "vm_map_allocat (m, v) base sz"
  have none: ?thesis if x: "?x = ret (None, m, v)" and nf: "areas_ok (areas v) \<and> base < fin \<longrightarrow> \<not> free_range (areas v) base fin"
  proof -
    have "?x = ret (None, m, v\<lparr>vm_areas := vm_areas v\<rparr>)" using x by simp
    then show ?thesis using heap_step_refl[OF inv, of 176] nf unfolding fin_def[symmetric]
      by (intro disjI2 exI[of _ m] exI[of _ "vm_areas v"] exI[of _ None]) (simp add: put_area_def)
  qed
  show ?thesis
  proof (cases "allocat_loop base fin (areas v) 0")
    case Taken
    then show ?thesis using sp by (intro none) (simp_all add: vm_map_allocat_def fin_def)
  next
    case (Before i)
    have i: "i < length (areas v)" using allocat_loop_pos[OF Before] by simp
    have x: "?x = bindR (vm_area_create m base fin None) (\<lambda>(a, m). area_insert (m, v) i a)"
      using Before by (simp add: vm_map_allocat_def fin_def)
    have s: "areas_ok (areas v) \<Longrightarrow> base < fin \<Longrightarrow> splits_at (areas v) i base fin" using sp Before by auto
    show ?thesis using area_insert_step[OF inv i, of base fin] unfolding x[symmetric] fin_def[symmetric]
      by (elim disjE exE conjE) (auto simp: put_area_def dest: s)
  next
    case AtEnd
    have s: "areas_ok (areas v) \<Longrightarrow> base < fin \<Longrightarrow> splits_at (areas v) (length (areas v)) base fin" using sp AtEnd by auto
    define fits where "fits \<longleftrightarrow> (kl_size (vm_areas v) = 0 \<or> va_end (last (areas v)) \<le> base)"
    have x: "?x = (if fits then bindR (vm_area_create m base fin None) (\<lambda>(a, m). area_enqueue (m, v) a) else ret (None, m, v))"
      using AtEnd ne by (auto simp: vm_map_allocat_def fin_def fits_def kl_back_def Let_def)
    show ?thesis
    proof (cases fits)
      case True
      have x': "?x = bindR (vm_area_create m base fin None) (\<lambda>(a, m). area_enqueue (m, v) a)" using x True by simp
      show ?thesis using area_enqueue_step[OF inv, of base fin v] unfolding x'[symmetric] fin_def[symmetric]
        by (elim disjE exE conjE) (auto simp: put_area_def dest: s)
    next
      case False
      have "areas v \<noteq> []" using False ne by (auto simp: fits_def)
      then have "\<not> splits_at (areas v) (length (areas v)) base fin" using False by (auto simp: splits_at_def fits_def)
      then show ?thesis using x False s by (intro none) auto
    qed
  qed
qed

text \<open>Where the hint is free it is taken, otherwise the lowest free range, unless the caller insists on the hint.\<close>

definition placed :: "vm_area list \<Rightarrow> addr \<Rightarrow> nat \<Rightarrow> bool \<Rightarrow> nat option \<Rightarrow> addr \<Rightarrow> bool" where
  "placed as base sz fixed r b \<longleftrightarrow>
     (if base \<noteq> 0 \<and> (fixed \<or> free_range as base (base + sz)) then b = base else lowest as sz PAGE4K b) \<and>
     (case r of None \<Rightarrow> base \<noteq> 0 \<and> fixed \<and> \<not> free_range as base (base + sz) \<or> KBASE \<le> b + sz | Some i \<Rightarrow> splits_at as i b (b + sz))"

lemma heap_step_mono: "heap_step k m m' \<Longrightarrow> k \<le> k' \<Longrightarrow> heap_step k' m m'"
proof -
  assume "heap_step k m m'" and k: "k \<le> k'"
  then obtain h where h: "m' = m\<lparr>mm_heap := h\<rparr>" "heap_inv h" "h_first h = h_first (mm_heap m)"
      "\<And>s. k \<le> s \<and> roomy (mm_heap m) s \<Longrightarrow> roomy h (s - k)" unfolding heap_step_def by blast
  have "roomy h (s - k')" if "k' \<le> s" "roomy (mm_heap m) s" for s
    using h(4)[of s] that k by (auto intro: roomy_mono)
  then show ?thesis unfolding heap_step_def using h(1-3) by blast
qed

lemma alloc_vmarea_step:
  assumes inv: "heap_inv (mm_heap m)" and ne: "areas v = [] \<longrightarrow> kl_size (vm_areas v) = 0"
  shows "heap_out 352 m (alloc_vmarea (m, v) base sz fixed) \<or>
    (\<exists>m' l r b f. alloc_vmarea (m, v) base sz fixed = ret (r, m', v\<lparr>vm_areas := l\<rparr>) \<and> heap_step 352 m m' \<and> put_area v r b f l \<and>
      (room_ok (areas v) sz \<and> base + sz < 2 ^ 64 \<longrightarrow> f = b + sz \<and> placed (areas v) base sz fixed r b))"
    (is "_ \<or> ?ok")
proof -
  let ?x = "alloc_vmarea (m, v) base sz fixed"
  have low: "heap_out 352 m (vm_map_alloc (m1, v) sz) \<or>
      (\<exists>m' l r b f. vm_map_alloc (m1, v) sz = ret (r, m', v\<lparr>vm_areas := l\<rparr>) \<and> heap_step 352 m m' \<and> put_area v r b f l \<and>
      (room_ok (areas v) sz \<and> base + sz < 2 ^ 64 \<longrightarrow> f = b + sz \<and> placed (areas v) base sz fixed r b))"
    if s: "heap_step 176 m m1" and nf: "base = 0 \<or> \<not> fixed \<and> (room_ok (areas v) sz \<and> base + sz < 2 ^ 64 \<longrightarrow> \<not> free_range (areas v) base (base + sz))" for m1
  proof -
    have i1: "heap_inv (mm_heap m1)" using heap_step_inv[OF s] by simp
    from vm_map_alloc_step[OF i1, of v sz] show ?thesis
    proof (elim disjE exE conjE)
      assume "heap_out 176 m1 (vm_map_alloc (m1, v) sz)"
      from heap_out_trans[OF s this] show ?thesis by simp
    next
      fix m' l r b f
      assume a: "vm_map_alloc (m1, v) sz = ret (r, m', v\<lparr>vm_areas := l\<rparr>)" "heap_step 176 m1 m'" "put_area v r b f l"
        "room_ok (areas v) sz \<longrightarrow> lowest (areas v) sz PAGE4K b \<and> f = b + sz \<and> (case r of None \<Rightarrow> KBASE \<le> f | Some i \<Rightarrow> splits_at (areas v) i b f)"
      have "room_ok (areas v) sz \<and> base + sz < 2 ^ 64 \<longrightarrow> f = b + sz \<and> placed (areas v) base sz fixed r b"
        using a(4) nf by (auto simp: placed_def split: option.splits)
      moreover have "heap_step 352 m m'" using heap_step_trans[OF s a(2)] by simp
      ultimately show ?thesis using a(1,3) by blast
    qed
  qed
  show ?thesis
  proof (cases "base = 0")
    case True
    have "heap_step 176 m m" by (rule heap_step_refl[OF inv])
    from low[OF this] show ?thesis using True by (simp add: alloc_vmarea_def)
  next
    case base: False
    from vm_map_allocat_step[OF inv ne, of base sz] show ?thesis
    proof (elim disjE exE conjE)
      assume "heap_out 176 m (vm_map_allocat (m, v) base sz)"
      from heap_out_mono[OF this, of 352] show ?thesis using base by (simp add: alloc_vmarea_def heap_out_def)
    next
      fix m1 l r
      let ?f = "add64 base sz"
      assume a: "vm_map_allocat (m, v) base sz = ret (r, m1, v\<lparr>vm_areas := l\<rparr>)" "heap_step 176 m m1" "put_area v r base ?f l"
        "areas_ok (areas v) \<and> base < ?f \<longrightarrow> (case r of None \<Rightarrow> \<not> free_range (areas v) base ?f | Some i \<Rightarrow> splits_at (areas v) i base ?f)"
      have f: "?f = base + sz" "areas_ok (areas v)" "base < ?f" if "room_ok (areas v) sz \<and> base + sz < 2 ^ 64"
        using that by (simp_all add: room_ok_def)
      have nf: "\<not> free_range (areas v) base (base + sz)" if "r = None" "room_ok (areas v) sz \<and> base + sz < 2 ^ 64"
        using a(4) f[OF that(2)] that(1) by simp
      show ?thesis
      proof (cases "r = None \<and> \<not> fixed")
        case True
        have l: "v\<lparr>vm_areas := l\<rparr> = v" using a(3) True by (simp add: put_area_def)
        have "?x = vm_map_alloc (m1, v) sz" using base a(1) True l by (simp add: alloc_vmarea_def)
        then show ?thesis using low[OF a(2)] nf True by simp
      next
        case False
        have "?x = ret (r, m1, v\<lparr>vm_areas := l\<rparr>)" using base a(1) False by (auto simp: alloc_vmarea_def)
        moreover have "room_ok (areas v) sz \<and> base + sz < 2 ^ 64 \<longrightarrow> ?f = base + sz \<and> placed (areas v) base sz fixed r base"
        proof (cases r)
          case None
          then show ?thesis using f nf False base by (auto simp: placed_def)
        next
          case (Some i)
          then show ?thesis using a(4) f base splits_at_free[of "areas v" i base "base + sz"] by (auto simp: placed_def)
        qed
        ultimately show ?thesis using a(3) heap_step_mono[OF a(2), of 352]
          by (intro disjI2 exI[of _ m1] exI[of _ l] exI[of _ r] exI[of _ base] exI[of _ ?f] conjI) simp_all
      qed
    qed
  qed
qed

subsection \<open>Anonymous mappings\<close>

text \<open>
  The array of an anonymous object has one word for each whole page of its area, and the list
  of areas is well formed.
\<close>

definition obj_ok :: "vm_area \<Rightarrow> bool" where
  "obj_ok a \<longleftrightarrow>
     (case va_obj a of
        None \<Rightarrow> False
      | Some (AnonVmo p pages) \<Rightarrow> length pages = (va_end a - va_base a) div PAGE4K \<and> (pages \<noteq> [] \<longrightarrow> p \<noteq> 0)
      | Some (InodeVmo p pages ino) \<Rightarrow> True)"

definition areas_wf :: "vm_map \<Rightarrow> bool" where
  "areas_wf v \<longleftrightarrow> areas_ok (areas v) \<and> (\<forall>a \<in> set (areas v). obj_ok a) \<and> (areas v = [] \<longrightarrow> kl_size (vm_areas v) = 0)"

definition anon_area :: "addr \<Rightarrow> nat \<Rightarrow> addr \<Rightarrow> vm_area" where
  "anon_area b sz p = \<lparr>va_base = b, va_end = b + sz, va_obj = Some (AnonVmo p (replicate (sz div PAGE4K) None))\<rparr>"








text \<open>
  moving the program break down stops the machine. The difference that \<open>brk\<close> passes to
  \<open>mmap\<close> as a length is not negative but wraps around to almost \<open>2 ^ 64\<close>, and the array for that
  many pages is larger than any block of the kernel heap, so \<open>kmalloc\<close> executes \<^verbatim>\<open>ud2\<close>.
\<close>

theorem brk_shrink_halts:
  assumes "us_space u = (m, v)" and "heap_inv (mm_heap m)" and "KBASE \<le> h_first (mm_heap m)" and "areas_wf v"
    and "0 < va" and "va < us_brk u" and "us_brk u \<le> 2 ^ 47"
  shows "sys_brk pr mops u va = Some (Inl InvalidOpcode)"
proof -
  define d where "d = us_brk u - va"
  define len where "len = sub64 va (us_brk u)"
  have d: "0 < d" "d < 2 ^ 47" using assms(5-7) by (simp_all add: d_def)
  have "len = (va + 2 ^ 64 - us_brk u) mod 2 ^ 64" using assms(7) by (simp add: len_def sub64_def)
  also have "va + 2 ^ 64 - us_brk u = 2 ^ 64 - d" using assms(6,7) by (simp add: d_def)
  finally have len: "len = 2 ^ 64 - d" using d by simp
  have "8 * len = 7 * 2 ^ 64 + (2 ^ 64 - 8 * d)" using d unfolding len by simp
  then have "mul64 8 len = (2 ^ 64 - 8 * d) mod 2 ^ 64" unfolding mul64_def by (simp only: mod_mult_self3)
  also have "\<dots> = 2 ^ 64 - 8 * d" using d by simp
  finally have m8: "mul64 8 len = 2 ^ 64 - 8 * d" .
  define n where "n = mul64 8 len div PAGE4K"
  have "2 ^ 62 div PAGE4K \<le> n" "n \<le> 2 ^ 64 div PAGE4K" unfolding n_def m8 using d by (intro div_le_mono; simp)+
  then have n: "2 ^ 50 \<le> n" "n \<le> 2 ^ 52" by simp_all
  have ne: "areas v = [] \<longrightarrow> kl_size (vm_areas v) = 0" using assms(4) by (simp add: areas_wf_def)
  have pa: "pages_alloc m2 len = Some (Inl InvalidOpcode)" if "heap_inv (mm_heap m2)" "h_first (mm_heap m2) = h_first (mm_heap m)" for m2
  proof -
    have "kmalloc (mm_heap m2) n = Some (Inl InvalidOpcode)" by (rule kmalloc_huge[OF that(1)]) (use n that(2) assms(3) in simp_all)
    then show ?thesis by (simp add: pages_alloc_def Let_def mm_kmalloc_def n_def)
  qed
  have "vm_map_anon (m, v) (us_brk u) len False = Some (Inl InvalidOpcode)"
    using alloc_vmarea_step[OF assms(2) ne, of "us_brk u" len False]
  proof (elim disjE exE conjE)
    fix m1 l r b f
    assume a: "alloc_vmarea (m, v) (us_brk u) len False = ret (r, m1, v\<lparr>vm_areas := l\<rparr>)" "heap_step 352 m m1"
    note i1 = heap_step_inv[OF a(2)]
    from mm_kmalloc_step[OF i1[THEN conjunct1], of 16]
    consider "mm_kmalloc m1 16 = Some (Inl InvalidOpcode)" | q m2 where "mm_kmalloc m1 16 = ret (q, m2)" "heap_step 80 m1 m2" "q \<noteq> 0"
      by (auto simp: heap_out_def)
    then show ?thesis
    proof cases
      case 2
      then show ?thesis using a(1) pa[of m2] heap_step_inv[OF 2(2)] i1 by (simp add: vm_map_anon_def)
    qed (simp add: vm_map_anon_def a(1))
  qed (simp add: heap_out_def vm_map_anon_def)
  moreover have "len \<noteq> 0" using d unfolding len by simp
  ultimately have "ksys_do_mmap pr mops u (us_brk u) len 0x22 (-1) = Some (Inl InvalidOpcode)"
    using assms(1) by (simp add: ksys_do_mmap_def)
  then show ?thesis using assms(5) by (simp add: sys_brk_def len_def)
qed

theorem brk_shrink_halts_witness:
  "sys_brk tree_proc (\<lambda>_. Some vga_mmap) \<lparr>us_space = (boot_mm, no_map), us_brk = 0x600000\<rparr> 0x5ff000 = Some (Inl InvalidOpcode)"
proof -
  have "heap_inv (mm_heap boot_mm)" "KBASE \<le> h_first (mm_heap boot_mm)" using boot_heap_inv boot_heap_first by (simp_all add: boot_mm_def)
  moreover have "areas_wf no_map" by (simp add: areas_wf_def no_map_def kl_create_def)
  ultimately show ?thesis by (intro brk_shrink_halts) simp_all
qed

subsection \<open>Faults\<close>

text \<open>An anonymous area that holds the whole page at \<open>pg\<close>.\<close>

definition covers :: "addr \<Rightarrow> vm_area \<Rightarrow> bool" where
  "covers pg a \<longleftrightarrow> va_base a \<le> pg \<and> pg + PAGE4K \<le> va_end a \<and> (\<exists>p pages. va_obj a = Some (AnonVmo p pages))"

lemma fault_loop_spec:
  assumes "\<forall>a \<in> set as. obj_ok a" "pg + PAGE4K < 2 ^ 64"
  shows "case fault_loop as pg i of
      Inl e \<Rightarrow> False
    | Inr None \<Rightarrow> \<not> (\<exists>a \<in> set as. covers pg a)
    | Inr (Some (n, a)) \<Rightarrow> \<exists>k<length as. n = i + k \<and> as ! k = a \<and> covers pg a"
  using assms
proof (induction as pg i rule: fault_loop.induct)
  case (2 a as pg i)
  have w: "add64 pg PAGE4K = pg + PAGE4K" using "2.prems"(2) by simp
  have ok: "\<forall>a \<in> set as. obj_ok a" "obj_ok a" using "2.prems" by simp_all
  have up: ?case if eq: "fault_loop (a # as) pg i = fault_loop as pg (i + 1)" and nc: "\<not> covers pg a"
      and IH: "case fault_loop as pg (i + 1) of Inl e \<Rightarrow> False | Inr None \<Rightarrow> \<not> (\<exists>a \<in> set as. covers pg a)
        | Inr (Some (n, a)) \<Rightarrow> \<exists>k<length as. n = i + 1 + k \<and> as ! k = a \<and> covers pg a"
    using IH nc unfolding eq by (auto split: sum.splits option.splits intro!: exI[of _ "Suc _"])
  show ?case
  proof (cases "va_base a \<le> pg \<and> pg + PAGE4K \<le> va_end a")
    case hit: True
    show ?thesis
    proof (cases "va_obj a")
      case None
      then show ?thesis using ok(2) by (simp add: obj_ok_def)
    next
      case (Some ob)
      show ?thesis
      proof (cases ob)
        case (AnonVmo p pages)
        then show ?thesis using hit Some w by (auto simp: covers_def)
      next
        case (InodeVmo p pages ino)
        have "fault_loop (a # as) pg i = fault_loop as pg (i + 1)" "\<not> covers pg a" using hit Some w InodeVmo by (simp_all add: covers_def)
        then show ?thesis by (rule up) (rule "2.IH"(1)[OF _ Some InodeVmo ok(1) "2.prems"(2)], use hit w in simp)
      qed
    qed
  next
    case False
    have "fault_loop (a # as) pg i = fault_loop as pg (i + 1)" "\<not> covers pg a" using False w by (auto simp: covers_def)
    then show ?thesis by (rule up) (rule "2.IH"(2)[OF _ ok(1) "2.prems"(2)], use False w in simp)
  qed
qed simp

lemma vm_ok_areas [simp]: "vm_ok m (v\<lparr>vm_areas := l\<rparr>) = vm_ok m v"
proof -
  have 1: "tptr (v\<lparr>vm_areas := l\<rparr>) t = tptr v t" for t by (cases t) simp_all
  have 2: "tframe m (v\<lparr>vm_areas := l\<rparr>) = tframe m v" by (simp add: fun_eq_iff tframe_def 1)
  have "tbls (v\<lparr>vm_areas := l\<rparr>) = tbls v" by (simp add: tbls_def)
  then show ?thesis unfolding vm_ok_def 1 2 by simp
qed

text \<open>Writing one word of the array of an anonymous object keeps the list well formed.\<close>

lemma page_put_spec:
  assumes wf: "areas_wf v" and n: "n < length (areas v)" and c: "covers pg (areas v ! n)"
  shows "\<exists>l. page_put (m, v) n ((pg - va_base (areas v ! n)) div PAGE4K) ph = Inr (m, v\<lparr>vm_areas := l\<rparr>) \<and> areas_wf (v\<lparr>vm_areas := l\<rparr>)"
proof -
  define a where "a = areas v ! n"
  obtain p pages where o: "va_obj a = Some (AnonVmo p pages)" and b: "va_base a \<le> pg" "pg + PAGE4K \<le> va_end a"
    using c by (auto simp: covers_def a_def)
  have "a \<in> set (areas v)" using n by (simp add: a_def)
  then have ok: "obj_ok a" using wf by (simp add: areas_wf_def)
  define i where "i = (pg - va_base a) div PAGE4K"
  have "pg - va_base a + PAGE4K \<le> va_end a - va_base a" using b by simp
  then have "(pg - va_base a + PAGE4K) div PAGE4K \<le> (va_end a - va_base a) div PAGE4K" by (rule div_le_mono)
  then have i: "i < length pages" using ok o by (simp add: i_def obj_ok_def)
  then have p: "p \<noteq> 0" using ok o by (auto simp: obj_ok_def)
  define a' where "a' = a\<lparr>va_obj := Some (AnonVmo p (pages[i := Some ph]))\<rparr>"
  define l where "l = (vm_areas v)\<lparr>kl_items := (areas v)[n := a']\<rparr>"
  have "page_put (m, v) n i ph = Inr (m, v\<lparr>vm_areas := l\<rparr>)"
    using n o i p by (simp add: page_put_def area_at_def kl_get_def area_set_obj_def l_def a'_def flip: a_def)
  moreover have "areas_wf (v\<lparr>vm_areas := l\<rparr>)"
  proof -
    have be: "map (\<lambda>a. (va_base a, va_end a)) ((areas v)[n := a']) = map (\<lambda>a. (va_base a, va_end a)) (areas v)"
      using n by (simp add: map_update list_update_same_conv a'_def a_def)
    have ao: "areas_ok as \<longleftrightarrow> sorted_wrt (\<lambda>x y. snd x \<le> fst y) (map (\<lambda>a. (va_base a, va_end a)) as) \<and> (\<forall>x \<in> set (map (\<lambda>a. (va_base a, va_end a)) as). fst x < snd x)" for as
      by (auto simp: areas_ok_def sorted_wrt_map)
    have "areas_ok ((areas v)[n := a'])" using wf unfolding ao be areas_wf_def by simp
    moreover have "obj_ok a'" using ok o p by (simp add: obj_ok_def a'_def)
    then have "\<forall>a \<in> set ((areas v)[n := a']). obj_ok a" using wf set_update_subset_insert[of "areas v" n a'] by (auto simp: areas_wf_def)
    ultimately show ?thesis using wf by (simp add: areas_wf_def l_def)
  qed
  ultimately show ?thesis unfolding i_def a_def by blast
qed

lemma tframes_areas [simp]: "tframe m (v\<lparr>vm_areas := l\<rparr>) ` tbls (v\<lparr>vm_areas := l\<rparr>) = tframe m v ` tbls v"
proof -
  have "tptr (v\<lparr>vm_areas := l\<rparr>) t = tptr v t" for t by (cases t) simp_all
  then show ?thesis by (simp add: tframe_def tbls_def)
qed

text \<open>
  C9: a page fault below 512 gigabytes on a page that lies wholly in an anonymous area is served:
  the page is mapped to a frame that was free, every other user address translates as before,
  and the areas stay well formed. The frame is handed out with whatever it held before. Any other
  fault is refused and changes nothing, even on the last, partial page of an area.
\<close>

theorem page_fault_served:
  assumes "mm_ok m" and "vm_ok m v" and "areas_wf v" and "2 \<le> card (free_frames m)" and "free_kpages m \<noteq> {}" and "va < 2 ^ 39"
  shows "if \<exists>a \<in> set (areas v). covers (va - va mod PAGE4K) a
    then \<exists>m' w k. vm_map_handle_fault (m, v) va = Inr (0, m', w) \<and> mm_ok m' \<and> vm_ok m' w \<and> areas_wf w \<and>
      k \<in> free_frames m \<and> used m' k \<and> phys m' k = phys m k \<and>
      (\<forall>x<2 ^ 39. hw_walk m' (vm_pml4_phys w) x =
         (if x div PAGE4K = va div PAGE4K then Some (PAGE4K * k + x mod PAGE4K) else hw_walk m (vm_pml4_phys v) x))
    else vm_map_handle_fault (m, v) va = Inr (-1, m, v)"
proof -
  define pg where "pg = va - va mod PAGE4K"
  have pg: "pg < 2 ^ 39" "pg div PAGE4K = va div PAGE4K" using assms(6) by (simp_all add: pg_def minus_mod_eq_mult_div)
  have ok: "\<forall>a \<in> set (areas v). obj_ok a" "pg + PAGE4K < 2 ^ 64" using assms(3) pg(1) by (simp_all add: areas_wf_def)
  note fl = fault_loop_spec[OF ok, of 0]
  show ?thesis
  proof (cases "\<exists>a \<in> set (areas v). covers pg a")
    case False
    then have "fault_loop (areas v) pg 0 = Inr None" using fl by (fastforce split: sum.splits option.splits simp: in_set_conv_nth)
    then have "vm_map_handle_fault (m, v) va = Inr (-1, m, v)" by (simp add: vm_map_handle_fault_def Let_def flip: pg_def)
    then show ?thesis using False by (simp flip: pg_def)
  next
    case True
    then obtain n where n: "fault_loop (areas v) pg 0 = Inr (Some (n, areas v ! n))" "n < length (areas v)" "covers pg (areas v ! n)"
      using fl by (auto split: sum.splits option.splits)
    have ne: "free_frames m \<noteq> {}" using assms(4) by auto
    obtain k m1 where a: "mmu_alloc_phys m = Inr (4096 * k, m1)" "mm_pres {} m m1" "used m1 k" "k \<in> free_frames m"
        "free_frames m1 = free_frames m - {k}" "free_kpages m1 = free_kpages m" "phys m1 = phys m"
      using alloc_step[OF assms(1) ne] by blast
    have mm1: "mm_ok m1" using a(2) by (simp add: mm_pres_def)
    have v1: "vm_ok m1 v" "tframe m1 v ` tbls v = tframe m v ` tbls v" using vm_ok_pres[OF assms(2) a(2)] by auto
    have f1: "free_frames m1 \<noteq> {}" "free_kpages m1 \<noteq> {}"
    proof -
      have "1 \<le> card (free_frames m1)" using assms(4) a(4) unfolding a(5) by (simp add: card_Diff_singleton)
      then show "free_frames m1 \<noteq> {}" by auto
    qed (use a(6) assms(5) in simp)
    define ph where "ph = 4096 * k"
    define i where "i = (pg - va_base (areas v ! n)) div PAGE4K"
    obtain l where l: "page_put (m1, v) n i ph = Inr (m1, v\<lparr>vm_areas := l\<rparr>)" "areas_wf (v\<lparr>vm_areas := l\<rparr>)"
      using page_put_spec[OF assms(3) n(2,3)] unfolding i_def by blast
    define v' where "v' = v\<lparr>vm_areas := l\<rparr>"
    have "pg - va_base (areas v ! n) < 2 ^ 32 * PAGE4K" using pg(1) by simp
    then have "i < 2 ^ 32" unfolding i_def by (subst div_less_iff_less_mult) simp_all
    then have im: "i mod 2 ^ 32 = i" by simp
    have vok': "vm_ok m1 v'" using v1(1) by (simp add: v'_def)
    have k: "k < 2 ^ 52" using a(4) by (simp add: free_frames_def)
    have fl3: "(3::nat) < 2 ^ 12" "(3::nat) AND PAGE_PR \<noteq> 0" "PAGE_PR OR PAGE_RW = 3" by simp_all
    obtain m' w where w: "mmu_map m1 v' pg (4096 * k) 3 = Inr (m', w)" "vm_ok m' w" "mm_pres (tframe m1 v' ` tbls v') m1 m'"
        "w = v'\<lparr>vm_pts := vm_pts w\<rparr>"
        "\<forall>x<2 ^ 39. hw_walk m' (vm_pml4_phys w) x = (if x div 4096 = pg div 4096 then Some (4096 * k + x mod 4096) else hw_walk m1 (vm_pml4_phys v') x)"
      using mmu_map_walk[OF mm1 vok' f1 pg(1) k fl3(1,2)] by (elim exE conjE) (rule that; assumption)
    have A: "vm_map_handle_fault (m, v) va = Inr (0, m', w)"
      using n(1) a(1) l(1) w(1) im by (simp add: vm_map_handle_fault_def Let_def v'_def ph_def fl3(3) flip: pg_def i_def)
    have hw1: "hw_walk m1 (vm_pml4_phys v') x = hw_walk m (vm_pml4_phys v) x" if "x < 2 ^ 39" for x
      using vm_ok_pres(3)[OF assms(2) a(2)] that by (simp add: v'_def hw_walk_leaf[OF v1(1)] hw_walk_leaf[OF assms(2)])
    have B: "\<forall>x<2 ^ 39. hw_walk m' (vm_pml4_phys w) x =
         (if x div PAGE4K = va div PAGE4K then Some (PAGE4K * k + x mod PAGE4K) else hw_walk m (vm_pml4_phys v) x)"
      using w(5) hw1 unfolding pg(2) by simp
    have C: "areas_wf w" using l(2) by (subst w(4)) (simp add: areas_wf_def v'_def)
    have "k \<notin> tframe m v ` tbls v" using vm_okD(2)[OF assms(2)] used_free[OF a(4)] by auto
    then have D: "phys m' k = phys m k" "used m' k" "mm_ok m'" using w(3) a(3,7) v1(2) unfolding mm_pres_def v'_def by auto
    show ?thesis using True A B C D a(4) w(2) by (simp flip: pg_def) blast
  qed
qed

lemma boot_areas:
  "\<exists>m v. mmu_create_vmmap boot_mm no_map = ret (m, v) \<and> mm_ok m \<and> vm_ok m v \<and> vm_areas v = kl_create \<and>
     2 \<le> card (free_frames m) \<and> free_kpages m \<noteq> {}"
proof -
  obtain m v where c: "mmu_create_vmmap boot_mm no_map = ret (m, v)" "vm_part boot_mm 512 m v" "vm_areas v = kl_create"
      "1000000 \<le> card (free_frames m)" "200000 \<le> card (free_kpages m)"
    using boot_create by blast
  have "free_kpages m \<noteq> {}" using c(5) by auto
  then show ?thesis using c vm_part_ok(1)[OF c(2)] by (auto simp: vm_part_def)
qed

theorem page_fault_served_witness:
  "\<exists>m v m' w k. mmu_create_vmmap boot_mm no_map = ret (m, v) \<and>
     vm_map_handle_fault (m, v\<lparr>vm_areas := kl_enqueue kl_create (anon_area 0x400000 8192 64)\<rparr>) 0x401234 = Inr (0, m', w) \<and>
     hw_walk m' (vm_pml4_phys w) 0x401234 = Some (4096 * k + 0x234) \<and> k \<in> free_frames m"
proof -
  obtain m v where b: "mmu_create_vmmap boot_mm no_map = ret (m, v)" "mm_ok m" "vm_ok m v" "2 \<le> card (free_frames m)" "free_kpages m \<noteq> {}"
    using boot_areas by blast
  define v' where "v' = v\<lparr>vm_areas := kl_enqueue kl_create (anon_area 0x400000 8192 64)\<rparr>"
  have ar: "areas v' = [anon_area 0x400000 8192 64]" by (simp add: v'_def kl_enqueue_def kl_create_def)
  have wf: "areas_wf v'" unfolding areas_wf_def ar by (simp add: anon_area_def obj_ok_def)
  have vo: "vm_ok m v'" using b(3) by (simp add: v'_def)
  have "\<exists>a \<in> set (areas v'). covers (0x401234 - 0x401234 mod PAGE4K) a" unfolding ar by (simp add: covers_def anon_area_def)
  then obtain m' w k where r: "vm_map_handle_fault (m, v') 0x401234 = Inr (0, m', w)" "k \<in> free_frames m"
      "\<forall>x<2 ^ 39. hw_walk m' (vm_pml4_phys w) x =
         (if x div PAGE4K = 0x401234 div PAGE4K then Some (PAGE4K * k + x mod PAGE4K) else hw_walk m (vm_pml4_phys v') x)"
    using page_fault_served[OF b(2) vo wf b(4,5), of "0x401234"] by auto
  then show ?thesis using b(1) unfolding v'_def by (intro exI[of _ m] exI[of _ v] exI[of _ m'] exI[of _ w] exI[of _ k]) simp
qed

subsection \<open>Areas across fork\<close>

lemma mktable_areas: "mktable m v i j = Inr (m', w) \<Longrightarrow> vm_areas w = vm_areas v"
  by (auto simp: mktable_def bindS_Inr)

lemma clone_tables_areas: "clone_tables m v src ps = Inr (m', w) \<Longrightarrow> vm_areas w = vm_areas v"
  by (induction m v src ps rule: clone_tables.induct) (auto simp: bindS_Inr dest!: mktable_areas split: if_splits)

lemma create_pds_areas: "create_pds m v is = ret (m', w) \<Longrightarrow> vm_areas w = vm_areas v"
proof (induction "is" arbitrary: m v)
  case (Cons i "is")
  then show ?case by (auto simp: bindR_ret dest!: Cons.IH)
qed simp

lemma clone_areas: "mmu_clone_vmmap m junk src = ret (m', w) \<Longrightarrow> vm_areas w = kl_create"
  by (auto simp: mmu_clone_vmmap_def mmu_create_vmmap_def bindR_ret Let_def dest!: clone_tables_areas create_pds_areas)

text \<open>
  the copy of an address space that \<open>fork\<close> makes has no areas, so in the child every fault is
  refused: memory that the parent had mapped and not yet touched is lost, and the first access of
  the child to it is a segmentation fault.
\<close>

theorem fork_drops_areas:
  assumes "mmu_clone_vmmap m junk src = ret (m', w)"
  shows "vm_map_handle_fault (m', w) va = Inr (-1, m', w)"
  using clone_areas[OF assms] by (simp add: vm_map_handle_fault_def kl_create_def)

theorem fork_drops_areas_witness:
  "\<exists>m0 v0 m v m' w. mmu_create_vmmap boot_mm no_map = ret (m0, v0) \<and> mmu_map m0 v0 0x400000 0 3 = Inr (m, v) \<and>
     mmu_clone_vmmap m no_map v = ret (m', w) \<and> vm_map_handle_fault (m', w) 0x500000 = Inr (-1, m', w)"
proof -
  obtain m0 v0 m v m' w where c: "mmu_create_vmmap boot_mm no_map = ret (m0, v0)" "mmu_map m0 v0 0x400000 0 3 = Inr (m, v)"
      "mmu_clone_vmmap m no_map v = ret (m', w)"
    using boot_clone by blast
  from fork_drops_areas[OF c(3), of "0x500000"] show ?thesis using c by blast
qed

end
