(* ===== verification/Task.thy ===== *)
theory Task
  imports Vmarea
begin

text \<open>
  Tasks, threads, signals and the scheduler: \<^verbatim>\<open>kernel/kern/task.c\<close>, \<^verbatim>\<open>thread.c\<close>, \<^verbatim>\<open>sched.c\<close>,
  \<^verbatim>\<open>signal.c\<close>, \<^verbatim>\<open>exit.c\<close>, \<^verbatim>\<open>fork.c\<close>, \<^verbatim>\<open>ptrace.c\<close>, \<^verbatim>\<open>sem.c\<close>, the context switch and signal frame of
  \<^verbatim>\<open>cpu.c\<close>, and the processor exceptions of \<^verbatim>\<open>except.c\<close> that concern a task.

  The memory below the tasks is the record of operations \<open>mo\<close>; \<open>kernel_memops\<close>, at the end, is the
  record of the kernel's own operations. A system call that gives up the processor is split in the
  part before and the part after the thread runs again.
\<close>

unbundle bit_operations_syntax

subsection \<open>Threads, tasks and the state of the scheduler\<close>

datatype reg = R15 | R14 | R13 | R12 | R11 | R10 | R9 | R8 | RBP | RDI | RSI | RDX | RCX | RBX | RAX | RIP | CS | RFLAGS | RSP | SS

type_synonym regs = "reg \<Rightarrow> nat"

record sigact =
  sa_handler :: nat
  sa_sigaction :: nat
  sa_mask :: nat
  sa_flags :: nat
  sa_restorer :: nat

definition no_act :: sigact where
  "no_act = \<lparr>sa_handler = 0, sa_sigaction = 0, sa_mask = 0, sa_flags = 0, sa_restorer = 0\<rparr>"

datatype tstate = THREAD_RUNNING | THREAD_READY | THREAD_DEAD | THREAD_WAITING | THREAD_BLOCKED

record thread =
  th_state :: tstate
  th_regs :: regs
  th_task :: addr
  th_kstack :: addr
  th_sysregs :: regs
  th_sigqueue :: "nat klist"
  th_sigmask :: nat
  th_sigstack :: addr

datatype pstate = TASK_RUNNING | TASK_STOPPED | TASK_DEAD

record 'v task =
  t_pid :: int
  t_pgid :: int
  t_sid :: int
  t_threads :: "addr klist"
  t_children :: "addr klist"
  t_parent :: addr
  t_fds :: "nat \<Rightarrow> addr"
  t_main :: addr
  t_vm :: 'v
  t_workd :: string
  t_signals :: "nat \<Rightarrow> sigact"
  t_status :: nat
  t_state :: pstate
  t_was_stop :: bool
  t_waiting :: int
  t_ruid :: nat
  t_euid :: nat
  t_rgid :: nat
  t_egid :: nat
  t_groups :: addr
  t_groupcnt :: nat
  t_tracer :: addr
  t_umask :: nat
  t_brk :: addr

text \<open>
  What the tasks need of the memory of the machine: the kernel heap, address spaces, a kernel
  stack, the signal stack, the first page of a user stack, a store of the kernel to user memory,
  and the fault handler.
\<close>

record ('m, 'v) memops =
  mo_kmalloc :: "'m \<Rightarrow> nat \<Rightarrow> (addr \<times> 'm) run"
  mo_kfree :: "'m \<Rightarrow> addr \<Rightarrow> 'm run"
  mo_create :: "'m \<Rightarrow> ('m \<times> 'v) run"
  mo_clone :: "'m \<Rightarrow> 'v \<Rightarrow> ('m \<times> 'v) run"
  mo_destroy :: "'m \<Rightarrow> 'v \<Rightarrow> 'm run"
  mo_kstack :: "'m \<Rightarrow> (addr \<times> 'm) run"
  mo_sigstack :: "'m \<Rightarrow> 'v \<Rightarrow> (addr \<times> 'm \<times> 'v) run"
  mo_stack :: "'m \<Rightarrow> 'v \<Rightarrow> addr \<Rightarrow> ('m \<times> 'v) run"
  mo_store :: "'m \<Rightarrow> 'v \<Rightarrow> addr \<Rightarrow> nat \<Rightarrow> 'm res"
  mo_fault :: "'m \<Rightarrow> 'v \<Rightarrow> addr \<Rightarrow> (int \<times> 'm \<times> 'v) res"

text \<open>
  The statics of \<^verbatim>\<open>sched.c\<close> and \<^verbatim>\<open>task.c\<close>, the objects they point to, and one processor: the thread
  it runs, its idle thread, the kernel stack of its task state segment, and the registers that it
  goes on with. Each spin lock is released before the routine that takes it gives up the
  processor, so with one processor they are always free.
\<close>

record ('m, 'v, 'w) kst =
  ks_mem :: 'm
  ks_vfs :: "'w vfs"
  ks_files :: "addr \<rightharpoonup> kfile"
  ks_gids :: "addr \<rightharpoonup> nat list"
  ks_tasks :: "addr \<rightharpoonup> 'v task"
  ks_threads :: "addr \<rightharpoonup> thread"
  ks_list :: "addr klist"
  ks_ready :: "addr klist"
  ks_pid :: nat
  ks_up :: bool
  ks_curr :: addr
  ks_idle :: addr
  ks_rsp0 :: addr
  ks_cpu :: regs

abbreviation (input) sizeof_task :: nat where "sizeof_task \<equiv> 1264"
abbreviation (input) sizeof_thread :: nat where "sizeof_thread \<equiv> 384"

definition set_task :: "('m, 'v, 'w) kst \<Rightarrow> addr \<Rightarrow> ('v task \<Rightarrow> 'v task) \<Rightarrow> ('m, 'v, 'w) kst res" where
  "set_task s p f = bindS (load (ks_tasks s) p) (\<lambda>t. Inr (s\<lparr>ks_tasks := (ks_tasks s)(p \<mapsto> f t)\<rparr>))"

definition set_thread :: "('m, 'v, 'w) kst \<Rightarrow> addr \<Rightarrow> (thread \<Rightarrow> thread) \<Rightarrow> ('m, 'v, 'w) kst res" where
  "set_thread s p f = bindS (load (ks_threads s) p) (\<lambda>t. Inr (s\<lparr>ks_threads := (ks_threads s)(p \<mapsto> f t)\<rparr>))"

text \<open>\<open>task_curr\<close>; 0 is the null pointer.\<close>

definition task_curr :: "('m, 'v, 'w) kst \<Rightarrow> addr res" where
  "task_curr s = (if ks_curr s = 0 then Inr 0 else bindS (load (ks_threads s) (ks_curr s)) (\<lambda>t. Inr (th_task t)))"

fun find_pid :: "(addr \<rightharpoonup> 'v task) \<Rightarrow> int \<Rightarrow> addr list \<Rightarrow> addr res" where
  "find_pid T pid [] = Inr 0"
| "find_pid T pid (p # ps) = bindS (load T p) (\<lambda>t. if t_pid t = pid then Inr p else find_pid T pid ps)"

definition sched_task_fromid :: "('m, 'v, 'w) kst \<Rightarrow> int \<Rightarrow> addr res" where
  "sched_task_fromid s pid = find_pid (ks_tasks s) pid (kl_items (ks_list s))"

definition sched_spawnthread :: "('m, 'v, 'w) kst \<Rightarrow> addr \<Rightarrow> ('m, 'v, 'w) kst res" where
  "sched_spawnthread s p =
     bindS (set_thread s p (th_state_update (\<lambda>_. THREAD_READY))) (\<lambda>s. Inr (s\<lparr>ks_ready := kl_enqueue (ks_ready s) p\<rparr>))"

definition thread_unblock :: "('m, 'v, 'w) kst \<Rightarrow> addr \<Rightarrow> ('m, 'v, 'w) kst res" where
  "thread_unblock s p = sched_spawnthread s p"

fun spawn_all :: "('m, 'v, 'w) kst \<Rightarrow> addr list \<Rightarrow> ('m, 'v, 'w) kst res" where
  "spawn_all s [] = Inr s"
| "spawn_all s (p # ps) = bindS (sched_spawnthread s p) (\<lambda>s. spawn_all s ps)"

definition sched_start :: "('m, 'v, 'w) kst \<Rightarrow> addr \<Rightarrow> ('m, 'v, 'w) kst res" where
  "sched_start s p =
     (let s = s\<lparr>ks_list := kl_enqueue (ks_list s) p\<rparr> in
      bindS (load (ks_tasks s) p) (\<lambda>t. spawn_all s (kl_items (t_threads t))))"

definition thread_free :: "('m, 'v, 'w) kst \<Rightarrow> addr \<Rightarrow> ('m, 'v, 'w) kst res" where
  "thread_free s p = set_thread s p (th_state_update (\<lambda>_. THREAD_DEAD))"

text \<open>\<open>task_change\<close> wakes a parent that waits for the task, and reads the parent even where there is none.\<close>

definition task_change :: "('m, 'v, 'w) kst \<Rightarrow> addr \<Rightarrow> pstate \<Rightarrow> ('m, 'v, 'w) kst res" where
  "task_change s p st =
     bindS (set_task s p (t_state_update (\<lambda>_. st))) (\<lambda>s.
     bindS (load (ks_tasks s) p) (\<lambda>t.
     bindS (load (ks_tasks s) (t_parent t)) (\<lambda>par.
       if t_waiting par = t_pid t \<or> t_waiting par = -1 then
         bindS (thread_unblock s (t_main par)) (\<lambda>s. set_task s (t_parent t) (t_waiting_update (\<lambda>_. 0)))
       else Inr s)))"

subsection \<open>Creating threads and tasks\<close>

abbreviation (input) GDT_CODE0 :: nat where "GDT_CODE0 \<equiv> 0x08"
abbreviation (input) GDT_DATA0 :: nat where "GDT_DATA0 \<equiv> 0x10"
abbreviation (input) GDT_CODE3 :: nat where "GDT_CODE3 \<equiv> 0x18"
abbreviation (input) GDT_DATA3 :: nat where "GDT_DATA3 \<equiv> 0x20"

definition arch_init_thread :: "regs \<Rightarrow> bool \<Rightarrow> regs" where
  "arch_init_thread r usr =
     r(CS := if usr then GDT_CODE3 OR 3 else GDT_CODE0, SS := if usr then GDT_DATA3 OR 3 else GDT_DATA0, RFLAGS := 0x202)"

definition init_thread_meta :: "('m, 'v) memops \<Rightarrow> ('m, 'v, 'w) kst \<Rightarrow> addr \<Rightarrow> addr \<Rightarrow> ('m, 'v, 'w) kst run" where
  "init_thread_meta mo s th task =
     bindR (mo_kstack mo (ks_mem s)) (\<lambda>(k, m).
     bindR (Some (load (ks_tasks s) task)) (\<lambda>t.
     bindR (mo_sigstack mo m (t_vm t)) (\<lambda>(fin, m, v).
     bindR (Some (set_task (s\<lparr>ks_mem := m\<rparr>) task (t_vm_update (\<lambda>_. v)))) (\<lambda>s.
       Some (set_thread s th (\<lambda>t. t\<lparr>th_task := task, th_state := THREAD_READY, th_kstack := k,
         th_sigqueue := kl_create, th_sigmask := 0, th_sigstack := fin\<rparr>))))))"

definition zero_thread :: thread where
  "zero_thread = \<lparr>th_state = THREAD_RUNNING, th_regs = (\<lambda>_. 0), th_task = 0, th_kstack = 0, th_sysregs = (\<lambda>_. 0),
     th_sigqueue = kl_create, th_sigmask = 0, th_sigstack = 0\<rparr>"

definition new_thread :: "('m, 'v) memops \<Rightarrow> ('m, 'v, 'w) kst \<Rightarrow> thread \<Rightarrow> (addr \<times> ('m, 'v, 'w) kst) run" where
  "new_thread mo s th =
     bindR (mo_kmalloc mo (ks_mem s) sizeof_thread) (\<lambda>(p, m).
       if p = 0 then Some (Inl BadAccess) else ret (p, s\<lparr>ks_mem := m, ks_threads := (ks_threads s)(p \<mapsto> th)\<rparr>))"

definition thread_creat :: "('m, 'v) memops \<Rightarrow> ('m, 'v, 'w) kst \<Rightarrow> addr \<Rightarrow> addr \<Rightarrow> bool \<Rightarrow> (addr \<times> ('m, 'v, 'w) kst) run" where
  "thread_creat mo s task entry usr =
     bindR (new_thread mo s zero_thread) (\<lambda>(p, s).
     bindR (Some (set_thread s p (\<lambda>t. t\<lparr>th_regs := arch_init_thread (th_regs t) usr\<rparr>))) (\<lambda>s.
     bindR (init_thread_meta mo s p task) (\<lambda>s.
     bindR (Some (set_thread s p (\<lambda>t. t\<lparr>th_regs := (th_regs t)(RIP := entry)\<rparr>))) (\<lambda>s. ret (p, s)))))"

definition thread_clone :: "('m, 'v) memops \<Rightarrow> ('m, 'v, 'w) kst \<Rightarrow> addr \<Rightarrow> addr \<Rightarrow> (addr \<times> ('m, 'v, 'w) kst) run" where
  "thread_clone mo s task src =
     bindR (Some (load (ks_threads s) src)) (\<lambda>th.
     bindR (new_thread mo s th) (\<lambda>(p, s).
     bindR (init_thread_meta mo s p task) (\<lambda>s. ret (p, s))))"

definition fresh_task :: "int \<Rightarrow> addr \<Rightarrow> 'v \<Rightarrow> 'v task" where
  "fresh_task pid parent v = \<lparr>t_pid = pid, t_pgid = 0, t_sid = 0, t_threads = kl_create, t_children = kl_create, t_parent = parent,
     t_fds = (\<lambda>_. 0), t_main = 0, t_vm = v, t_workd = ''/'', t_signals = (\<lambda>_. no_act), t_status = 0, t_state = TASK_RUNNING,
     t_was_stop = False, t_waiting = 0, t_ruid = 0, t_euid = 0, t_rgid = 0, t_egid = 0, t_groups = 0, t_groupcnt = 0,
     t_tracer = 0, t_umask = 0x12, t_brk = 0\<rparr>"

text \<open>The counter of process identifiers is unsigned, \<^verbatim>\<open>pid_t\<close> is signed.\<close>

definition s32 :: "nat \<Rightarrow> int" where
  "s32 n = (if n mod 2 ^ 32 < 2 ^ 31 then int (n mod 2 ^ 32) else int (n mod 2 ^ 32) - 2 ^ 32)"

definition mktask :: "('m, 'v) memops \<Rightarrow> ('m, 'v, 'w) kst \<Rightarrow> addr \<Rightarrow> 'v \<Rightarrow> (addr \<times> ('m, 'v, 'w) kst) run" where
  "mktask mo s parent v =
     bindR (mo_kmalloc mo (ks_mem s) sizeof_task) (\<lambda>(p, m).
       if p = 0 then Some (Inl BadAccess)
       else
         bindR (mo_kmalloc mo m (8 * FD_MAX)) (\<lambda>(fds, m).
           if fds = 0 then Some (Inl BadAccess)
           else
             let s = s\<lparr>ks_mem := m, ks_pid := add32 (ks_pid s) 1,
                       ks_tasks := (ks_tasks s)(p \<mapsto> fresh_task (s32 (ks_pid s)) parent v)\<rparr> in
             if parent \<noteq> 0 then
               bindR (Some (set_task s parent (\<lambda>t. t\<lparr>t_children := kl_enqueue (t_children t) p\<rparr>))) (\<lambda>s. ret (p, s))
             else ret (p, s)))"

definition task_kcreat :: "('m, 'v) memops \<Rightarrow> ('m, 'v, 'w) kst \<Rightarrow> addr \<Rightarrow> addr \<Rightarrow> (addr \<times> ('m, 'v, 'w) kst) run" where
  "task_kcreat mo s parent entry =
     bindR (mo_create mo (ks_mem s)) (\<lambda>(m, v).
     bindR (mktask mo (s\<lparr>ks_mem := m\<rparr>) parent v) (\<lambda>(p, s).
     bindR (thread_creat mo s p entry False) (\<lambda>(th, s).
     bindR (Some (set_task s p (t_main_update (\<lambda>_. th)))) (\<lambda>s.
     bindR (Some (load (ks_tasks s) p)) (\<lambda>t.
     let stack = 0x8000000000 in
     bindR (mo_stack mo (ks_mem s) (t_vm t) (stack - 0x1000)) (\<lambda>(m, v).
     bindR (Some (set_task (s\<lparr>ks_mem := m\<rparr>) p (t_vm_update (\<lambda>_. v)))) (\<lambda>s.
     bindR (Some (set_thread s th (\<lambda>t. t\<lparr>th_regs := (th_regs t)(RSP := stack, RBP := stack)\<rparr>))) (\<lambda>s.
     bindR (Some (set_task s p (\<lambda>t. t\<lparr>t_threads := kl_enqueue (t_threads t) th\<rparr>))) (\<lambda>s. ret (p, s))))))))))"

definition task_idle :: "('m, 'v) memops \<Rightarrow> ('m, 'v, 'w) kst \<Rightarrow> addr \<Rightarrow> (addr \<times> ('m, 'v, 'w) kst) run" where
  "task_idle mo s entry = task_kcreat mo s 0 entry"

text \<open>The loop of \<open>task_clone\<close> over the descriptors: each open file is copied.\<close>

fun clone_fds :: "('m, 'v) memops \<Rightarrow> ('m, 'v, 'w) kst \<Rightarrow> (nat \<Rightarrow> addr) \<Rightarrow> addr \<Rightarrow> nat list \<Rightarrow> ('m, 'v, 'w) kst run" where
  "clone_fds mo s fds p [] = ret s"
| "clone_fds mo s fds p (i # is) =
     (if fds i \<noteq> 0 then
        bindR (Some (load (ks_files s) (fds i))) (\<lambda>f.
        bindR (mo_kmalloc mo (ks_mem s) sizeof_file) (\<lambda>(q, m).
        if q = 0 then Some (Inl BadAccess)
        else
          bindR (Some (set_task (s\<lparr>ks_mem := m, ks_files := (ks_files s)(q \<mapsto> f)\<rparr>) p (\<lambda>t. t\<lparr>t_fds := (t_fds t)(i := q)\<rparr>))) (\<lambda>s.
            clone_fds mo s fds p is)))
      else clone_fds mo s fds p is)"

definition clone_groups :: "('m, 'v) memops \<Rightarrow> ('m, 'v, 'w) kst \<Rightarrow> 'v task \<Rightarrow> addr \<Rightarrow> ('m, 'v, 'w) kst run" where
  "clone_groups mo s src p =
     (if t_groupcnt src \<noteq> 0 then
        bindR (mo_kmalloc mo (ks_mem s) (t_groupcnt src * 4)) (\<lambda>(q, m).
        bindR (Some (load (ks_gids s) (t_groups src))) (\<lambda>gs.
        if q = 0 \<or> length gs < t_groupcnt src then Some (Inl BadAccess)
        else
          Some (set_task (s\<lparr>ks_mem := m, ks_gids := (ks_gids s)(q \<mapsto> take (t_groupcnt src) gs)\<rparr>) p
                  (\<lambda>t. t\<lparr>t_groupcnt := t_groupcnt src, t_groups := q\<rparr>))))
      else ret s)"

definition task_clone :: "('m, 'v) memops \<Rightarrow> ('m, 'v, 'w) kst \<Rightarrow> addr \<Rightarrow> addr \<Rightarrow> (addr \<times> ('m, 'v, 'w) kst) run" where
  "task_clone mo s src calling =
     bindR (Some (load (ks_tasks s) src)) (\<lambda>st.
     bindR (mo_clone mo (ks_mem s) (t_vm st)) (\<lambda>(m, v).
     bindR (mktask mo (s\<lparr>ks_mem := m\<rparr>) src v) (\<lambda>(p, s).
     bindR (thread_clone mo s p calling) (\<lambda>(th, s).
     bindR (Some (set_task s p (\<lambda>t. t\<lparr>t_main := th, t_threads := kl_enqueue (t_threads t) th\<rparr>))) (\<lambda>s.
     bindR (clone_fds mo s (t_fds st) p [0..<FD_MAX]) (\<lambda>s.
     bindR (Some (set_task s p (\<lambda>t. t\<lparr>t_workd := t_workd st, t_euid := t_euid st, t_egid := t_egid st,
                                       t_ruid := t_ruid st, t_rgid := t_rgid st, t_pgid := t_pgid st, t_sid := t_sid st\<rparr>))) (\<lambda>s.
     bindR (clone_groups mo s st p) (\<lambda>s.
     bindR (Some (set_task s p (\<lambda>t. t\<lparr>t_signals := (\<lambda>i. if i < 32 then t_signals st i else t_signals t i)\<rparr>))) (\<lambda>s. ret (p, s))))))))))"

definition sys_fork :: "('m, 'v) memops \<Rightarrow> ('m, 'v, 'w) kst \<Rightarrow> (int \<times> ('m, 'v, 'w) kst) run" where
  "sys_fork mo s =
     bindR (Some (task_curr s)) (\<lambda>me.
     bindR (Some (load (ks_threads s) (ks_curr s))) (\<lambda>calling.
     bindR (task_clone mo s me (ks_curr s)) (\<lambda>(p, s).
     bindR (Some (load (ks_tasks s) p)) (\<lambda>t.
     bindR (Some (kl_get (t_threads t) 0)) (\<lambda>th.
     bindR (Some (set_thread s th (\<lambda>t. t\<lparr>th_regs := (th_sysregs calling)(RAX := 0)\<rparr>))) (\<lambda>s.
     bindR (Some (sched_start s p)) (\<lambda>s. ret (t_pid t, s))))))))"

subsection \<open>Switching\<close>

definition next_ready :: "('m, 'v, 'w) kst \<Rightarrow> (addr \<times> ('m, 'v, 'w) kst) res" where
  "next_ready s =
     (if kl_size (ks_ready s) = 0 then Inr (ks_idle s, s)
      else case kl_dequeue (ks_ready s) of
        (None, q) \<Rightarrow> Inl BadAccess
      | (Some p, q) \<Rightarrow>
          bindS (load (ks_threads s) p) (\<lambda>t.
            if th_state t = THREAD_RUNNING then Inr (ks_idle s, s\<lparr>ks_ready := kl_enqueue q p\<rparr>)
            else Inr (p, s\<lparr>ks_ready := q\<rparr>)))"

text \<open>The loop at the start of \<open>switch_next\<close>, which looks for a thread that is ready.\<close>

partial_function (option) pick_next :: "('m, 'v, 'w) kst \<Rightarrow> ('m, 'v, 'w) kst run" where
  "pick_next s =
     (case next_ready s of
        Inl e \<Rightarrow> Some (Inl e)
      | Inr (p, s) \<Rightarrow>
          (case load (ks_threads s) p of
             Inl e \<Rightarrow> Some (Inl e)
           | Inr t \<Rightarrow> if th_state t = THREAD_READY then Some (Inr (s\<lparr>ks_curr := p\<rparr>)) else pick_next (s\<lparr>ks_curr := p\<rparr>)))"

text \<open>\<open>arch_switch_ctx\<close> continues with the registers of the thread in the address space of its task.\<close>

definition run_thread :: "('m, 'v, 'w) kst \<Rightarrow> ('m, 'v, 'w) kst res" where
  "run_thread s =
     bindS (set_thread s (ks_curr s) (th_state_update (\<lambda>_. THREAD_RUNNING))) (\<lambda>s.
     bindS (load (ks_threads s) (ks_curr s)) (\<lambda>t.
     bindS (load (ks_tasks s) (th_task t)) (\<lambda>_. Inr (s\<lparr>ks_rsp0 := th_kstack t, ks_cpu := th_regs t\<rparr>))))"

subsection \<open>Signals\<close>

abbreviation (input) SIGALRM :: nat where "SIGALRM \<equiv> 1"
abbreviation (input) SIGFPE :: nat where "SIGFPE \<equiv> 5"
abbreviation (input) SIGILL :: nat where "SIGILL \<equiv> 7"

datatype sigdef = SIGDEF_TERM | SIGDEF_IGN | SIGDEF_CORE | SIGDEF_STOP | SIGDEF_CONT

text \<open>
  The table \<^verbatim>\<open>defaults\<close>, indexed by \<^verbatim>\<open>SIGINVAL\<close>, \<^verbatim>\<open>SIGALRM\<close>, \<^verbatim>\<open>SIGBUS\<close>, \<^verbatim>\<open>SIGCHLD\<close>, \<^verbatim>\<open>SIGCONT\<close> and so on
  up to \<^verbatim>\<open>SIGABRT\<close>; the entry 0 has no initialiser.
\<close>

definition defaults :: "sigdef list" where
  "defaults = [SIGDEF_TERM, SIGDEF_TERM, SIGDEF_CORE, SIGDEF_IGN, SIGDEF_CONT, SIGDEF_CORE, SIGDEF_TERM, SIGDEF_CORE, SIGDEF_TERM, SIGDEF_TERM,
     SIGDEF_TERM, SIGDEF_TERM, SIGDEF_TERM, SIGDEF_CORE, SIGDEF_CORE, SIGDEF_STOP, SIGDEF_STOP, SIGDEF_CORE, SIGDEF_TERM, SIGDEF_CORE,
     SIGDEF_STOP, SIGDEF_STOP, SIGDEF_IGN, SIGDEF_TERM, SIGDEF_TERM, SIGDEF_TERM, SIGDEF_CORE, SIGDEF_CORE, SIGDEF_IGN, SIGDEF_CORE]"

text \<open>How a routine that may give up the processor ends: it returns, it calls \<open>switch_next\<close>, or it enters a handler.\<close>

datatype flow = Back | Resched | Entered

fun kill_threads :: "('m, 'v, 'w) kst \<Rightarrow> addr list \<Rightarrow> ('m, 'v, 'w) kst res" where
  "kill_threads s [] = Inr s"
| "kill_threads s (p # ps) = bindS (set_thread s p (th_state_update (\<lambda>_. THREAD_DEAD))) (\<lambda>s. kill_threads s ps)"

fun close_fds :: "('m, 'v, 'w) kst \<Rightarrow> addr \<Rightarrow> nat list \<Rightarrow> ('m, 'v, 'w) kst res" where
  "close_fds s p [] = Inr s"
| "close_fds s p (i # is) =
     bindS (load (ks_tasks s) p) (\<lambda>t.
       if t_fds t i \<noteq> 0 then
         bindS (load (ks_files s) (t_fds t i)) (\<lambda>f.
         bindS (set_task (s\<lparr>ks_vfs := vfs_close (ks_vfs s) f\<rparr>) p (\<lambda>t. t\<lparr>t_fds := (t_fds t)(i := 0)\<rparr>)) (\<lambda>s. close_fds s p is))
       else close_fds s p is)"

text \<open>
  \<open>task_send\<close> queues the signal at the main thread; \<open>True\<close> means that it then yields, because the
  task is the running one.
\<close>

definition task_send :: "('m, 'v, 'w) kst \<Rightarrow> addr \<Rightarrow> nat \<Rightarrow> (bool \<times> ('m, 'v, 'w) kst) res" where
  "task_send s p sig =
     bindS (load (ks_tasks s) p) (\<lambda>t.
     bindS (set_thread s (t_main t) (\<lambda>th. th\<lparr>th_sigqueue := kl_enqueue (th_sigqueue th) sig\<rparr>)) (\<lambda>s.
     bindS (task_curr s) (\<lambda>me. Inr (p = me, s))))"

text \<open>
  \<open>task_exit\<close> up to its call of \<open>switch_next\<close>. Where the task is \<open>init\<close> itself the loop over the
  children appends to the list it walks and does not end.
\<close>

definition adopt :: "('m, 'v, 'w) kst \<Rightarrow> addr \<Rightarrow> addr \<Rightarrow> ('m, 'v, 'w) kst run" where
  "adopt s p ini =
     bindR (Some (load (ks_tasks s) p)) (\<lambda>t.
       if kl_items (t_children t) \<noteq> [] \<and> ini = p then None
       else
         bindR (Some (if kl_items (t_children t) = [] then Inr s
                      else set_task s ini (\<lambda>i. i\<lparr>t_children := foldl kl_enqueue (t_children i) (kl_items (t_children t))\<rparr>))) (\<lambda>s.
         case kl_clear (t_children t) of
           None \<Rightarrow> None
         | Some l \<Rightarrow> Some (set_task s p (t_children_update (\<lambda>_. l)))))"

definition task_exit :: "('m, 'v, 'w) kst \<Rightarrow> nat \<Rightarrow> ('m, 'v, 'w) kst run" where
  "task_exit s status =
     bindR (Some (task_curr s)) (\<lambda>p.
     bindR (Some (load (ks_tasks s) p)) (\<lambda>t.
     bindR (Some (kill_threads s (kl_items (t_threads t)))) (\<lambda>s.
     bindR (Some (sched_task_fromid s 1)) (\<lambda>ini.
     bindR (adopt s p ini) (\<lambda>s.
     bindR (Some (close_fds s p [0..<FD_MAX])) (\<lambda>s.
     bindR (Some (set_task s p (t_main_update (\<lambda>_. 0)))) (\<lambda>s.
     bindR (Some (if t_parent t \<noteq> 0 then bindS (task_send s (t_parent t) SIGCHLD) (\<lambda>(_, s). Inr s) else Inr s)) (\<lambda>s.
     bindR (Some (task_change s p TASK_DEAD)) (\<lambda>s.
       Some (set_task s p (t_status_update (\<lambda>_. status))))))))))))"

definition handle_stopsig :: "('m, 'v, 'w) kst \<Rightarrow> addr \<Rightarrow> nat \<Rightarrow> ('m, 'v, 'w) kst res" where
  "handle_stopsig s p sig =
     bindS (load (ks_threads s) p) (\<lambda>th.
     bindS (task_change s (th_task th) TASK_STOPPED) (\<lambda>s.
       set_task s (th_task th) (t_status_update (\<lambda>_. push_bit 8 sig OR 0x7f))))"

definition thread_handle_contsig :: "('m, 'v, 'w) kst \<Rightarrow> addr \<Rightarrow> ('m, 'v, 'w) kst res" where
  "thread_handle_contsig s p =
     bindS (load (ks_threads s) p) (\<lambda>th.
     bindS (set_task s (th_task th) (t_status_update (\<lambda>_. 0xffff))) (\<lambda>s.
     bindS (task_change s (th_task th) TASK_RUNNING) (\<lambda>s. sched_spawnthread s p)))"

text \<open>\<open>arch_enter_signal\<close> continues in user mode at the handler, on the signal stack.\<close>

definition arch_enter_signal :: "('m, 'v) memops \<Rightarrow> ('m, 'v, 'w) kst \<Rightarrow> addr \<Rightarrow> nat \<Rightarrow> ('m, 'v, 'w) kst res" where
  "arch_enter_signal mo s p sig =
     bindS (load (ks_threads s) p) (\<lambda>th.
     bindS (load (ks_tasks s) (th_task th)) (\<lambda>t.
     let rsp = sub64 (th_sigstack th) 8 in
     bindS (mo_store mo (ks_mem s) (t_vm t) rsp (sa_restorer (t_signals t sig))) (\<lambda>m.
       Inr (s\<lparr>ks_mem := m, ks_cpu := ((\<lambda>_. 0)(CS := GDT_CODE3 OR 3, SS := GDT_DATA3 OR 3, RFLAGS := 0x202,
                                                 RIP := sa_handler (t_signals t sig), RSP := rsp))\<rparr>))))"

text \<open>
  One pass through the body of the loop of \<open>thread_handle_signals\<close>; \<open>None\<close> for the flow means that
  the loop goes on.
\<close>

definition handle_one :: "('m, 'v) memops \<Rightarrow> ('m, 'v, 'w) kst \<Rightarrow> addr \<Rightarrow> nat \<Rightarrow> (flow option \<times> ('m, 'v, 'w) kst) run" where
  "handle_one mo s p sig =
     bindR (Some (load (ks_threads s) p)) (\<lambda>th.
     bindR (Some (load (ks_tasks s) (th_task th))) (\<lambda>t.
       if t_tracer t \<noteq> 0 then bindR (Some (handle_stopsig s p sig)) (\<lambda>s. ret (Some Resched, s))
       else if sig \<ge> 32 then Some (Inl Overrun)
       else if sig \<noteq> SIGKILL \<and> sig \<noteq> SIGSTOP \<and> th_sigmask th AND push_bit sig 1 \<noteq> 0 then ret (Some Back, s)
       else if sa_handler (t_signals t sig) = 0 then
         if sig \<ge> length defaults then Some (Inl Overrun)
         else case defaults ! sig of
           SIGDEF_TERM \<Rightarrow> bindR (task_exit s sig) (\<lambda>s. ret (Some Resched, s))
         | SIGDEF_CORE \<Rightarrow> bindR (task_exit s (sig OR 0x80)) (\<lambda>s. ret (Some Resched, s))
         | SIGDEF_STOP \<Rightarrow> bindR (Some (handle_stopsig s p sig)) (\<lambda>s. ret (Some Resched, s))
         | SIGDEF_CONT \<Rightarrow> bindR (Some (thread_handle_contsig s p)) (\<lambda>s. ret (None, s))
         | SIGDEF_IGN \<Rightarrow> ret (None, s)
       else if sa_handler (t_signals t sig) = 1 then ret (None, s)
       else bindR (Some (arch_enter_signal mo s p sig)) (\<lambda>s. ret (Some Entered, s))))"

text \<open>
  The loop itself. Every pass takes one signal off the queue and none adds one to it, so the
  number of signals queued at the start bounds it.
\<close>

fun handle_loop :: "('m, 'v) memops \<Rightarrow> nat \<Rightarrow> ('m, 'v, 'w) kst \<Rightarrow> addr \<Rightarrow> (flow \<times> ('m, 'v, 'w) kst) run" where
  "handle_loop mo 0 s p = ret (Back, s)"
| "handle_loop mo (Suc n) s p =
     bindR (Some (load (ks_threads s) p)) (\<lambda>th.
       case kl_dequeue (th_sigqueue th) of
         (None, q) \<Rightarrow> Some (Inl BadAccess)
       | (Some sig, q) \<Rightarrow>
           bindR (Some (set_thread s p (th_sigqueue_update (\<lambda>_. q)))) (\<lambda>s.
           bindR (handle_one mo s p sig) (\<lambda>(fl, s). case fl of Some f \<Rightarrow> ret (f, s) | None \<Rightarrow> handle_loop mo n s p)))"

definition thread_handle_signals :: "('m, 'v) memops \<Rightarrow> ('m, 'v, 'w) kst \<Rightarrow> addr \<Rightarrow> (flow \<times> ('m, 'v, 'w) kst) run" where
  "thread_handle_signals mo s p =
     bindR (Some (load (ks_threads s) p)) (\<lambda>th. handle_loop mo (kl_size (th_sigqueue th)) s p)"

partial_function (option) switch_next :: "('m, 'v) memops \<Rightarrow> ('m, 'v, 'w) kst \<Rightarrow> ('m, 'v, 'w) kst run" where
  "switch_next mo s =
     (case pick_next s of
        None \<Rightarrow> None
      | Some (Inl e) \<Rightarrow> Some (Inl e)
      | Some (Inr s) \<Rightarrow>
          (case thread_handle_signals mo s (ks_curr s) of
             None \<Rightarrow> None
           | Some (Inl e) \<Rightarrow> Some (Inl e)
           | Some (Inr (Back, s)) \<Rightarrow> Some (run_thread s)
           | Some (Inr (Entered, s)) \<Rightarrow> Some (Inr s)
           | Some (Inr (Resched, s)) \<Rightarrow> switch_next mo s))"

definition switch_task :: "('m, 'v) memops \<Rightarrow> ('m, 'v, 'w) kst \<Rightarrow> regs \<Rightarrow> ('m, 'v, 'w) kst run" where
  "switch_task mo s r =
     bindR (Some (if ks_curr s = 0 then Inr s
                  else
                    bindS (set_thread s (ks_curr s) (th_regs_update (\<lambda>_. r))) (\<lambda>s.
                    bindS (load (ks_threads s) (ks_curr s)) (\<lambda>t.
                      if th_state t = THREAD_RUNNING then
                        bindS (set_thread s (ks_curr s) (th_state_update (\<lambda>_. THREAD_READY))) (\<lambda>s.
                          Inr (s\<lparr>ks_ready := kl_enqueue (ks_ready s) (ks_curr s)\<rparr>))
                      else Inr s)))) (\<lambda>s. switch_next mo s)"

definition sched_tick :: "('m, 'v) memops \<Rightarrow> ('m, 'v, 'w) kst \<Rightarrow> regs \<Rightarrow> ('m, 'v, 'w) kst run" where
  "sched_tick mo s r = (if \<not> ks_up s then ret s else switch_task mo s r)"

text \<open>\<open>sched_yield\<close> raises the interrupt whose handler is \<open>switch_task\<close>; \<open>r\<close> are the registers there.\<close>

definition sched_yield :: "('m, 'v) memops \<Rightarrow> ('m, 'v, 'w) kst \<Rightarrow> regs \<Rightarrow> ('m, 'v, 'w) kst run" where
  "sched_yield mo s r = switch_task mo s r"

definition thread_block :: "('m, 'v) memops \<Rightarrow> ('m, 'v, 'w) kst \<Rightarrow> regs \<Rightarrow> ('m, 'v, 'w) kst run" where
  "thread_block mo s r =
     bindR (Some (set_thread s (ks_curr s) (th_state_update (\<lambda>_. THREAD_BLOCKED)))) (\<lambda>s. sched_yield mo s r)"

definition start_idle :: "('m, 'v) memops \<Rightarrow> addr \<Rightarrow> ('m, 'v, 'w) kst \<Rightarrow> ('m, 'v, 'w) kst run" where
  "start_idle mo entry s =
     bindR (task_idle mo s entry) (\<lambda>(p, s).
     bindR (Some (load (ks_tasks s) p)) (\<lambda>t.
     bindR (Some (kl_get (t_threads t) 0)) (\<lambda>th.
     bindR (Some (set_thread s th (th_state_update (\<lambda>_. THREAD_READY)))) (\<lambda>s. ret (s\<lparr>ks_idle := th\<rparr>)))))"

text \<open>\<open>sched_init\<close> after the creation of \<open>init\<close>, the task \<open>ini\<close>, up to its final endless loop.\<close>

definition sched_init :: "('m, 'v) memops \<Rightarrow> ('m, 'v, 'w) kst \<Rightarrow> (('m, 'v, 'w) kst \<Rightarrow> (addr \<times> ('m, 'v, 'w) kst) run) \<Rightarrow> addr \<Rightarrow> ('m, 'v, 'w) kst run" where
  "sched_init mo s init_creat entry =
     (let s = s\<lparr>ks_list := kl_create, ks_ready := kl_create\<rparr> in
      bindR (init_creat s) (\<lambda>(ini, s).
      bindR (start_idle mo entry s) (\<lambda>s.
      bindR (Some (sched_start s ini)) (\<lambda>s. ret (s\<lparr>ks_up := True\<rparr>)))))"

subsection \<open>Exit and wait\<close>

text \<open>
  A call that gives up the processor in the middle is two definitions: the code up to that point,
  whose state is the one that the processor goes on with, and the code that runs when the thread
  is switched to again. \<open>Returns\<close> is a call that returned, with its value; \<open>Yields\<close> one that gave
  up the processor.
\<close>

datatype 'a call = Returns 'a | Yields

definition sys_exit :: "('m, 'v) memops \<Rightarrow> ('m, 'v, 'w) kst \<Rightarrow> nat \<Rightarrow> ('m, 'v, 'w) kst run" where
  "sys_exit mo s stat = bindR (task_exit s (push_bit 8 (stat AND 0xff))) (\<lambda>s. switch_next mo s)"

definition has_child_changed :: "'v task \<Rightarrow> bool \<times> 'v task" where
  "has_child_changed t =
     (if t_state t = TASK_DEAD then (True, t)
      else if t_state t = TASK_STOPPED \<and> \<not> t_was_stop t then (True, t\<lparr>t_was_stop := True\<rparr>)
      else if t_state t = TASK_RUNNING \<and> t_was_stop t then (True, t\<lparr>t_was_stop := False\<rparr>)
      else (False, t))"

fun index_of :: "addr \<Rightarrow> addr list \<Rightarrow> nat option" where
  "index_of p [] = None"
| "index_of p (x # xs) = (if x = p then Some 0 else map_option Suc (index_of p xs))"

definition task_delete :: "('m, 'v) memops \<Rightarrow> ('m, 'v, 'w) kst \<Rightarrow> addr \<Rightarrow> ('m, 'v, 'w) kst run" where
  "task_delete mo s p =
     bindR (Some (load (ks_tasks s) p)) (\<lambda>t.
     bindR (Some (if t_parent t = 0 then Inr s
                  else
                    bindS (load (ks_tasks s) (t_parent t)) (\<lambda>par.
                      case index_of p (kl_items (t_children par)) of
                        None \<Rightarrow> Inr s
                      | Some i \<Rightarrow>
                          bindS (kl_remove (t_children par) i) (\<lambda>(_, l). set_task s (t_parent t) (t_children_update (\<lambda>_. l)))))) (\<lambda>s.
     bindR (mo_destroy mo (ks_mem s) (t_vm t)) (\<lambda>m.
     bindR (mo_kfree mo m p) (\<lambda>m. ret (s\<lparr>ks_mem := m, ks_tasks := (ks_tasks s)(p := None)\<rparr>)))))"

text \<open>The end of a wait for the task at \<open>p\<close>, which has changed: its identifier and status; a dead task is reaped.\<close>

definition reap :: "('m, 'v) memops \<Rightarrow> ('m, 'v, 'w) kst \<Rightarrow> addr \<Rightarrow> 'v task \<Rightarrow> ((int \<times> nat option) \<times> ('m, 'v, 'w) kst) run" where
  "reap mo s p t =
     (let s = s\<lparr>ks_tasks := (ks_tasks s)(p \<mapsto> t)\<rparr> in
      bindR (if t_state t = TASK_DEAD then task_delete mo s p else ret s) (\<lambda>s. ret ((t_pid t, Some (t_status t)), s)))"

fun find_changed :: "(addr \<rightharpoonup> 'v task) \<Rightarrow> addr list \<Rightarrow> (addr \<times> 'v task) option res" where
  "find_changed T [] = Inr None"
| "find_changed T (p # ps) =
     bindS (load T p) (\<lambda>t. let (c, t) = has_child_changed t in if c then Inr (Some (p, t)) else find_changed T ps)"

abbreviation (input) WNOHANG :: int where "WNOHANG \<equiv> 1"
abbreviation (input) WUNTRACED :: int where "WUNTRACED \<equiv> 2"

definition wait_scan :: "('m, 'v) memops \<Rightarrow> ('m, 'v, 'w) kst \<Rightarrow> ((int \<times> nat option) option \<times> ('m, 'v, 'w) kst) run" where
  "wait_scan mo s =
     bindR (Some (task_curr s)) (\<lambda>me.
     bindR (Some (load (ks_tasks s) me)) (\<lambda>t.
     bindR (Some (find_changed (ks_tasks s) (kl_items (t_children t)))) (\<lambda>c.
       case c of
         None \<Rightarrow> ret (None, s)
       | Some (p, t) \<Rightarrow> bindR (reap mo s p t) (\<lambda>(r, s). ret (Some r, s)))))"

definition wait_block :: "('m, 'v) memops \<Rightarrow> ('m, 'v, 'w) kst \<Rightarrow> int \<Rightarrow> regs \<Rightarrow> ('m, 'v, 'w) kst run" where
  "wait_block mo s pid r =
     bindR (Some (task_curr s)) (\<lambda>me.
     bindR (Some (set_task s me (t_waiting_update (\<lambda>_. pid)))) (\<lambda>s. thread_block mo s r))"

text \<open>The pair is the value of the call and what it stores through \<^verbatim>\<open>wstatus\<close>, which \<open>None\<close> leaves alone.\<close>

definition wait_any_child :: "('m, 'v) memops \<Rightarrow> ('m, 'v, 'w) kst \<Rightarrow> int \<Rightarrow> regs \<Rightarrow> ((int \<times> nat option) call \<times> ('m, 'v, 'w) kst) run" where
  "wait_any_child mo s options r =
     bindR (wait_scan mo s) (\<lambda>(c, s).
       case c of
         Some x \<Rightarrow> ret (Returns x, s)
       | None \<Rightarrow>
           if options = WNOHANG \<or> options = WNOHANG + WUNTRACED then ret (Returns (0, None), s)
           else bindR (wait_block mo s (-1) r) (\<lambda>s. ret (Yields, s)))"

definition stop_waiting :: "('m, 'v, 'w) kst \<Rightarrow> ('m, 'v, 'w) kst res" where
  "stop_waiting s = bindS (task_curr s) (\<lambda>me. set_task s me (t_waiting_update (\<lambda>_. 0)))"

definition wait_any_resumed :: "('m, 'v) memops \<Rightarrow> ('m, 'v, 'w) kst \<Rightarrow> ((int \<times> nat option) \<times> ('m, 'v, 'w) kst) run" where
  "wait_any_resumed mo s =
     bindR (Some (stop_waiting s)) (\<lambda>s.
     bindR (wait_scan mo s) (\<lambda>(c, s). case c of Some x \<Rightarrow> ret (x, s) | None \<Rightarrow> ret ((0, None), s)))"

definition wait_child :: "('m, 'v) memops \<Rightarrow> ('m, 'v, 'w) kst \<Rightarrow> addr \<Rightarrow> int \<Rightarrow> regs \<Rightarrow> ((int \<times> nat option) call \<times> ('m, 'v, 'w) kst) run" where
  "wait_child mo s p options r =
     bindR (Some (load (ks_tasks s) p)) (\<lambda>t.
       let (c, t) = has_child_changed t in
       if c then bindR (reap mo s p t) (\<lambda>(x, s). ret (Returns x, s))
       else if options = WNOHANG \<or> options = WNOHANG + WUNTRACED then ret (Returns (0, None), s)
       else bindR (wait_block mo s (t_pid t) r) (\<lambda>s. ret (Yields, s)))"

definition wait_child_resumed :: "('m, 'v, 'w) kst \<Rightarrow> addr \<Rightarrow> ((int \<times> nat option) \<times> ('m, 'v, 'w) kst) res" where
  "wait_child_resumed s p =
     bindS (stop_waiting s) (\<lambda>s.
     bindS (load (ks_tasks s) p) (\<lambda>t. Inr ((t_pid t, None), s)))"

definition sys_waitpid :: "('m, 'v) memops \<Rightarrow> ('m, 'v, 'w) kst \<Rightarrow> int \<Rightarrow> unit uptr \<Rightarrow> int \<Rightarrow> regs \<Rightarrow> ((int \<times> nat option) call \<times> ('m, 'v, 'w) kst) run" where
  "sys_waitpid mo s pid wstatus options r =
     (if wstatus = Unmapped then ret (Returns (- EFAULT, None), s)
      else if options > WNOHANG + WUNTRACED \<or> options < 0 then ret (Returns (- EINVAL, None), s)
      else if pid > 0 then
        bindR (Some (sched_task_fromid s pid)) (\<lambda>child.
          if child = 0 then ret (Returns (- ECHILD, None), s) else wait_child mo s child options r)
      else if pid = -1 then wait_any_child mo s options r
      else ret (Returns (0, None), s))"

definition sys_wait4 :: "('m, 'v) memops \<Rightarrow> ('m, 'v, 'w) kst \<Rightarrow> int \<Rightarrow> unit uptr \<Rightarrow> int \<Rightarrow> regs \<Rightarrow> ((int \<times> nat option) call \<times> ('m, 'v, 'w) kst) run" where
  "sys_wait4 mo s pid wstatus options r = sys_waitpid mo s pid wstatus options r"

subsection \<open>Signal calls\<close>

definition send_yield :: "('m, 'v) memops \<Rightarrow> ('m, 'v, 'w) kst \<Rightarrow> addr \<Rightarrow> nat \<Rightarrow> regs \<Rightarrow> (bool \<times> ('m, 'v, 'w) kst) run" where
  "send_yield mo s p sig r =
     bindR (Some (task_send s p sig)) (\<lambda>(y, s). if y then bindR (sched_yield mo s r) (\<lambda>s. ret (True, s)) else ret (False, s))"

text \<open>A call that has yielded to its own signal returns 0 when it is resumed.\<close>

definition sys_kill :: "('m, 'v) memops \<Rightarrow> ('m, 'v, 'w) kst \<Rightarrow> int \<Rightarrow> int \<Rightarrow> regs \<Rightarrow> (int call \<times> ('m, 'v, 'w) kst) run" where
  "sys_kill mo s pid sig r =
     (if sig < 0 \<or> sig > 32 then ret (Returns (- EINVAL), s)
      else
        bindR (Some (sched_task_fromid s pid)) (\<lambda>p.
          if p = 0 then ret (Returns (- ESRCH), s)
          else bindR (send_yield mo s p (nat sig) r) (\<lambda>(y, s). ret (if y then Yields else Returns 0, s))))"

definition sys_sigaction :: "('m, 'v, 'w) kst \<Rightarrow> int \<Rightarrow> sigact uptr \<Rightarrow> unit uptr \<Rightarrow> (int \<times> sigact option \<times> ('m, 'v, 'w) kst) res" where
  "sys_sigaction s sig act oldact =
     (if sig < 0 \<or> sig \<ge> 32 \<or> sig = int SIGKILL \<or> sig = int SIGSTOP then Inr (- EINVAL, None, s)
      else
        bindS (task_curr s) (\<lambda>me.
        bindS (load (ks_tasks s) me) (\<lambda>t.
          let old = (if oldact = Null then None else Some (t_signals t (nat sig))) in
          if oldact = Unmapped then Inr (- EFAULT, None, s)
          else case act of
            Null \<Rightarrow> Inr (0, old, s)
          | Unmapped \<Rightarrow> Inr (- EFAULT, old, s)
          | Mapped a \<Rightarrow>
              bindS (set_task s me (\<lambda>t. t\<lparr>t_signals := (t_signals t)(nat sig := a)\<rparr>)) (\<lambda>s. Inr (0, old, s)))))"

definition sys_sigprocmask :: "('m, 'v, 'w) kst \<Rightarrow> int \<Rightarrow> nat uptr \<Rightarrow> unit uptr \<Rightarrow> (int \<times> nat option \<times> ('m, 'v, 'w) kst) res" where
  "sys_sigprocmask s how st oldset =
     (if st = Unmapped \<or> oldset = Unmapped then Inr (- EFAULT, None, s)
      else
        bindS (load (ks_threads s) (ks_curr s)) (\<lambda>th.
          let old = (if oldset = Null then None else Some (th_sigmask th)) in
          case st of
            Mapped x \<Rightarrow>
              (if how = 0 then bindS (set_thread s (ks_curr s) (\<lambda>th. th\<lparr>th_sigmask := th_sigmask th OR x\<rparr>)) (\<lambda>s. Inr (0, old, s))
               else if how = 1 then bindS (set_thread s (ks_curr s) (\<lambda>th. th\<lparr>th_sigmask := andn (th_sigmask th) x\<rparr>)) (\<lambda>s. Inr (0, old, s))
               else if how = 2 then bindS (set_thread s (ks_curr s) (\<lambda>th. th\<lparr>th_sigmask := x\<rparr>)) (\<lambda>s. Inr (0, old, s))
               else Inr (- EINVAL, old, s))
          | _ \<Rightarrow> Inr (0, old, s)))"

definition sys_sigreturn :: "('m, 'v) memops \<Rightarrow> ('m, 'v, 'w) kst \<Rightarrow> regs \<Rightarrow> ('m, 'v, 'w) kst run" where
  "sys_sigreturn mo s r = sched_yield mo s r"

definition sys_tkill :: "int \<Rightarrow> int \<Rightarrow> int" where
  "sys_tkill tid sig = 0"

subsection \<open>Tracing\<close>

definition ptrace_attach :: "('m, 'v, 'w) kst \<Rightarrow> addr \<Rightarrow> addr \<Rightarrow> ('m, 'v, 'w) kst res" where
  "ptrace_attach s tracer tracee = set_task s tracee (t_tracer_update (\<lambda>_. tracer))"

definition ptrace_getregs :: "('m, 'v, 'w) kst \<Rightarrow> addr \<Rightarrow> regs res" where
  "ptrace_getregs s p =
     bindS (load (ks_tasks s) p) (\<lambda>t. bindS (load (ks_threads s) (t_main t)) (\<lambda>th. Inr (th_sysregs th)))"

abbreviation (input) PTRACE_ATTACH :: nat where "PTRACE_ATTACH \<equiv> 0"
abbreviation (input) PTRACE_TRACEME :: nat where "PTRACE_TRACEME \<equiv> 1"
abbreviation (input) PTRACE_GETREGS :: nat where "PTRACE_GETREGS \<equiv> 2"
abbreviation (input) PTRACE_CONT :: nat where "PTRACE_CONT \<equiv> 4"

text \<open>The second component is what is stored through \<^verbatim>\<open>data\<close>.\<close>

definition sys_ptrace :: "('m, 'v) memops \<Rightarrow> ('m, 'v, 'w) kst \<Rightarrow> nat \<Rightarrow> int \<Rightarrow> unit uptr \<Rightarrow> regs \<Rightarrow> (int call \<times> regs option \<times> ('m, 'v, 'w) kst) run" where
  "sys_ptrace mo s req pid data r =
     (if req = PTRACE_ATTACH then
        bindR (Some (sched_task_fromid s pid)) (\<lambda>p.
          if p = 0 then ret (Returns (- ESRCH), None, s)
          else
            bindR (Some (task_curr s)) (\<lambda>me.
            bindR (Some (ptrace_attach s me p)) (\<lambda>s.
            bindR (send_yield mo s p SIGSTOP r) (\<lambda>(y, s). ret (if y then Yields else Returns 0, None, s)))))
      else if req = PTRACE_TRACEME then
        bindR (Some (task_curr s)) (\<lambda>me.
        bindR (Some (load (ks_tasks s) me)) (\<lambda>t.
        bindR (Some (ptrace_attach s (t_parent t) me)) (\<lambda>s. ret (Returns 0, None, s))))
      else if req = PTRACE_GETREGS then
        if data = Null \<or> data = Unmapped then ret (Returns (- EFAULT), None, s)
        else
          bindR (Some (sched_task_fromid s pid)) (\<lambda>p.
            if p = 0 then ret (Returns (- ESRCH), None, s)
            else bindR (Some (ptrace_getregs s p)) (\<lambda>rs. ret (Returns 0, Some rs, s)))
      else if req = PTRACE_CONT then
        bindR (Some (sched_task_fromid s pid)) (\<lambda>p.
          if p = 0 then ret (Returns (- ESRCH), None, s)
          else
            bindR (Some (load (ks_tasks s) p)) (\<lambda>t.
            bindR (Some (thread_handle_contsig s (t_main t))) (\<lambda>s. ret (Returns 0, None, s))))
      else ret (Returns (- EINVAL), None, s))"

subsection \<open>Semaphores\<close>

record sem =
  sem_threads :: "addr klist"
  sem_max :: nat
  sem_cnt :: nat

definition sem_create :: "nat \<Rightarrow> sem" where
  "sem_create mx = \<lparr>sem_threads = kl_create, sem_max = mx, sem_cnt = 0\<rparr>"

definition sem_signal :: "('m, 'v, 'w) kst \<Rightarrow> sem \<Rightarrow> (sem \<times> ('m, 'v, 'w) kst) res" where
  "sem_signal s sm =
     (if kl_size (sem_threads sm) \<noteq> 0 then
        (case kl_dequeue (sem_threads sm) of
           (None, q) \<Rightarrow> Inl BadAccess
         | (Some p, q) \<Rightarrow> bindS (sched_spawnthread s p) (\<lambda>s. Inr (sm\<lparr>sem_threads := q\<rparr>, s)))
      else Inr (sm\<lparr>sem_cnt := sub64 (sem_cnt sm) 1\<rparr>, s))"

definition sem_wait :: "('m, 'v) memops \<Rightarrow> ('m, 'v, 'w) kst \<Rightarrow> sem \<Rightarrow> regs \<Rightarrow> (unit call \<times> sem \<times> ('m, 'v, 'w) kst) run" where
  "sem_wait mo s sm r =
     (if sem_cnt sm < sem_max sm then ret (Returns (), sm\<lparr>sem_cnt := add64 (sem_cnt sm) 1\<rparr>, s)
      else
        let sm = sm\<lparr>sem_threads := kl_enqueue (sem_threads sm) (ks_curr s)\<rparr> in
        bindR (thread_block mo s r) (\<lambda>s. ret (Yields, sm, s)))"

subsection \<open>Exceptions\<close>

text \<open>
  The handlers of the exceptions; in kernel mode each of them is a panic. A signal to the running
  task gives up the processor in the middle of the handler: \<open>True\<close> means that it did.
\<close>

definition exc_signal :: "('m, 'v) memops \<Rightarrow> ('m, 'v, 'w) kst \<Rightarrow> regs \<Rightarrow> nat \<Rightarrow> (bool \<times> ('m, 'v, 'w) kst) run" where
  "exc_signal mo s r sig =
     (if r CS AND 3 \<noteq> 0 then bindR (Some (task_curr s)) (\<lambda>me. send_yield mo s me sig r)
      else Some (Inl KernelPanic))"

definition divbyzero :: "('m, 'v) memops \<Rightarrow> ('m, 'v, 'w) kst \<Rightarrow> regs \<Rightarrow> (bool \<times> ('m, 'v, 'w) kst) run" where
  "divbyzero mo s r = exc_signal mo s r SIGFPE"

definition invalid_opcode :: "('m, 'v) memops \<Rightarrow> ('m, 'v, 'w) kst \<Rightarrow> regs \<Rightarrow> (bool \<times> ('m, 'v, 'w) kst) run" where
  "invalid_opcode mo s r = exc_signal mo s r SIGILL"

definition x87_error :: "('m, 'v) memops \<Rightarrow> ('m, 'v, 'w) kst \<Rightarrow> regs \<Rightarrow> (bool \<times> ('m, 'v, 'w) kst) run" where
  "x87_error mo s r = exc_signal mo s r SIGFPE"

definition simd_error :: "('m, 'v) memops \<Rightarrow> ('m, 'v, 'w) kst \<Rightarrow> regs \<Rightarrow> (bool \<times> ('m, 'v, 'w) kst) run" where
  "simd_error mo s r = exc_signal mo s r SIGFPE"

definition gp :: "('m, 'v) memops \<Rightarrow> ('m, 'v, 'w) kst \<Rightarrow> regs \<Rightarrow> (bool \<times> ('m, 'v, 'w) kst) run" where
  "gp mo s r =
     (if r CS AND 3 \<noteq> 0 then
        bindR (Some (set_thread s (ks_curr s) (th_sysregs_update (\<lambda>_. r)))) (\<lambda>s. exc_signal mo s r SIGSEGV)
      else Some (Inl KernelPanic))"

definition pf :: "('m, 'v) memops \<Rightarrow> ('m, 'v, 'w) kst \<Rightarrow> regs \<Rightarrow> addr \<Rightarrow> (bool \<times> ('m, 'v, 'w) kst) run" where
  "pf mo s r cr2 =
     (if r CS AND 3 \<noteq> 0 then
        if cr2 < 0x8000000000 then
          bindR (Some (task_curr s)) (\<lambda>me.
          bindR (Some (load (ks_tasks s) me)) (\<lambda>t.
          bindR (Some (mo_fault mo (ks_mem s) (t_vm t) cr2)) (\<lambda>(e, m, v).
          bindR (Some (set_task (s\<lparr>ks_mem := m\<rparr>) me (t_vm_update (\<lambda>_. v)))) (\<lambda>s.
            if e = -1 then
              bindR (Some (set_thread s (ks_curr s) (th_regs_update (\<lambda>_. r)))) (\<lambda>s. exc_signal mo s r SIGSEGV)
            else ret (False, s)))))
        else ret (False, s)
      else Some (Inl KernelPanic))"

text \<open>The table \<^verbatim>\<open>handlers\<close>, indexed by the number of the exception.\<close>

definition handlers :: "('m, 'v) memops \<Rightarrow> ('m, 'v, 'w) kst \<Rightarrow> nat \<Rightarrow> regs \<Rightarrow> addr \<Rightarrow> (bool \<times> ('m, 'v, 'w) kst) run" where
  "handlers mo s n r cr2 =
     (if n = 0 then divbyzero mo s r
      else if n \<in> {1, 2, 3, 4, 20} then ret (False, s)
      else if n = 6 then invalid_opcode mo s r
      else if n = 13 then gp mo s r
      else if n = 14 then pf mo s r cr2
      else if n = 15 then Some (Inl BadAccess)
      else if n = 16 then x87_error mo s r
      else if n = 19 then simd_error mo s r
      else if n \<le> 20 then Some (Inl KernelPanic)
      else Some (Inl Overrun))"

text \<open>
  \<open>except\<close> with its static counter \<^verbatim>\<open>nested\<close>. A part that gives up the processor ends there, with the
  counter as it is then; \<open>except_resumed\<close> and \<open>except_nested_resumed\<close> are what runs if the thread is
  switched to again inside a handler or inside the branch for nested exceptions, which goes on with
  \<open>except_dispatch\<close> once its own yield is over.
\<close>

definition except_resumed :: "('m, 'v) memops \<Rightarrow> int \<Rightarrow> ('m, 'v, 'w) kst \<Rightarrow> regs \<Rightarrow> (int \<times> ('m, 'v, 'w) kst) run" where
  "except_resumed mo nested s r = bindR (sched_yield mo s r) (\<lambda>s. ret (nested - 1, s))"

definition except_dispatch :: "('m, 'v) memops \<Rightarrow> int \<Rightarrow> ('m, 'v, 'w) kst \<Rightarrow> nat \<Rightarrow> regs \<Rightarrow> addr \<Rightarrow> (int \<times> ('m, 'v, 'w) kst) run" where
  "except_dispatch mo nested s n r cr2 =
     bindR (handlers mo s n r cr2) (\<lambda>(y, s). if y then ret (nested, s) else except_resumed mo nested s r)"

definition except_nested_resumed :: "('m, 'v) memops \<Rightarrow> ('m, 'v, 'w) kst \<Rightarrow> regs \<Rightarrow> (int \<times> ('m, 'v, 'w) kst) run" where
  "except_nested_resumed mo s r = bindR (sched_yield mo s r) (\<lambda>s. ret (0, s))"

definition except :: "('m, 'v) memops \<Rightarrow> int \<Rightarrow> ('m, 'v, 'w) kst \<Rightarrow> nat \<Rightarrow> regs \<Rightarrow> addr \<Rightarrow> (int \<times> ('m, 'v, 'w) kst) run" where
  "except mo nested s n r cr2 =
     (let nested = nested + 1 in
      if nested > 1 then
        bindR (Some (task_curr s)) (\<lambda>me.
        bindR (send_yield mo s me SIGILL r) (\<lambda>(y, s). if y then ret (nested, s) else except_nested_resumed mo s r))
      else except_dispatch mo nested s n r cr2)"

subsection \<open>The memory of the machine\<close>

text \<open>
  The operations above on the model of \<^verbatim>\<open>mmu.c\<close>: the kernel stack and the signal stack of
  \<open>init_thread_meta\<close>, the user stack of \<open>task_kcreat\<close>, and a store through the page tables.
\<close>

definition kernel_stack :: "mm \<Rightarrow> (addr \<times> mm) res" where
  "kernel_stack m =
     bindS (mmu_kalloc m 1) (\<lambda>(k, m).
     bindS (mmu_alloc_phys m) (\<lambda>(ph, m). Inr (add64 k PAGE4K, mmu_kmap m k ph (PAGE_PR OR PAGE_RW))))"

definition signal_stack :: "mm \<Rightarrow> vm_map \<Rightarrow> (addr \<times> mm \<times> vm_map) run" where
  "signal_stack m v =
     bindR (vm_map_anon (m, v) 0 PAGE4K False) (\<lambda>(area, s).
     bindR (Some (area_at s area)) (\<lambda>a.
     bindR (Some (vm_map_anon_alloc s area (va_base a) (sub64 (va_end a) (va_base a)))) (\<lambda>s. ret (va_end a, s))))"

definition user_stack :: "mm \<Rightarrow> vm_map \<Rightarrow> addr \<Rightarrow> (mm \<times> vm_map) res" where
  "user_stack m v va = bindS (mmu_alloc_phys m) (\<lambda>(ph, m). mmu_map m v va ph (PAGE_PR OR PAGE_RW))"

definition user_store :: "mm \<Rightarrow> vm_map \<Rightarrow> addr \<Rightarrow> nat \<Rightarrow> mm res" where
  "user_store m v va x =
     (case hw_walk m (vm_pml4_phys v) va of
        None \<Rightarrow> Inl BadAccess
      | Some pa \<Rightarrow> Inr (m\<lparr>phys := (phys m)(pa div PAGE4K := (phys m (pa div PAGE4K))(pa mod PAGE4K div 8 := x))\<rparr>))"

definition kernel_memops :: "vm_map \<Rightarrow> (mm, vm_map) memops" where
  "kernel_memops junk = \<lparr>mo_kmalloc = mm_kmalloc, mo_kfree = mm_kfree, mo_create = (\<lambda>m. mmu_create_vmmap m junk),
     mo_clone = (\<lambda>m v. mmu_clone_vmmap m junk v), mo_destroy = mmu_destroy_vmmap, mo_kstack = (\<lambda>m. Some (kernel_stack m)),
     mo_sigstack = signal_stack, mo_stack = (\<lambda>m v va. Some (user_stack m v va)), mo_store = user_store,
     mo_fault = (\<lambda>m v va. vm_map_handle_fault (m, v) va)\<rparr>"

end
