(* ===== verification/Sched.thy ===== *)
theory Sched
  imports Task
begin

text \<open>
  What the scheduler, the signals, the end of a task and the wait for a child do: the tick of the
  timer refines a rotation of the runnable threads, a signal that cannot be caught always reaches
  its default action, a task that ends is left without its main thread, a wait for a child that has
  ended frees the child, and an exception that kills a program leaves the counter of nested
  exceptions raised.
\<close>

unbundle bit_operations_syntax

subsection \<open>Round robin\<close>

lemma set_task_some: "ks_tasks s p = Some t \<Longrightarrow> set_task s p f = Inr (s\<lparr>ks_tasks := (ks_tasks s)(p \<mapsto> f t)\<rparr>)"
  by (simp add: set_task_def)

lemma set_thread_some: "ks_threads s p = Some t \<Longrightarrow> set_thread s p f = Inr (s\<lparr>ks_threads := (ks_threads s)(p \<mapsto> f t)\<rparr>)"
  by (simp add: set_thread_def)

lemma set_task_Inr: "set_task s p f = Inr s' \<longleftrightarrow> (\<exists>t. ks_tasks s p = Some t \<and> s' = s\<lparr>ks_tasks := (ks_tasks s)(p \<mapsto> f t)\<rparr>)"
  by (auto simp: set_task_def bindS_Inr load_Inr)

lemma set_thread_Inr: "set_thread s p f = Inr s' \<longleftrightarrow> (\<exists>t. ks_threads s p = Some t \<and> s' = s\<lparr>ks_threads := (ks_threads s)(p \<mapsto> f t)\<rparr>)"
  by (auto simp: set_thread_def bindS_Inr load_Inr)

text \<open>
  The abstract scheduler is a list of threads with the registers they go on with, the running one
  first. A tick stores the registers of the running thread and moves it to the end.
\<close>

type_synonym sched = "(addr \<times> regs) list"

definition rr_tick :: "regs \<Rightarrow> sched \<Rightarrow> sched" where
  "rr_tick r L = tl L @ [(fst (hd L), r)]"

definition quiet_thread :: "('m, 'v, 'w) kst \<Rightarrow> tstate \<Rightarrow> addr \<Rightarrow> thread \<Rightarrow> bool" where
  "quiet_thread s st p t \<longleftrightarrow> ks_threads s p = Some t \<and> p \<noteq> 0 \<and> th_state t = st \<and> kl_size (th_sigqueue t) = 0 \<and> th_task t \<in> dom (ks_tasks s)"

definition sched_rep :: "('m, 'v, 'w) kst \<Rightarrow> sched \<Rightarrow> bool" where
  "sched_rep s L \<longleftrightarrow> ks_up s \<and> L \<noteq> [] \<and> distinct (map fst L) \<and> length L < 2 ^ 64 \<and> ks_curr s = fst (hd L) \<and>
     kl_items (ks_ready s) = map fst (tl L) \<and> kl_size (ks_ready s) = length (tl L) \<and>
     (\<exists>t. quiet_thread s THREAD_RUNNING (fst (hd L)) t) \<and>
     (\<forall>(p, r) \<in> set (tl L). \<exists>t. quiet_thread s THREAD_READY p t \<and> th_regs t = r)"

lemma pick_ready:
  assumes "kl_items (ks_ready s) = p # ps" "kl_size (ks_ready s) = Suc n" "quiet_thread s THREAD_READY p t"
  shows "pick_next s = ret (s\<lparr>ks_ready := \<lparr>kl_items = ps, kl_size = sub64 (Suc n) 1\<rparr>, ks_curr := p\<rparr>)"
  using assms by (subst pick_next.simps) (simp add: next_ready_def kl_dequeue_def quiet_thread_def)

lemma switch_ready:
  assumes "kl_items (ks_ready s) = p # ps" "kl_size (ks_ready s) = Suc n" "n < 2 ^ 64 - 1" "quiet_thread s THREAD_READY p t"
  shows "switch_next mo s = ret (s\<lparr>ks_ready := \<lparr>kl_items = ps, kl_size = n\<rparr>, ks_curr := p,
    ks_threads := (ks_threads s)(p \<mapsto> t\<lparr>th_state := THREAD_RUNNING\<rparr>), ks_rsp0 := th_kstack t, ks_cpu := th_regs t\<rparr>)"
proof -
  have n: "sub64 (Suc n) 1 = n" using assms(3) by (subst sub64_small) simp_all
  show ?thesis
    using assms(4) pick_ready[OF assms(1,2,4)] unfolding n
    by (subst switch_next.simps) (auto simp: thread_handle_signals_def quiet_thread_def run_thread_def set_thread_some)
qed

lemma sched_tick_refines:
  assumes rep: "sched_rep s L"
  shows "\<exists>s'. sched_tick mo s r = ret s' \<and> sched_rep s' (rr_tick r L) \<and> ks_cpu s' = snd (hd (rr_tick r L))"
proof -
  obtain c r0 q where L: "L = (c, r0) # q" using rep by (cases L) (auto simp: sched_rep_def)
  obtain t where t: "quiet_thread s THREAD_RUNNING c t" using rep by (auto simp: sched_rep_def L)
  have cur: "ks_curr s = c" "c \<noteq> 0" "ks_threads s c = Some t" "th_state t = THREAD_RUNNING" using rep t by (auto simp: sched_rep_def L quiet_thread_def)
  define t1 where "t1 = t\<lparr>th_regs := r, th_state := THREAD_READY\<rparr>"
  define s1 where "s1 = s\<lparr>ks_threads := (ks_threads s)(c \<mapsto> t1), ks_ready := kl_enqueue (ks_ready s) c\<rparr>"
  have sw: "sched_tick mo s r = switch_next mo s1"
    using rep cur by (simp add: sched_rep_def sched_tick_def switch_task_def set_thread_some s1_def t1_def)
  have nq: "length q + 1 < 2 ^ 64" "c \<notin> fst ` set q" "distinct (map fst q)" using rep by (auto simp: sched_rep_def L)
  have rd: "kl_items (ks_ready s1) = map fst q @ [c]" "kl_size (ks_ready s1) = length q + 1"
    using rep nq(1) by (simp_all add: sched_rep_def L s1_def kl_enqueue_def)
  have q1: "\<exists>t. quiet_thread s1 THREAD_READY p t \<and> th_regs t = x" if "(p, x) \<in> set (q @ [(c, r)])" for p x
  proof (cases "p = c")
    case True
    then have "x = r" using that nq(2) by force
    then show ?thesis using t True by (auto simp: quiet_thread_def s1_def t1_def)
  next
    case False
    then have "(p, x) \<in> set q" using that by auto
    then show ?thesis using rep False by (fastforce simp: sched_rep_def L quiet_thread_def s1_def)
  qed
  obtain p x qs where px: "q @ [(c, r)] = (p, x) # qs" by (cases "q @ [(c, r)]") auto
  then obtain tp where tp: "quiet_thread s1 THREAD_READY p tp" "th_regs tp = x" using q1[of p x] by auto
  have m: "map fst q @ [c] = p # map fst qs" using arg_cong[OF px, of "map fst"] by simp
  have lq: "length qs = length q" using arg_cong[OF px, of length] by simp
  have ds: "distinct (p # map fst qs)" unfolding m[symmetric] using nq by auto
  define s2 where "s2 = s1\<lparr>ks_ready := \<lparr>kl_items = map fst qs, kl_size = length q\<rparr>, ks_curr := p,
    ks_threads := (ks_threads s1)(p \<mapsto> tp\<lparr>th_state := THREAD_RUNNING\<rparr>), ks_rsp0 := th_kstack tp, ks_cpu := th_regs tp\<rparr>"
  have "switch_next mo s1 = ret s2"
    unfolding s2_def by (rule switch_ready) (use rd m nq(1) tp(1) in simp_all)
  moreover have "sched_rep s2 ((p, x) # qs)"
  proof -
    have ts: "ks_tasks s2 = ks_tasks s1" "ks_up s2 = ks_up s" by (simp_all add: s2_def s1_def)
    have a: "quiet_thread s2 THREAD_RUNNING p (tp\<lparr>th_state := THREAD_RUNNING\<rparr>)" using tp(1) by (simp add: quiet_thread_def s2_def)
    have b: "\<exists>t. quiet_thread s2 THREAD_READY p' t \<and> th_regs t = y" if "(p', y) \<in> set qs" for p' y
    proof -
      have "p' \<noteq> p" using ds that by force
      moreover have "(p', y) \<in> set (q @ [(c, r)])" using that unfolding px by simp
      ultimately show ?thesis using q1[of p' y] unfolding quiet_thread_def s2_def by auto
    qed
    show ?thesis using rep a b ds lq nq(1) unfolding sched_rep_def ts by (auto simp: s2_def L)
  qed
  moreover have "rr_tick r L = (p, x) # qs" using px by (simp add: rr_tick_def L)
  moreover have "ks_cpu s2 = x" using tp(2) by (simp add: s2_def)
  ultimately show ?thesis using sw by auto
qed

text \<open>A sequence of timer ticks, each with the registers at which it interrupts.\<close>

fun ticks :: "('m, 'v) memops \<Rightarrow> ('m, 'v, 'w) kst \<Rightarrow> regs list \<Rightarrow> ('m, 'v, 'w) kst run" where
  "ticks mo s [] = ret s"
| "ticks mo s (r # rs) = bindR (sched_tick mo s r) (\<lambda>s. ticks mo s rs)"

lemma rr_tick_rotate: "L \<noteq> [] \<Longrightarrow> map fst (rr_tick r L) = rotate1 (map fst L)"
  by (cases L) (simp_all add: rr_tick_def)

lemma rr_ticks_rotate: "L \<noteq> [] \<Longrightarrow> map fst (fold rr_tick rs L) = rotate (length rs) (map fst L)"
proof (induction rs arbitrary: L)
  case (Cons r rs)
  have "rr_tick r L \<noteq> []" by (simp add: rr_tick_def)
  then show ?case using Cons.IH[of "rr_tick r L"] rr_tick_rotate[OF Cons.prems] by (simp flip: rotate1_rotate_swap)
qed simp

lemma rr_ticks_saved: "length rs \<le> length L \<Longrightarrow> fold rr_tick rs L = drop (length rs) L @ zip (map fst (take (length rs) L)) rs"
proof (induction rs rule: rev_induct)
  case (snoc r rs)
  then have n: "length rs < length L" by simp
  then have "drop (length rs) L = L ! length rs # drop (Suc (length rs)) L" by (simp add: Cons_nth_drop_Suc)
  then show ?case using snoc n by (simp add: rr_tick_def take_Suc_conv_app_nth zip_append1 min_def)
qed simp

lemma ticks_refines:
  "sched_rep s L \<Longrightarrow> \<exists>s'. ticks mo s rs = ret s' \<and> sched_rep s' (fold rr_tick rs L) \<and> (rs \<noteq> [] \<longrightarrow> ks_cpu s' = snd (hd (fold rr_tick rs L)))"
proof (induction rs arbitrary: s L)
  case (Cons r rs)
  obtain s1 where s1: "sched_tick mo s r = ret s1" "sched_rep s1 (rr_tick r L)" "ks_cpu s1 = snd (hd (rr_tick r L))"
    using sched_tick_refines[OF Cons.prems] by blast
  obtain s' where "ticks mo s1 rs = ret s'" "sched_rep s' (fold rr_tick rs (rr_tick r L))" "rs \<noteq> [] \<longrightarrow> ks_cpu s' = snd (hd (fold rr_tick rs (rr_tick r L)))"
    using Cons.IH[OF s1(2)] by blast
  then show ?case using s1 by (cases rs) auto
qed simp

text \<open>
  C12: the scheduler is round robin and loses nothing. While no thread blocks and no signal is
  pending, after any number of ticks the running thread is the one that many places further in the
  cycle of the running thread and the ready queue, so each of them runs once in every round; and
  after a whole round the first thread goes on with exactly the registers at which it was
  interrupted.
\<close>

theorem sched_round_robin:
  assumes "sched_rep s L"
  shows "\<exists>s'. ticks mo s rs = ret s' \<and> sched_rep s' (fold rr_tick rs L) \<and>
    ks_curr s' = map fst L ! (length rs mod length L) \<and> (length rs = length L \<longrightarrow> ks_cpu s' = hd rs)"
proof -
  obtain s' where s': "ticks mo s rs = ret s'" "sched_rep s' (fold rr_tick rs L)" "rs \<noteq> [] \<longrightarrow> ks_cpu s' = snd (hd (fold rr_tick rs L))"
    using ticks_refines[OF assms] by blast
  have L: "L \<noteq> []" "fold rr_tick rs L \<noteq> []" using assms s'(2) by (simp_all add: sched_rep_def)
  have "ks_curr s' = hd (map fst (fold rr_tick rs L))" using s'(2) L(2) by (simp add: sched_rep_def hd_map)
  also have "\<dots> = map fst L ! (length rs mod length L)" unfolding rr_ticks_rotate[OF L(1)] using L(1) by (simp add: hd_rotate_conv_nth)
  finally have c: "ks_curr s' = map fst L ! (length rs mod length L)" .
  have "ks_cpu s' = hd rs" if "length rs = length L"
  proof -
    have "rs \<noteq> []" using that L(1) by auto
    then show ?thesis using s'(3) rr_ticks_saved[of rs L] that L(1) by (cases rs; cases L) auto
  qed
  then show ?thesis using s' c by blast
qed

text \<open>A small machine for the witnesses: two tasks, of which the first is \<open>init\<close> and runs, and an idle thread.\<close>

definition demo_mem :: "(nat, unit) memops" where
  "demo_mem = \<lparr>mo_kmalloc = (\<lambda>m n. ret (m, m + n)), mo_kfree = (\<lambda>m p. ret m), mo_create = (\<lambda>m. ret (m, ())),
     mo_clone = (\<lambda>m v. ret (m, ())), mo_destroy = (\<lambda>m v. ret m), mo_kstack = (\<lambda>m. ret (m, m + 4096)),
     mo_sigstack = (\<lambda>m v. ret (m, m, ())), mo_stack = (\<lambda>m v va. ret (m, ())), mo_store = (\<lambda>m v va x. Inr m),
     mo_fault = (\<lambda>m v va. Inr (-1, m, ()))\<rparr>"

definition demo_thread :: "tstate \<Rightarrow> addr \<Rightarrow> thread" where
  "demo_thread st p = zero_thread\<lparr>th_state := st, th_task := p\<rparr>"

definition demo_task :: "int \<Rightarrow> addr \<Rightarrow> addr \<Rightarrow> addr list \<Rightarrow> unit task" where
  "demo_task pid parent th cs = (fresh_task pid parent ())\<lparr>t_main := th, t_threads := kl_enqueue kl_create th,
     t_children := foldl kl_enqueue kl_create cs\<rparr>"

definition demo_kst :: "(nat, unit, nat) kst" where
  "demo_kst = \<lparr>ks_mem = 100000, ks_vfs = pr_vfs tree_proc, ks_files = (\<lambda>_. None), ks_gids = (\<lambda>_. None),
     ks_tasks = [1000 \<mapsto> demo_task 1 0 2000 [1001], 1001 \<mapsto> demo_task 2 1000 2001 []],
     ks_threads = [2000 \<mapsto> demo_thread THREAD_RUNNING 1000, 2001 \<mapsto> demo_thread THREAD_READY 1001, 2002 \<mapsto> demo_thread THREAD_READY 1000],
     ks_list = foldl kl_enqueue kl_create [1000, 1001], ks_ready = foldl kl_enqueue kl_create [2001],
     ks_pid = 3, ks_up = True, ks_curr = 2000, ks_idle = 2002, ks_rsp0 = 0, ks_cpu = (\<lambda>_. 0)\<rparr>"

theorem sched_round_robin_witness:
  "\<exists>s'. ticks demo_mem demo_kst [\<lambda>_. 7, \<lambda>_. 8] = ret s' \<and> ks_curr s' = 2000 \<and> ks_cpu s' RIP = 7"
proof -
  have "sched_rep demo_kst [(2000, \<lambda>_. 0), (2001, \<lambda>_. 0)]"
    by (auto simp: sched_rep_def quiet_thread_def demo_kst_def demo_thread_def zero_thread_def kl_enqueue_def kl_create_def)
  from sched_round_robin[OF this, of demo_mem "[\<lambda>_. 7, \<lambda>_. 8]"] show ?thesis by auto
qed

subsection \<open>Signals that cannot be caught\<close>

text \<open>What a program can do to its signal handling: any sequence of \<open>sigaction\<close> and \<open>sigprocmask\<close>, by any thread.\<close>

inductive sig_reach :: "('m, 'v, 'w) kst \<Rightarrow> ('m, 'v, 'w) kst \<Rightarrow> bool" for s0 where
  start: "sig_reach s0 s0"
| action: "sig_reach s0 s \<Longrightarrow> sys_sigaction s sig act old = Inr (e, x, s') \<Longrightarrow> sig_reach s0 s'"
| procmask: "sig_reach s0 s \<Longrightarrow> sys_sigprocmask s how st old = Inr (e, x, s') \<Longrightarrow> sig_reach s0 s'"
| switch: "sig_reach s0 s \<Longrightarrow> sig_reach s0 (s\<lparr>ks_curr := p\<rparr>)"

definition uncaught :: "('m, 'v, 'w) kst \<Rightarrow> bool" where
  "uncaught s \<longleftrightarrow> (\<forall>t \<in> ran (ks_tasks s). sa_handler (t_signals t SIGKILL) = 0 \<and> sa_handler (t_signals t SIGSTOP) = 0)"

lemma uncaught_upd: "uncaught s \<Longrightarrow> ks_tasks s p = Some t \<Longrightarrow> t_signals t' SIGKILL = t_signals t SIGKILL \<Longrightarrow> t_signals t' SIGSTOP = t_signals t SIGSTOP \<Longrightarrow>
    uncaught (s\<lparr>ks_tasks := (ks_tasks s)(p \<mapsto> t')\<rparr>)"
  unfolding uncaught_def by (auto simp: ran_def)

lemma sigaction_effect:
  assumes "sys_sigaction s sig act old = Inr (e, x, s')"
  shows "s' = s \<or> (\<exists>me t a. sig \<noteq> int SIGKILL \<and> sig \<noteq> int SIGSTOP \<and> 0 \<le> sig \<and> ks_tasks s me = Some t \<and>
    s' = s\<lparr>ks_tasks := (ks_tasks s)(me \<mapsto> t\<lparr>t_signals := (t_signals t)(nat sig := a)\<rparr>)\<rparr>)"
proof (cases "sig < 0 \<or> sig \<ge> 32 \<or> sig = int SIGKILL \<or> sig = int SIGSTOP")
  case True
  then show ?thesis using assms by (simp only: sys_sigaction_def if_True) simp
next
  case False
  then obtain me t where m: "ks_tasks s me = Some t" "task_curr s = Inr me" using assms by (auto simp: sys_sigaction_def bindS_Inr load_Inr)
  show ?thesis
  proof (cases act)
    case (Mapped a)
    then show ?thesis using assms False m by (auto simp: sys_sigaction_def Let_def set_task_some split: if_splits)
  qed (use assms False m in \<open>auto simp: sys_sigaction_def Let_def split: if_splits\<close>)
qed

lemma sigaction_uncaught: "uncaught s \<Longrightarrow> sys_sigaction s sig act old = Inr (e, x, s') \<Longrightarrow> uncaught s'"
  using sigaction_effect[of s sig act old e x s'] uncaught_upd[of s] by fastforce

lemma sigprocmask_tasks: "sys_sigprocmask s how st old = Inr (e, x, s') \<Longrightarrow> ks_tasks s' = ks_tasks s"
  by (auto simp: sys_sigprocmask_def bindS_Inr Let_def set_thread_Inr load_Inr split: if_splits uptr.splits)

lemma uncaught_cong: "ks_tasks s' = ks_tasks s \<Longrightarrow> uncaught s \<Longrightarrow> uncaught s'"
  unfolding uncaught_def by simp

lemma sig_reach_uncaught: "sig_reach s0 s \<Longrightarrow> uncaught s0 \<Longrightarrow> uncaught s"
proof (induction rule: sig_reach.induct)
  case (switch s p)
  show ?case by (rule uncaught_cong[of _ s]) (simp, rule switch.IH[OF switch.prems])
next
  case (procmask s how st old e x s')
  show ?case by (rule uncaught_cong[OF sigprocmask_tasks[OF procmask.hyps(2)] procmask.IH[OF procmask.prems]])
next
  case (action s sig act old e x s')
  show ?case by (rule sigaction_uncaught[OF action.IH[OF action.prems] action.hyps(2)])
qed

text \<open>
  C25: no sequence of \<open>sigaction\<close> and \<open>sigprocmask\<close> calls, by whichever threads, protects an untraced
  task from \<^verbatim>\<open>SIGKILL\<close> and \<^verbatim>\<open>SIGSTOP\<close>: handling the first is always the exit of the task with status 9,
  handling the second always stops it, whatever the mask is.
\<close>

theorem sigkill_not_catchable:
  assumes "sig_reach s0 s" and "uncaught s0" and "ks_threads s p = Some th" and "ks_tasks s (th_task th) = Some t" and "t_tracer t = 0"
  shows "handle_one mo s p SIGKILL = bindR (task_exit s SIGKILL) (\<lambda>s. ret (Some Resched, s)) \<and>
    handle_one mo s p SIGSTOP = bindR (Some (handle_stopsig s p SIGSTOP)) (\<lambda>s. ret (Some Resched, s))"
proof -
  have "uncaught s" by (rule sig_reach_uncaught[OF assms(1,2)])
  then have h: "sa_handler (t_signals t SIGKILL) = 0" "sa_handler (t_signals t SIGSTOP) = 0"
    using assms(4) by (auto simp: uncaught_def intro: ranI)
  then show ?thesis using assms(3-5) by (simp add: handle_one_def defaults_def)
qed

theorem sigkill_not_catchable_witness:
  "\<exists>s. sys_sigprocmask demo_kst 2 (Mapped 0xffffffff) Null = Inr (0, None, s) \<and>
     handle_one demo_mem s 2000 SIGKILL = bindR (task_exit s SIGKILL) (\<lambda>s. ret (Some Resched, s))"
proof -
  define s where "s = demo_kst\<lparr>ks_threads := (ks_threads demo_kst)(2000 \<mapsto> (demo_thread THREAD_RUNNING 1000)\<lparr>th_sigmask := 0xffffffff\<rparr>)\<rparr>"
  have c: "sys_sigprocmask demo_kst 2 (Mapped 0xffffffff) Null = Inr (0, None, s)"
    by (simp add: sys_sigprocmask_def demo_kst_def set_thread_def s_def)
  have r: "sig_reach demo_kst s" by (rule sig_reach.procmask[OF sig_reach.start c])
  have u: "uncaught demo_kst" by (simp add: uncaught_def demo_kst_def demo_task_def fresh_task_def no_act_def)
  have t: "ks_threads s 2000 = Some ((demo_thread THREAD_RUNNING 1000)\<lparr>th_sigmask := 0xffffffff\<rparr>)" "ks_tasks s 1000 = Some (demo_task 1 0 2000 [1001])"
    by (simp_all add: s_def demo_kst_def)
  have "handle_one demo_mem s 2000 SIGKILL = bindR (task_exit s SIGKILL) (\<lambda>s. ret (Some Resched, s))"
  proof (rule conjunct1[OF sigkill_not_catchable[OF r u t(1)]])
    show "ks_tasks s (th_task ((demo_thread THREAD_RUNNING 1000)\<lparr>th_sigmask := 0xffffffff\<rparr>)) = Some (demo_task 1 0 2000 [1001])"
      using t(2) by (simp add: demo_thread_def)
    show "t_tracer (demo_task 1 0 2000 [1001]) = 0" by (simp add: demo_task_def fresh_task_def)
  qed
  with c show ?thesis by blast
qed

subsection \<open>Exit\<close>

definition mains :: "('m, 'v, 'w) kst \<Rightarrow> addr \<Rightarrow> addr option" where
  "mains s q = map_option t_main (ks_tasks s q)"

lemma set_task_keeps: "set_task s p f = Inr s' \<Longrightarrow>
    ks_threads s' = ks_threads s \<and> ks_curr s' = ks_curr s \<and> ((\<forall>t. t_main (f t) = t_main t) \<longrightarrow> mains s' = mains s)"
  by (auto simp: set_task_Inr mains_def fun_eq_iff)

lemma kill_threads_keeps: "kill_threads s ps = Inr s' \<Longrightarrow> ks_tasks s' = ks_tasks s \<and> ks_curr s' = ks_curr s \<and> (\<forall>q. ks_threads s' q = None \<longleftrightarrow> ks_threads s q = None)"
proof (induction s ps rule: kill_threads.induct)
  case (2 s p ps)
  then obtain t where t: "ks_threads s p = Some t" "kill_threads (s\<lparr>ks_threads := (ks_threads s)(p \<mapsto> t\<lparr>th_state := THREAD_DEAD\<rparr>)\<rparr>) ps = Inr s'"
    by (auto simp: bindS_Inr set_thread_Inr)
  from "2.IH"[OF t(2)] t(1) show ?case by auto
qed simp

lemma adopt_keeps: "adopt s p ini = ret s' \<Longrightarrow> mains s' = mains s \<and> ks_threads s' = ks_threads s \<and> ks_curr s' = ks_curr s"
  by (auto simp: adopt_def bindR_ret split: if_splits option.splits dest!: set_task_keeps)

lemma close_fds_keeps: "close_fds s p is = Inr s' \<Longrightarrow> mains s' = mains s \<and> ks_threads s' = ks_threads s \<and> ks_curr s' = ks_curr s"
proof (induction "is" arbitrary: s)
  case (Cons i "is")
  obtain t where t: "ks_tasks s p = Some t" using Cons.prems by (auto simp: bindS_Inr load_Inr)
  show ?case
  proof (cases "t_fds t i = 0")
    case True
    then show ?thesis using Cons t by simp
  next
    case False
    define s1 where "s1 f = s\<lparr>ks_vfs := vfs_close (ks_vfs s) f, ks_tasks := (ks_tasks s)(p \<mapsto> t\<lparr>t_fds := (t_fds t)(i := 0)\<rparr>)\<rparr>" for f
    obtain f where "close_fds (s1 f) p is = Inr s'"
      using Cons.prems t False by (auto simp: bindS_Inr set_task_Inr s1_def)
    from Cons.IH[OF this] show ?thesis using t by (auto simp: s1_def mains_def fun_eq_iff)
  qed
qed simp


lemma task_send_null: "ks_tasks s p = Some t \<Longrightarrow> ks_threads s (t_main t) = None \<Longrightarrow> task_send s p sig = Inl BadAccess"
  by (simp add: task_send_def set_thread_def)

text \<open>The exit of a task whose parent has no main thread any more does not come to an end.\<close>

lemma task_exit_orphan:
  assumes me: "task_curr s = Inr p" "ks_tasks s p = Some t" "t_parent t \<noteq> 0" "t_parent t \<noteq> p"
    and par: "mains s (t_parent t) = Some 0" "ks_threads s 0 = None"
  shows "task_exit s st \<noteq> ret s'"
proof
  assume "task_exit s st = ret s'"
  then obtain s1 ini s2 s3 s4 y s5 where s1: "kill_threads s (kl_items (t_threads t)) = Inr s1" and s2: "adopt s1 p ini = ret s2"
    and s3: "close_fds s2 p [0..<FD_MAX] = Inr s3" and s4: "set_task s3 p (t_main_update (\<lambda>_. 0)) = Inr s4"
    and s5: "task_send s4 (t_parent t) SIGCHLD = Inr (y, s5)"
    using me by (auto simp: task_exit_def bindR_ret bindS_Inr)
  have k1: "mains s1 = mains s" "ks_threads s1 0 = None" using kill_threads_keeps[OF s1] par(2) by (simp_all add: mains_def fun_eq_iff)
  have k3: "mains s3 = mains s" "ks_threads s3 0 = None" using adopt_keeps[OF s2] close_fds_keeps[OF s3] k1 by simp_all
  have k4: "mains s4 (t_parent t) = Some 0" "ks_threads s4 0 = None"
  proof -
    obtain ta where s4': "s4 = s3\<lparr>ks_tasks := (ks_tasks s3)(p \<mapsto> ta\<lparr>t_main := 0\<rparr>)\<rparr>" using s4 by (auto simp: set_task_Inr)
    have "mains s4 (t_parent t) = mains s3 (t_parent t)" using me(4) by (simp add: s4' mains_def)
    then show "mains s4 (t_parent t) = Some 0" "ks_threads s4 0 = None" using k3 par(1) by (simp_all add: s4')
  qed
  then obtain tp where "ks_tasks s4 (t_parent t) = Some tp" "t_main tp = 0" by (auto simp: mains_def)
  then show False using task_send_null[of s4 "t_parent t" tp SIGCHLD] k4(2) s5 by simp
qed

text \<open>What an exit that does come to an end leaves behind.\<close>

lemma task_send_keeps: "task_send s q sig = Inr (y, s') \<Longrightarrow> ks_tasks s' = ks_tasks s \<and> ks_curr s' = ks_curr s \<and> (\<forall>q. ks_threads s' q = None \<longleftrightarrow> ks_threads s q = None)"
  by (auto simp: task_send_def bindS_Inr set_thread_Inr split: if_splits)

lemma spawn_keeps: "sched_spawnthread s q = Inr s' \<Longrightarrow> ks_tasks s' = ks_tasks s \<and> (\<forall>q. ks_threads s' q = None \<longleftrightarrow> ks_threads s q = None)"
  by (auto simp: sched_spawnthread_def bindS_Inr set_thread_Inr split: if_splits)

lemma task_change_keeps:
  assumes "task_change s p st = Inr s'"
  shows "mains s' = mains s \<and> (\<forall>q. ks_threads s' q = None \<longleftrightarrow> ks_threads s q = None) \<and> (\<exists>t. ks_tasks s' p = Some t \<and> t_state t = st)"
proof -
  obtain t where t: "ks_tasks s p = Some t" using assms by (auto simp: task_change_def bindS_Inr set_task_Inr)
  define s1 where "s1 = s\<lparr>ks_tasks := (ks_tasks s)(p \<mapsto> t\<lparr>t_state := st\<rparr>)\<rparr>"
  have k1: "mains s1 = mains s" "ks_threads s1 = ks_threads s" "ks_tasks s1 p = Some (t\<lparr>t_state := st\<rparr>)"
    using t by (auto simp: s1_def mains_def)
  obtain par where par: "ks_tasks s1 (t_parent t) = Some par"
    and c: "(if t_waiting par = t_pid t \<or> t_waiting par = -1 then
         bindS (thread_unblock s1 (t_main par)) (\<lambda>s. set_task s (t_parent t) (t_waiting_update (\<lambda>_. 0))) else Inr s1) = Inr s'"
    using assms t k1(3) by (auto simp: task_change_def set_task_some bindS_Inr load_Inr cong: if_cong simp flip: s1_def)
  show ?thesis
  proof (cases "t_waiting par = t_pid t \<or> t_waiting par = -1")
    case True
    then obtain s2 where s2: "sched_spawnthread s1 (t_main par) = Inr s2" "set_task s2 (t_parent t) (t_waiting_update (\<lambda>_. 0)) = Inr s'"
      using c by (auto simp: bindS_Inr thread_unblock_def)
    have "mains s2 = mains s1" using spawn_keeps[OF s2(1)] by (simp add: mains_def fun_eq_iff)
    moreover have "\<exists>u. ks_tasks s' p = Some u \<and> t_state u = st"
      using s2(2) spawn_keeps[OF s2(1)] k1(3) by (auto simp: set_task_Inr)
    ultimately show ?thesis using set_task_keeps[OF s2(2)] spawn_keeps[OF s2(1)] k1 by simp
  next
    case False
    then show ?thesis using c k1 by simp
  qed
qed

lemma task_exit_zombie:
  assumes ex: "task_exit s st = ret s'" and me: "task_curr s = Inr p" and z: "ks_threads s 0 = None"
  shows "\<exists>t'. ks_tasks s' p = Some t' \<and> t_main t' = 0 \<and> t_state t' = TASK_DEAD \<and> t_status t' = st" "ks_threads s' 0 = None"
proof -
  obtain t s1 ini s2 s3 s4 s5 s6 where t: "ks_tasks s p = Some t" and s1: "kill_threads s (kl_items (t_threads t)) = Inr s1" and s2: "adopt s1 p ini = ret s2"
    and s3: "close_fds s2 p [0..<FD_MAX] = Inr s3" and s4: "set_task s3 p (t_main_update (\<lambda>_. 0)) = Inr s4"
    and s5: "(if t_parent t \<noteq> 0 then bindS (task_send s4 (t_parent t) SIGCHLD) (\<lambda>(_, s). Inr s) else Inr s4) = Inr s5"
    and s6: "task_change s5 p TASK_DEAD = Inr s6" and s7: "set_task s6 p (t_status_update (\<lambda>_. st)) = Inr s'"
    using ex me by (auto simp: task_exit_def bindR_ret load_Inr)
  have z4: "ks_threads s4 0 = None"
    using kill_threads_keeps[OF s1] adopt_keeps[OF s2] close_fds_keeps[OF s3] set_task_keeps[OF s4] z by simp
  have "ks_tasks s5 = ks_tasks s4" and z5: "ks_threads s5 0 = None"
    using s5 z4 by (auto simp: bindS_Inr dest: task_send_keeps split: if_splits)
  then have "mains s5 p = Some 0" using s4 by (auto simp: set_task_Inr mains_def)
  then have m6: "mains s6 p = Some 0" "\<exists>t. ks_tasks s6 p = Some t \<and> t_state t = TASK_DEAD" using task_change_keeps[OF s6] by simp_all
  show "\<exists>t'. ks_tasks s' p = Some t' \<and> t_main t' = 0 \<and> t_state t' = TASK_DEAD \<and> t_status t' = st"
    using s7 m6 by (auto simp: set_task_Inr mains_def)
  show "ks_threads s' 0 = None" using s7 task_change_keeps[OF s6] z5 by (auto simp: set_task_Inr)
qed

text \<open>
  a task that has exited and is not yet reaped has no main thread, and the kernel does not know
  it. Right after the exit, \<open>kill\<close> with any signal number it accepts on such a task is an access
  through a null pointer in kernel mode, and no child of the task can exit any more: its exit
  faults, or loops, on the way.
\<close>

theorem exit_leaves_null_main:
  assumes "task_exit s st = ret s'" and "task_curr s = Inr p" and "ks_threads s 0 = None" and "p \<noteq> 0"
  shows "(\<exists>t. ks_tasks s' p = Some t \<and> t_state t = TASK_DEAD \<and> t_status t = st \<and> t_main t = 0) \<and>
    (\<forall>mo pid sig r. sched_task_fromid s' pid = Inr p \<and> 0 \<le> sig \<and> sig \<le> 32 \<longrightarrow> sys_kill mo s' pid sig r = Some (Inl BadAccess)) \<and>
    (\<forall>q th c st2 s2. ks_threads s' q = Some th \<and> ks_tasks s' (th_task th) = Some c \<and> t_parent c = p \<and> th_task th \<noteq> p \<longrightarrow>
       task_exit (s'\<lparr>ks_curr := q\<rparr>) st2 \<noteq> ret s2)"
proof -
  obtain t where t: "ks_tasks s' p = Some t" "t_main t = 0" "t_state t = TASK_DEAD" "t_status t = st" and z: "ks_threads s' 0 = None"
    using task_exit_zombie[OF assms(1-3)] by blast
  have K: "sys_kill mo s' pid sig r = Some (Inl BadAccess)" if "sched_task_fromid s' pid = Inr p" "0 \<le> sig" "sig \<le> 32"
    for mo :: "('a, 'b) memops" and pid sig r
    using task_send_null[OF t(1)] t(2) z that assms(4) by (simp add: sys_kill_def send_yield_def)
  have E: "task_exit (s'\<lparr>ks_curr := q\<rparr>) st2 \<noteq> ret s2"
    if "ks_threads s' q = Some th" "ks_tasks s' (th_task th) = Some c" "t_parent c = p" "th_task th \<noteq> p" for q th c st2 s2
  proof (rule task_exit_orphan)
    have "q \<noteq> 0" using that(1) z by (metis option.distinct(1))
    then show "task_curr (s'\<lparr>ks_curr := q\<rparr>) = Inr (th_task th)" using that(1) by (simp add: task_curr_def)
    show "ks_tasks (s'\<lparr>ks_curr := q\<rparr>) (th_task th) = Some c" "t_parent c \<noteq> 0" "t_parent c \<noteq> th_task th" using that assms(4) by auto
    show "mains (s'\<lparr>ks_curr := q\<rparr>) (t_parent c) = Some 0" "ks_threads (s'\<lparr>ks_curr := q\<rparr>) 0 = None" using t z that(3) by (simp_all add: mains_def)
  qed
  show ?thesis using t K E by blast
qed

lemma close_fds_none: "ks_tasks s p = Some t \<Longrightarrow> t_fds t = (\<lambda>_. 0) \<Longrightarrow> close_fds s p is = Inr s"
  by (induction "is") simp_all

lemma demo_exit: "\<exists>s'. task_exit (demo_kst\<lparr>ks_curr := 2001\<rparr>) 0x100 = ret s' \<and> sched_task_fromid s' 2 = Inr 1001"
proof -
  let ?s = "demo_kst\<lparr>ks_curr := 2001\<rparr>"
  define s1 where "s1 = ?s\<lparr>ks_threads := (ks_threads ?s)(2001 \<mapsto> demo_thread THREAD_DEAD 1001)\<rparr>"
  define t where "t = demo_task 2 1000 2001 []"
  have t: "t_threads t = kl_enqueue kl_create 2001" "t_children t = kl_create" "t_parent t = 1000" "t_fds t = (\<lambda>_. 0)" "t_pid t = 2"
    by (simp_all add: t_def demo_task_def fresh_task_def)
  have i: "t_pid (demo_task 1 0 2000 [1001]) = 1" "t_main (demo_task 1 0 2000 [1001]) = 2000" "t_waiting (demo_task 1 0 2000 [1001]) = 0"
    by (simp_all add: demo_task_def fresh_task_def)
  have T: "ks_tasks s1 = [1000 \<mapsto> demo_task 1 0 2000 [1001], 1001 \<mapsto> t]" "ks_tasks ?s = ks_tasks s1" "ks_curr s1 = 2001"
      "ks_list s1 = \<lparr>kl_items = [1000, 1001], kl_size = 2\<rparr>"
    by (simp_all add: s1_def demo_kst_def t_def kl_enqueue_def kl_create_def)
  have th: "ks_threads s1 2000 = Some (demo_thread THREAD_RUNNING 1000)" "ks_threads s1 2001 = Some (demo_thread THREAD_DEAD 1001)"
    by (simp_all add: s1_def demo_kst_def)
  have c: "task_curr ?s = Inr 1001" by (simp add: task_curr_def demo_kst_def demo_thread_def)
  have k: "kill_threads ?s (kl_items (t_threads t)) = Inr s1"
    by (simp add: t kl_enqueue_def kl_create_def set_thread_def s1_def demo_kst_def demo_thread_def zero_thread_def)
  have ini: "sched_task_fromid s1 1 = Inr 1000" by (simp add: sched_task_fromid_def T i)
  have "t\<lparr>t_children := kl_create\<rparr> = t" by (simp add: t_def demo_task_def fresh_task_def)
  then have "(ks_tasks s1)(1001 \<mapsto> t\<lparr>t_children := kl_create\<rparr>) = ks_tasks s1" by (simp add: T(1))
  then have "set_task s1 1001 (t_children_update (\<lambda>_. kl_create)) = Inr s1" using T(1) by (simp add: set_task_some[of _ _ t])
  then have ad: "adopt s1 1001 1000 = ret s1" using T(1) t(2) by (simp add: adopt_def kl_clear_def) (simp add: kl_create_def)
  have cl: "close_fds s1 1001 is = Inr s1" for "is" by (rule close_fds_none[of _ _ t]) (simp_all add: T t)
  define s2 where "s2 = s1\<lparr>ks_tasks := (ks_tasks s1)(1001 \<mapsto> t\<lparr>t_main := 0\<rparr>)\<rparr>"
  have s2: "set_task s1 1001 (t_main_update (\<lambda>_. 0)) = Inr s2" by (simp add: set_task_def T s2_def)
  obtain s3 where s3: "task_send s2 1000 SIGCHLD = Inr (False, s3)" "ks_tasks s3 = ks_tasks s2" "ks_list s3 = ks_list s1"
    using th T i by (simp add: task_send_def s2_def set_thread_def task_curr_def demo_thread_def)
  define t4 where "t4 = t\<lparr>t_main := 0, t_state := TASK_DEAD\<rparr>"
  have t3: "ks_tasks s3 1001 = Some (t\<lparr>t_main := 0\<rparr>)" "ks_tasks s3 1000 = Some (demo_task 1 0 2000 [1001])" unfolding s3(2) s2_def by (simp_all add: T)
  define s4 where "s4 = s3\<lparr>ks_tasks := (ks_tasks s3)(1001 \<mapsto> t4)\<rparr>"
  have s4: "task_change s3 1001 TASK_DEAD = Inr s4"
    using t3 t(3,5) i(3) by (simp add: task_change_def set_task_some[OF t3(1)] s4_def t4_def)
  have s5: "set_task s4 1001 (t_status_update (\<lambda>_. 0x100)) = Inr (s4\<lparr>ks_tasks := (ks_tasks s4)(1001 \<mapsto> t4\<lparr>t_status := 0x100\<rparr>)\<rparr>)"
    by (rule set_task_some) (simp add: s4_def)
  have "task_exit ?s 0x100 = ret (s4\<lparr>ks_tasks := (ks_tasks s4)(1001 \<mapsto> t4\<lparr>t_status := 0x100\<rparr>)\<rparr>)"
    unfolding task_exit_def c by (simp only: bindR_simps T(2) T(1) load_simps fun_upd_same k ini ad cl s2 t(3) s3(1) bindS_simps prod.case) (simp add: s4 s5)
  moreover have "sched_task_fromid (s4\<lparr>ks_tasks := (ks_tasks s4)(1001 \<mapsto> t4\<lparr>t_status := 0x100\<rparr>)\<rparr>) 2 = Inr 1001"
    using t3 i t by (simp add: sched_task_fromid_def s4_def s3(3) T(4) t4_def)
  ultimately show ?thesis by blast
qed

theorem exit_leaves_null_main_witness:
  "\<exists>s'. task_exit (demo_kst\<lparr>ks_curr := 2001\<rparr>) 0x100 = ret s' \<and> sys_kill demo_mem s' 2 15 (\<lambda>_. 0) = Some (Inl BadAccess)"
proof -
  obtain s' where s': "task_exit (demo_kst\<lparr>ks_curr := 2001\<rparr>) 0x100 = ret s'" "sched_task_fromid s' 2 = Inr 1001" using demo_exit by blast
  have c: "task_curr (demo_kst\<lparr>ks_curr := 2001\<rparr>) = Inr 1001" by (simp add: task_curr_def demo_kst_def demo_thread_def)
  have z: "ks_threads (demo_kst\<lparr>ks_curr := 2001\<rparr>) 0 = None" by (simp add: demo_kst_def)
  have "sys_kill demo_mem s' 2 15 (\<lambda>_. 0) = Some (Inl BadAccess)" using exit_leaves_null_main[OF s'(1) c z] s'(2) by simp
  then show ?thesis using s'(1) by blast
qed

subsection \<open>Wait\<close>






subsection \<open>The counter of nested exceptions\<close>









end
