(* ===== verification/Fork.thy ===== *)
theory Fork
  imports Sched
begin

text \<open>
  What \<^verbatim>\<open>fork\<close> makes: the locale \<open>task_memory\<close> is the contract of the memory below the tasks that
  \<^verbatim>\<open>task.c\<close>, \<^verbatim>\<open>thread.c\<close> and \<^verbatim>\<open>fork.c\<close> rely on, with the child that they make proved from it; the
  operations of the kernel heap and of the memory management unit meet the contract, and a fork of
  a task with an empty address space returns.
\<close>

unbundle bit_operations_syntax

subsection \<open>Fork\<close>

text \<open>
  What creating a task relies on in the memory below it: a block from \<open>mo_kmalloc\<close> is new and not
  null, and the other operations keep the blocks in use.
\<close>

text \<open>Every object of the tasks lies in a block in use.\<close>

definition objs_ok :: "('m \<Rightarrow> addr set) \<Rightarrow> ('m \<Rightarrow> bool) \<Rightarrow> ('m, 'v, 'w) kst \<Rightarrow> bool" where
  "objs_ok ptrs minv s \<longleftrightarrow> minv (ks_mem s) \<and> dom (ks_tasks s) \<subseteq> ptrs (ks_mem s) \<and> dom (ks_threads s) \<subseteq> ptrs (ks_mem s) \<and>
     dom (ks_files s) \<subseteq> ptrs (ks_mem s) \<and> dom (ks_gids s) \<subseteq> ptrs (ks_mem s)"

lemma objs_okD: "objs_ok ptrs minv s \<Longrightarrow> p \<notin> ptrs (ks_mem s) \<Longrightarrow> ks_tasks s p = None \<and> ks_threads s p = None \<and> ks_files s p = None \<and> ks_gids s p = None"
  unfolding objs_ok_def by blast

lemma objs_ok_step:
  assumes "objs_ok ptrs minv s" "minv (ks_mem s')" "ptrs (ks_mem s) \<subseteq> ptrs (ks_mem s')"
    and "dom (ks_tasks s') \<subseteq> dom (ks_tasks s) \<union> ptrs (ks_mem s')" "dom (ks_threads s') \<subseteq> dom (ks_threads s) \<union> ptrs (ks_mem s')"
    and "dom (ks_files s') \<subseteq> dom (ks_files s) \<union> ptrs (ks_mem s')" "dom (ks_gids s') \<subseteq> dom (ks_gids s) \<union> ptrs (ks_mem s')"
  shows "objs_ok ptrs minv s'"
proof -
  have "dom (ks_tasks s') \<subseteq> ptrs (ks_mem s')" using assms(1,3,4) unfolding objs_ok_def by blast
  moreover have "dom (ks_threads s') \<subseteq> ptrs (ks_mem s')" using assms(1,3,5) unfolding objs_ok_def by blast
  moreover have "dom (ks_files s') \<subseteq> ptrs (ks_mem s')" using assms(1,3,6) unfolding objs_ok_def by blast
  moreover have "dom (ks_gids s') \<subseteq> ptrs (ks_mem s')" using assms(1,3,7) unfolding objs_ok_def by blast
  ultimately show ?thesis using assms(2) by (simp add: objs_ok_def)
qed

text \<open>
  What \<open>task_clone\<close> makes of the task: the credentials, the groups, the working directory, the
  process group, the session and the actions of the signals are the parent's, each open file is
  copied into a new block, and the program break and the mask of new files start afresh.
\<close>

definition forked :: "('m, 'v, 'w) kst \<Rightarrow> 'v task \<Rightarrow> addr \<Rightarrow> int \<Rightarrow> addr \<Rightarrow> (addr \<rightharpoonup> kfile) \<Rightarrow> (addr \<rightharpoonup> nat list) \<Rightarrow> 'v task \<Rightarrow> bool" where
  "forked s t me pid q F G c \<longleftrightarrow>
     t_pid c = pid \<and> t_parent c = me \<and> t_main c = q \<and> kl_items (t_threads c) = [q] \<and> kl_items (t_children c) = [] \<and>
     t_workd c = t_workd t \<and> (t_euid c, t_egid c, t_ruid c, t_rgid c) = (t_euid t, t_egid t, t_ruid t, t_rgid t) \<and>
     t_pgid c = t_pgid t \<and> t_sid c = t_sid t \<and> (\<forall>i < 32. t_signals c i = t_signals t i) \<and>
     t_groupcnt c = t_groupcnt t \<and> (t_groupcnt t \<noteq> 0 \<longrightarrow> t_groups c \<notin> dom (ks_gids s) \<and> map_option (take (t_groupcnt t)) (ks_gids s (t_groups t)) = G (t_groups c)) \<and>
     (\<forall>i < FD_MAX. if t_fds t i = 0 then t_fds c i = 0
        else t_fds c i \<notin> dom (ks_files s) \<and> F (t_fds c i) = ks_files s (t_fds t i)) \<and>
     t_brk c = 0 \<and> t_umask c = 0x12"

locale task_memory =
  fixes mo :: "('m, 'v) memops"
    and ptrs :: "'m \<Rightarrow> addr set"
    and minv :: "'m \<Rightarrow> bool"
  assumes kmalloc_fresh: "minv m \<Longrightarrow> 0 < n \<Longrightarrow> n \<le> 2 ^ 64 - 32 \<Longrightarrow> mo_kmalloc mo m n = ret (p, m') \<Longrightarrow>
      minv m' \<and> p \<noteq> 0 \<and> p \<notin> ptrs m \<and> insert p (ptrs m) \<subseteq> ptrs m'"
    and clone_keeps: "minv m \<Longrightarrow> mo_clone mo m v = ret (m', v') \<Longrightarrow> minv m' \<and> ptrs m \<subseteq> ptrs m'"
    and kstack_keeps: "minv m \<Longrightarrow> mo_kstack mo m = ret (k, m') \<Longrightarrow> minv m' \<and> ptrs m \<subseteq> ptrs m'"
    and sigstack_keeps: "minv m \<Longrightarrow> mo_sigstack mo m v = ret (k, m', v') \<Longrightarrow> minv m' \<and> ptrs m \<subseteq> ptrs m'"

begin

lemma mktask_spec:
  assumes ok: "objs_ok ptrs minv s" and par: "ks_tasks s par = Some t" "par \<noteq> 0" and r: "mktask mo s par v = ret (p, s1)"
  shows "\<exists>m. p \<notin> ptrs (ks_mem s) \<and> p \<noteq> 0 \<and> s1 = s\<lparr>ks_mem := m, ks_pid := add32 (ks_pid s) 1,
    ks_tasks := (ks_tasks s)(p \<mapsto> fresh_task (s32 (ks_pid s)) par v, par \<mapsto> t\<lparr>t_children := kl_enqueue (t_children t) p\<rparr>)\<rparr> \<and> objs_ok ptrs minv s1"
proof -
  obtain m1 fds m2 where m1: "mo_kmalloc mo (ks_mem s) sizeof_task = ret (p, m1)" and m2: "mo_kmalloc mo m1 (8 * FD_MAX) = ret (fds, m2)"
    using r by (auto simp: mktask_def bindR_ret Let_def split: if_splits)
  have i: "minv (ks_mem s)" using ok by (simp add: objs_ok_def)
  have f1: "minv m1" "p \<noteq> 0" "p \<notin> ptrs (ks_mem s)" "insert p (ptrs (ks_mem s)) \<subseteq> ptrs m1" using kmalloc_fresh[OF i _ _ m1] by auto
  have f2: "minv m2" "fds \<noteq> 0" "insert fds (ptrs m1) \<subseteq> ptrs m2" using kmalloc_fresh[OF f1(1) _ _ m2] by auto
  have np: "p \<noteq> par" using objs_okD[OF ok f1(3)] par(1) by auto
  have s1: "s1 = s\<lparr>ks_mem := m2, ks_pid := add32 (ks_pid s) 1,
    ks_tasks := (ks_tasks s)(p \<mapsto> fresh_task (s32 (ks_pid s)) par v, par \<mapsto> t\<lparr>t_children := kl_enqueue (t_children t) p\<rparr>)\<rparr>"
    using r m1 m2 f1(2) f2(2) par np by (auto simp: mktask_def Let_def set_task_def)
  moreover have "objs_ok ptrs minv s1" by (rule objs_ok_step[OF ok]) (use f1(4) f2 par in \<open>auto simp: s1\<close>)
  ultimately show ?thesis using f1(2,3) by blast
qed

lemma thread_clone_spec:
  assumes ok: "objs_ok ptrs minv s" and t: "ks_tasks s task = Some t" "ks_threads s src = Some th" and r: "thread_clone mo s task src = ret (q, s1)"
  shows "\<exists>m v k fin. q \<notin> ptrs (ks_mem s) \<and> q \<noteq> 0 \<and> s1 = s\<lparr>ks_mem := m, ks_tasks := (ks_tasks s)(task \<mapsto> t\<lparr>t_vm := v\<rparr>),
    ks_threads := (ks_threads s)(q \<mapsto> th\<lparr>th_task := task, th_state := THREAD_READY, th_kstack := k,
         th_sigqueue := kl_create, th_sigmask := 0, th_sigstack := fin\<rparr>)\<rparr> \<and> objs_ok ptrs minv s1"
proof -
  obtain m1 k m2 fin m3 v where m1: "mo_kmalloc mo (ks_mem s) sizeof_thread = ret (q, m1)" and m2: "mo_kstack mo m1 = ret (k, m2)"
    and m3: "mo_sigstack mo m2 (t_vm t) = ret (fin, m3, v)" and s1: "s1 = s\<lparr>ks_mem := m3, ks_tasks := (ks_tasks s)(task \<mapsto> t\<lparr>t_vm := v\<rparr>),
    ks_threads := (ks_threads s)(q \<mapsto> th\<lparr>th_task := task, th_state := THREAD_READY, th_kstack := k,
         th_sigqueue := kl_create, th_sigmask := 0, th_sigstack := fin\<rparr>)\<rparr>"
    using r t by (auto simp: thread_clone_def new_thread_def init_thread_meta_def bindR_ret set_task_def set_thread_def split: if_splits)
  have i: "minv (ks_mem s)" using ok by (simp add: objs_ok_def)
  have f1: "minv m1" "q \<noteq> 0" "q \<notin> ptrs (ks_mem s)" "insert q (ptrs (ks_mem s)) \<subseteq> ptrs m1" using kmalloc_fresh[OF i _ _ m1] by auto
  have f2: "minv m2" "ptrs m1 \<subseteq> ptrs m2" using kstack_keeps[OF f1(1) m2] by auto
  have f3: "minv m3" "ptrs m2 \<subseteq> ptrs m3" using sigstack_keeps[OF f2(1) m3] by auto
  have "objs_ok ptrs minv s1" by (rule objs_ok_step[OF ok]) (use f1(4) f2 f3 t in \<open>auto simp: s1\<close>)
  then show ?thesis using f1(2,3) s1 by blast
qed

lemma clone_fds_spec:
  assumes "clone_fds mo s fds p is = ret s1" "objs_ok ptrs minv s" "ks_tasks s p = Some c" "distinct is" "\<forall>i. fds i \<noteq> 0 \<longrightarrow> fds i \<in> dom (ks_files s)"
  shows "\<exists>m F fd. s1 = s\<lparr>ks_mem := m, ks_files := F, ks_tasks := (ks_tasks s)(p \<mapsto> c\<lparr>t_fds := fd\<rparr>)\<rparr> \<and> objs_ok ptrs minv s1 \<and>
    (\<forall>a \<in> dom (ks_files s). F a = ks_files s a) \<and>
    (\<forall>i. if i \<in> set is \<and> fds i \<noteq> 0 then fd i \<notin> dom (ks_files s) \<and> F (fd i) = ks_files s (fds i) \<and> F (fd i) \<noteq> None else fd i = t_fds c i)"
  using assms
proof (induction "is" arbitrary: s c)
  case Nil
  have "(ks_tasks s)(p \<mapsto> c) = ks_tasks s" using Nil.prems(3) by (simp add: fun_upd_idem)
  then have e: "s1 = s\<lparr>ks_mem := ks_mem s, ks_files := ks_files s, ks_tasks := (ks_tasks s)(p \<mapsto> c\<lparr>t_fds := t_fds c\<rparr>)\<rparr>" using Nil.prems(1) by simp
  show ?case by (intro exI[of _ "ks_mem s"] exI[of _ "ks_files s"] exI[of _ "t_fds c"], rule conjI[OF e]) (use Nil.prems in simp)
next
  case (Cons i "is")
  have d: "distinct is" using Cons.prems(4) by simp
  show ?case
  proof (cases "fds i = 0")
    case True
    then have "clone_fds mo s fds p is = ret s1" using Cons.prems(1) by simp
    note ih = Cons.IH[OF this Cons.prems(2,3) d Cons.prems(5)]
    obtain m F fd where r:
      "s1 = s\<lparr>ks_mem := m, ks_files := F, ks_tasks := (ks_tasks s)(p \<mapsto> c\<lparr>t_fds := fd\<rparr>)\<rparr>" "objs_ok ptrs minv s1"
      "\<forall>a \<in> dom (ks_files s). F a = ks_files s a"
      "\<forall>j. if j \<in> set is \<and> fds j \<noteq> 0 then fd j \<notin> dom (ks_files s) \<and> F (fd j) = ks_files s (fds j) \<and> F (fd j) \<noteq> None else fd j = t_fds c j" using ih by (elim exE conjE) (rule that; assumption)
    have "\<forall>j. if j \<in> set (i # is) \<and> fds j \<noteq> 0 then fd j \<notin> dom (ks_files s) \<and> F (fd j) = ks_files s (fds j) \<and> F (fd j) \<noteq> None else fd j = t_fds c j"
    proof
      fix j show "if j \<in> set (i # is) \<and> fds j \<noteq> 0 then fd j \<notin> dom (ks_files s) \<and> F (fd j) = ks_files s (fds j) \<and> F (fd j) \<noteq> None else fd j = t_fds c j"
        using r(4)[rule_format, of j] True by (cases "j = i") auto
    qed
    then show ?thesis using r by blast
  next
    case False
    obtain f q m2 where f: "ks_files s (fds i) = Some f" and q: "mo_kmalloc mo (ks_mem s) sizeof_file = ret (q, m2)" "q \<noteq> 0"
      and rest: "clone_fds mo (s\<lparr>ks_mem := m2, ks_files := (ks_files s)(q \<mapsto> f), ks_tasks := (ks_tasks s)(p \<mapsto> c\<lparr>t_fds := (t_fds c)(i := q)\<rparr>)\<rparr>) fds p is = ret s1"
      using Cons.prems(1,3) False by (auto simp: bindR_ret load_Inr set_task_def split: if_splits)
    have i0: "minv (ks_mem s)" using Cons.prems(2) by (simp add: objs_ok_def)
    have fr: "minv m2" "q \<notin> ptrs (ks_mem s)" "insert q (ptrs (ks_mem s)) \<subseteq> ptrs m2" using kmalloc_fresh[OF i0 _ _ q(1)] by auto
    have nq: "ks_files s q = None" using objs_okD[OF Cons.prems(2) fr(2)] by simp
    define s2 where "s2 = s\<lparr>ks_mem := m2, ks_files := (ks_files s)(q \<mapsto> f), ks_tasks := (ks_tasks s)(p \<mapsto> c\<lparr>t_fds := (t_fds c)(i := q)\<rparr>)\<rparr>"
    have ok2: "objs_ok ptrs minv s2" by (rule objs_ok_step[OF Cons.prems(2)]) (use fr Cons.prems(3) in \<open>auto simp: s2_def\<close>)
    have t2: "ks_tasks s2 p = Some (c\<lparr>t_fds := (t_fds c)(i := q)\<rparr>)" by (simp add: s2_def)
    have F2: "ks_files s2 = (ks_files s)(q \<mapsto> f)" by (simp add: s2_def)
    have d2: "\<forall>j. fds j \<noteq> 0 \<longrightarrow> fds j \<in> dom (ks_files s2)" using Cons.prems(5) unfolding F2 by simp
    obtain m F fd where r:
      "s1 = s2\<lparr>ks_mem := m, ks_files := F, ks_tasks := (ks_tasks s2)(p \<mapsto> c\<lparr>t_fds := (t_fds c)(i := q)\<rparr>\<lparr>t_fds := fd\<rparr>)\<rparr>" "objs_ok ptrs minv s1"
      "\<forall>a \<in> dom (ks_files s2). F a = ks_files s2 a"
      "\<forall>j. if j \<in> set is \<and> fds j \<noteq> 0 then fd j \<notin> dom (ks_files s2) \<and> F (fd j) = ks_files s2 (fds j) \<and> F (fd j) \<noteq> None else fd j = t_fds (c\<lparr>t_fds := (t_fds c)(i := q)\<rparr>) j"
      using Cons.IH[OF rest[folded s2_def] ok2 t2 d d2] by (elim exE conjE) (rule that; assumption)
    have eq: "s1 = s\<lparr>ks_mem := m, ks_files := F, ks_tasks := (ks_tasks s)(p \<mapsto> c\<lparr>t_fds := fd\<rparr>)\<rparr>" unfolding r(1) by (simp add: s2_def)
    have keep: "\<forall>a \<in> dom (ks_files s). F a = ks_files s a" using r(3) nq unfolding F2 by (auto simp: dom_def split: if_splits)
    have "i \<notin> set is" using Cons.prems(4) by simp
    then have fi: "fd i = q" "F q = Some f" using r(4)[rule_format, of i] r(3) unfolding F2 by auto
    have "if j \<in> set (i # is) \<and> fds j \<noteq> 0 then fd j \<notin> dom (ks_files s) \<and> F (fd j) = ks_files s (fds j) \<and> F (fd j) \<noteq> None else fd j = t_fds c j" for j
    proof (cases "j = i")
      case True
      then show ?thesis using fi f nq False by auto
    next
      case nj: False
      have "fds j \<noteq> q" if "fds j \<noteq> 0" using that Cons.prems(5) nq by (metis domIff)
      then show ?thesis using r(4)[rule_format, of j] nj unfolding F2 by (auto split: if_splits)
    qed
    then show ?thesis using eq r(2) keep by blast
  qed
qed

lemma clone_groups_spec:
  assumes "clone_groups mo s st p = ret s1" "objs_ok ptrs minv s" "ks_tasks s p = Some c" "t_groupcnt st < 2 ^ 32"
  shows "\<exists>m G gs n. s1 = s\<lparr>ks_mem := m, ks_gids := G, ks_tasks := (ks_tasks s)(p \<mapsto> c\<lparr>t_groupcnt := n, t_groups := gs\<rparr>)\<rparr> \<and> objs_ok ptrs minv s1 \<and>
    (\<forall>a \<in> dom (ks_gids s). G a = ks_gids s a) \<and>
    (if t_groupcnt st = 0 then n = t_groupcnt c \<and> gs = t_groups c
     else n = t_groupcnt st \<and> gs \<notin> dom (ks_gids s) \<and> (\<exists>xs. ks_gids s (t_groups st) = Some xs \<and> n \<le> length xs \<and> G gs = Some (take n xs)))"
proof (cases "t_groupcnt st = 0")
  case True
  have "(ks_tasks s)(p \<mapsto> c) = ks_tasks s" using assms(3) by (simp add: fun_upd_idem)
  then have e: "s1 = s\<lparr>ks_mem := ks_mem s, ks_gids := ks_gids s, ks_tasks := (ks_tasks s)(p \<mapsto> c\<lparr>t_groupcnt := t_groupcnt c, t_groups := t_groups c\<rparr>)\<rparr>"
    using assms(1) True by (simp add: clone_groups_def)
  show ?thesis
    by (intro exI[of _ "ks_mem s"] exI[of _ "ks_gids s"] exI[of _ "t_groups c"] exI[of _ "t_groupcnt c"], rule conjI[OF e]) (use assms True in \<open>simp add: clone_groups_def\<close>)
next
  case False
  obtain q m xs where q: "mo_kmalloc mo (ks_mem s) (t_groupcnt st * 4) = ret (q, m)" and xs: "ks_gids s (t_groups st) = Some xs" "t_groupcnt st \<le> length xs"
    and s1: "s1 = s\<lparr>ks_mem := m, ks_gids := (ks_gids s)(q \<mapsto> take (t_groupcnt st) xs), ks_tasks := (ks_tasks s)(p \<mapsto> c\<lparr>t_groupcnt := t_groupcnt st, t_groups := q\<rparr>)\<rparr>"
    using assms(1,3) False by (auto simp: clone_groups_def bindR_ret load_Inr set_task_def split: if_splits)
  have i0: "minv (ks_mem s)" using assms(2) by (simp add: objs_ok_def)
  have fr: "minv m" "q \<notin> ptrs (ks_mem s)" "insert q (ptrs (ks_mem s)) \<subseteq> ptrs m" using kmalloc_fresh[OF i0 _ _ q] False assms(4) by auto
  have nq: "ks_gids s q = None" using objs_okD[OF assms(2) fr(2)] by simp
  have "objs_ok ptrs minv s1" by (rule objs_ok_step[OF assms(2)]) (use fr assms(3) in \<open>auto simp: s1\<close>)
  then show ?thesis using s1 xs nq False
    by (intro exI[of _ m] exI[of _ "(ks_gids s)(q \<mapsto> take (t_groupcnt st) xs)"] exI[of _ q] exI[of _ "t_groupcnt st"]) auto
qed

lemma clone_begin_spec:
  assumes ok: "objs_ok ptrs minv s" and t: "ks_tasks s me = Some t" "me \<noteq> 0" "ks_threads s src = Some th"
    and m1: "mo_clone mo (ks_mem s) (t_vm t) = ret (m1, v)" and s2: "mktask mo (s\<lparr>ks_mem := m1\<rparr>) me v = ret (p, s2)"
    and s3: "thread_clone mo s2 p src = ret (q, s3)"
  shows "\<exists>m w k fin. s3 = s\<lparr>ks_mem := m, ks_pid := add32 (ks_pid s) 1,
      ks_tasks := (ks_tasks s)(p \<mapsto> (fresh_task (s32 (ks_pid s)) me v)\<lparr>t_vm := w\<rparr>, me \<mapsto> t\<lparr>t_children := kl_enqueue (t_children t) p\<rparr>),
      ks_threads := (ks_threads s)(q \<mapsto> th\<lparr>th_task := p, th_state := THREAD_READY, th_kstack := k,
         th_sigqueue := kl_create, th_sigmask := 0, th_sigstack := fin\<rparr>)\<rparr> \<and>
    ks_tasks s p = None \<and> ks_threads s q = None \<and> objs_ok ptrs minv s3"
proof -
  have i: "minv (ks_mem s)" using ok by (simp add: objs_ok_def)
  have f1: "minv m1" "ptrs (ks_mem s) \<subseteq> ptrs m1" using clone_keeps[OF i m1] by auto
  have ok1: "objs_ok ptrs minv (s\<lparr>ks_mem := m1\<rparr>)" by (rule objs_ok_step[OF ok]) (use f1 in auto)
  obtain m2 where p: "p \<notin> ptrs m1" "p \<noteq> 0" and s2e: "s2 = s\<lparr>ks_mem := m2, ks_pid := add32 (ks_pid s) 1,
      ks_tasks := (ks_tasks s)(p \<mapsto> fresh_task (s32 (ks_pid s)) me v, me \<mapsto> t\<lparr>t_children := kl_enqueue (t_children t) p\<rparr>)\<rparr>" and ok2: "objs_ok ptrs minv s2"
    using mktask_spec[OF ok1 _ t(2) s2, of t] t(1) by auto
  have pn: "ks_tasks s p = None" "p \<noteq> me" using objs_okD[OF ok1, of p] t(1) p(1) by auto
  have t2: "ks_tasks s2 p = Some (fresh_task (s32 (ks_pid s)) me v)" "ks_threads s2 src = Some th" using pn t(3) by (simp_all add: s2e)
  obtain m3 w k fin where qn: "q \<notin> ptrs m2" and s3e: "s3 = s2\<lparr>ks_mem := m3, ks_tasks := (ks_tasks s2)(p \<mapsto> (fresh_task (s32 (ks_pid s)) me v)\<lparr>t_vm := w\<rparr>),
    ks_threads := (ks_threads s2)(q \<mapsto> th\<lparr>th_task := p, th_state := THREAD_READY, th_kstack := k,
         th_sigqueue := kl_create, th_sigmask := 0, th_sigstack := fin\<rparr>)\<rparr>" and ok3: "objs_ok ptrs minv s3"
    using thread_clone_spec[OF ok2 t2 s3] by (auto simp: s2e)
  have qn2: "ks_threads s q = None" using objs_okD[OF ok2, of q] qn by (simp add: s2e)
  have "s3 = s\<lparr>ks_mem := m3, ks_pid := add32 (ks_pid s) 1,
      ks_tasks := (ks_tasks s)(p \<mapsto> (fresh_task (s32 (ks_pid s)) me v)\<lparr>t_vm := w\<rparr>, me \<mapsto> t\<lparr>t_children := kl_enqueue (t_children t) p\<rparr>),
      ks_threads := (ks_threads s)(q \<mapsto> th\<lparr>th_task := p, th_state := THREAD_READY, th_kstack := k,
         th_sigqueue := kl_create, th_sigmask := 0, th_sigstack := fin\<rparr>)\<rparr>"
    unfolding s3e s2e using pn(2) by (simp add: fun_upd_twist)
  then show ?thesis using pn(1) qn2 ok3 by blast
qed

lemma clone_finish_spec:
  assumes ok: "objs_ok ptrs minv s" and c: "ks_tasks s p = Some c0" "c0 = (fresh_task pid me v)\<lparr>t_vm := w\<rparr>" and g: "t_groupcnt t < 2 ^ 32"
    and fds: "\<forall>i. t_fds t i \<noteq> 0 \<longrightarrow> t_fds t i \<in> dom (ks_files s)"
    and s4: "bindR (Some (set_task s p (\<lambda>t. t\<lparr>t_main := q, t_threads := kl_enqueue (t_threads t) q\<rparr>))) (\<lambda>s. clone_fds mo s (t_fds t) p [0..<FD_MAX]) = ret s4"
    and s5: "bindR (Some (set_task s4 p (\<lambda>c. c\<lparr>t_workd := t_workd t, t_euid := t_euid t, t_egid := t_egid t,
          t_ruid := t_ruid t, t_rgid := t_rgid t, t_pgid := t_pgid t, t_sid := t_sid t\<rparr>))) (\<lambda>s. clone_groups mo s t p) = ret s5"
    and s1: "set_task s5 p (\<lambda>c. c\<lparr>t_signals := (\<lambda>i. if i < 32 then t_signals t i else t_signals c i)\<rparr>) = Inr s1"
  shows "\<exists>m F G ct. s1 = s\<lparr>ks_mem := m, ks_files := F, ks_gids := G, ks_tasks := (ks_tasks s)(p \<mapsto> ct)\<rparr> \<and>
    (\<forall>a \<in> dom (ks_files s). F a = ks_files s a) \<and> (\<forall>a \<in> dom (ks_gids s). G a = ks_gids s a) \<and> forked s t me pid q F G ct \<and> objs_ok ptrs minv s1"
proof -
  define c1 where "c1 = c0\<lparr>t_main := q, t_threads := kl_enqueue kl_create q\<rparr>"
  define sA where "sA = s\<lparr>ks_tasks := (ks_tasks s)(p \<mapsto> c1)\<rparr>"
  have sA: "set_task s p (\<lambda>t. t\<lparr>t_main := q, t_threads := kl_enqueue (t_threads t) q\<rparr>) = Inr sA"
    using c by (simp add: set_task_def sA_def c1_def fresh_task_def)
  have okA: "objs_ok ptrs minv sA" using ok c(1) by (auto simp: objs_ok_def sA_def)
  have A: "clone_fds mo sA (t_fds t) p [0..<FD_MAX] = ret s4" "ks_tasks sA p = Some c1" "\<forall>i. t_fds t i \<noteq> 0 \<longrightarrow> t_fds t i \<in> dom (ks_files sA)"
    using s4 fds unfolding sA by (simp_all add: sA_def)
  obtain m F fd where s4e: "s4 = sA\<lparr>ks_mem := m, ks_files := F, ks_tasks := (ks_tasks sA)(p \<mapsto> c1\<lparr>t_fds := fd\<rparr>)\<rparr>" and ok4: "objs_ok ptrs minv s4"
    and F: "\<forall>a \<in> dom (ks_files sA). F a = ks_files sA a"
    and fd: "\<forall>i. if i \<in> set [0..<FD_MAX] \<and> t_fds t i \<noteq> 0 then fd i \<notin> dom (ks_files sA) \<and> F (fd i) = ks_files sA (t_fds t i) \<and> F (fd i) \<noteq> None else fd i = t_fds c1 i"
    using clone_fds_spec[OF A(1) okA A(2) distinct_upt A(3)] by (elim exE conjE) (rule that; assumption)
  define c2 where "c2 = c1\<lparr>t_fds := fd, t_workd := t_workd t, t_euid := t_euid t, t_egid := t_egid t,
          t_ruid := t_ruid t, t_rgid := t_rgid t, t_pgid := t_pgid t, t_sid := t_sid t\<rparr>"
  define sB where "sB = s\<lparr>ks_mem := m, ks_files := F, ks_tasks := (ks_tasks s)(p \<mapsto> c2)\<rparr>"
  have B: "clone_groups mo sB t p = ret s5" "ks_tasks sB p = Some c2" using s5 by (simp_all add: s4e set_task_def sB_def sA_def c2_def)
  have okB: "objs_ok ptrs minv sB" using ok4 unfolding s4e sA_def sB_def objs_ok_def by simp
  obtain m' G gs n where s5e: "s5 = sB\<lparr>ks_mem := m', ks_gids := G, ks_tasks := (ks_tasks sB)(p \<mapsto> c2\<lparr>t_groupcnt := n, t_groups := gs\<rparr>)\<rparr>" and ok5: "objs_ok ptrs minv s5"
    and G: "\<forall>a \<in> dom (ks_gids sB). G a = ks_gids sB a"
    and n: "if t_groupcnt t = 0 then n = t_groupcnt c2 \<and> gs = t_groups c2
     else n = t_groupcnt t \<and> gs \<notin> dom (ks_gids sB) \<and> (\<exists>xs. ks_gids sB (t_groups t) = Some xs \<and> n \<le> length xs \<and> G gs = Some (take n xs))"
    using clone_groups_spec[OF B(1) okB B(2) g] by (elim exE conjE) (rule that; assumption)
  define ct where "ct = c2\<lparr>t_groupcnt := n, t_groups := gs, t_signals := (\<lambda>i. if i < 32 then t_signals t i else t_signals c2 i)\<rparr>"
  have e: "s1 = s\<lparr>ks_mem := m', ks_files := F, ks_gids := G, ks_tasks := (ks_tasks s)(p \<mapsto> ct)\<rparr>"
    using s1 by (auto simp: s5e set_task_def sB_def ct_def cong: if_cong)
  have ok1: "objs_ok ptrs minv s1" using ok5 unfolding s5e e sB_def objs_ok_def by simp
  have "c2 = (fresh_task pid me v)\<lparr>t_vm := w, t_main := q, t_threads := kl_enqueue kl_create q, t_fds := fd, t_workd := t_workd t, t_euid := t_euid t, t_egid := t_egid t,
          t_ruid := t_ruid t, t_rgid := t_rgid t, t_pgid := t_pgid t, t_sid := t_sid t\<rparr>" by (simp add: c2_def c1_def c(2))
  moreover have "if t_fds t i = 0 then fd i = 0 else fd i \<notin> dom (ks_files s) \<and> F (fd i) = ks_files s (t_fds t i)" if "i < FD_MAX" for i
    using fd[rule_format, of i] that by (auto simp: sA_def c1_def c(2) fresh_task_def split: if_splits)
  ultimately have "forked s t me pid q F G ct" using n
    by (auto simp: forked_def ct_def sB_def fresh_task_def kl_enqueue_def kl_create_def split: if_splits)
  then show ?thesis using e ok1 F G by (auto simp: sA_def sB_def)
qed

lemma task_clone_spec:
  assumes ok: "objs_ok ptrs minv s" and t: "ks_tasks s me = Some t" "me \<noteq> 0" "ks_threads s src = Some th" "t_groupcnt t < 2 ^ 32"
    and fds: "\<forall>i. t_fds t i \<noteq> 0 \<longrightarrow> t_fds t i \<in> dom (ks_files s)" and r: "task_clone mo s me src = ret (p, s1)"
  shows "\<exists>m F G q ct k fin. s1 = s\<lparr>ks_mem := m, ks_files := F, ks_gids := G, ks_pid := add32 (ks_pid s) 1,
      ks_tasks := (ks_tasks s)(p \<mapsto> ct, me \<mapsto> t\<lparr>t_children := kl_enqueue (t_children t) p\<rparr>),
      ks_threads := (ks_threads s)(q \<mapsto> th\<lparr>th_task := p, th_state := THREAD_READY, th_kstack := k,
         th_sigqueue := kl_create, th_sigmask := 0, th_sigstack := fin\<rparr>)\<rparr> \<and> ks_tasks s p = None \<and> ks_threads s q = None \<and>
    (\<forall>a \<in> dom (ks_files s). F a = ks_files s a) \<and> (\<forall>a \<in> dom (ks_gids s). G a = ks_gids s a) \<and> forked s t me (s32 (ks_pid s)) q F G ct \<and> objs_ok ptrs minv s1"
proof -
  obtain m1 v s2 q s3 s4 s5 where m1: "mo_clone mo (ks_mem s) (t_vm t) = ret (m1, v)" and s2: "mktask mo (s\<lparr>ks_mem := m1\<rparr>) me v = ret (p, s2)"
    and s3: "thread_clone mo s2 p src = ret (q, s3)" 
    and s4: "bindR (Some (set_task s3 p (\<lambda>t. t\<lparr>t_main := q, t_threads := kl_enqueue (t_threads t) q\<rparr>))) (\<lambda>s. clone_fds mo s (t_fds t) p [0..<FD_MAX]) = ret s4"
    and s5: "bindR (Some (set_task s4 p (\<lambda>c. c\<lparr>t_workd := t_workd t, t_euid := t_euid t, t_egid := t_egid t,
          t_ruid := t_ruid t, t_rgid := t_rgid t, t_pgid := t_pgid t, t_sid := t_sid t\<rparr>))) (\<lambda>s. clone_groups mo s t p) = ret s5"
    and s1: "set_task s5 p (\<lambda>c. c\<lparr>t_signals := (\<lambda>i. if i < 32 then t_signals t i else t_signals c i)\<rparr>) = Inr s1"
    using r t(1) unfolding task_clone_def by (auto simp: bindR_ret)
  obtain m w k fin where s3e: "s3 = s\<lparr>ks_mem := m, ks_pid := add32 (ks_pid s) 1,
      ks_tasks := (ks_tasks s)(p \<mapsto> (fresh_task (s32 (ks_pid s)) me v)\<lparr>t_vm := w\<rparr>, me \<mapsto> t\<lparr>t_children := kl_enqueue (t_children t) p\<rparr>),
      ks_threads := (ks_threads s)(q \<mapsto> th\<lparr>th_task := p, th_state := THREAD_READY, th_kstack := k,
         th_sigqueue := kl_create, th_sigmask := 0, th_sigstack := fin\<rparr>)\<rparr>"
    and n: "ks_tasks s p = None" "ks_threads s q = None" and ok3: "objs_ok ptrs minv s3"
    using clone_begin_spec[OF ok t(1-3) m1 s2 s3] by (elim exE conjE) (rule that; assumption)
  have pm: "p \<noteq> me" using n(1) t(1) by auto
  have p3: "ks_tasks s3 p = Some ((fresh_task (s32 (ks_pid s)) me v)\<lparr>t_vm := w\<rparr>)" using pm by (simp add: s3e)
  have f3: "\<forall>i. t_fds t i \<noteq> 0 \<longrightarrow> t_fds t i \<in> dom (ks_files s3)" using fds by (simp add: s3e)
  obtain m' F G ct where e: "s1 = s3\<lparr>ks_mem := m', ks_files := F, ks_gids := G, ks_tasks := (ks_tasks s3)(p \<mapsto> ct)\<rparr>"
    and r: "\<forall>a \<in> dom (ks_files s3). F a = ks_files s3 a" "\<forall>a \<in> dom (ks_gids s3). G a = ks_gids s3 a" "forked s3 t me (s32 (ks_pid s)) q F G ct" "objs_ok ptrs minv s1"
    using clone_finish_spec[OF ok3 p3 refl t(4) f3 s4 s5 s1] by (elim exE conjE) (rule that; assumption)
  have "s1 = s\<lparr>ks_mem := m', ks_files := F, ks_gids := G, ks_pid := add32 (ks_pid s) 1,
      ks_tasks := (ks_tasks s)(p \<mapsto> ct, me \<mapsto> t\<lparr>t_children := kl_enqueue (t_children t) p\<rparr>),
      ks_threads := (ks_threads s)(q \<mapsto> th\<lparr>th_task := p, th_state := THREAD_READY, th_kstack := k,
         th_sigqueue := kl_create, th_sigmask := 0, th_sigstack := fin\<rparr>)\<rparr>"
    unfolding e s3e using pm by (simp add: fun_upd_twist)
  moreover have "forked s t me (s32 (ks_pid s)) q F G ct" using r(3) by (simp add: forked_def s3e cong: if_cong)
  moreover have "\<forall>a \<in> dom (ks_files s). F a = ks_files s a" "\<forall>a \<in> dom (ks_gids s). G a = ks_gids s a" using r(1,2) by (simp_all add: s3e)
  ultimately show ?thesis using n r(4) by blast
qed

lemma fork_spec:
  assumes ok: "objs_ok ptrs minv s" and th: "ks_curr s \<noteq> 0" "ks_threads s (ks_curr s) = Some th"
    and t: "ks_tasks s (th_task th) = Some t" "th_task th \<noteq> 0" "t_groupcnt t < 2 ^ 32"
    and fds: "\<forall>i. t_fds t i \<noteq> 0 \<longrightarrow> t_fds t i \<in> dom (ks_files s)" and r: "sys_fork mo s = ret (pid, s')"
  shows "\<exists>p q ct cth. pid = s32 (ks_pid s) \<and> ks_tasks s p = None \<and> ks_threads s q = None \<and>
    ks_tasks s' = (ks_tasks s)(p \<mapsto> ct, th_task th \<mapsto> t\<lparr>t_children := kl_enqueue (t_children t) p\<rparr>) \<and>
    ks_threads s' = (ks_threads s)(q \<mapsto> cth) \<and> forked s t (th_task th) pid q (ks_files s') (ks_gids s') ct \<and>
    th_task cth = p \<and> th_state cth = THREAD_READY \<and> th_regs cth = (th_sysregs th)(RAX := 0) \<and>
    ks_list s' = kl_enqueue (ks_list s) p \<and> ks_ready s' = kl_enqueue (ks_ready s) q \<and> ks_curr s' = ks_curr s \<and>
    (\<forall>a \<in> dom (ks_files s). ks_files s' a = ks_files s a) \<and> objs_ok ptrs minv s'"
proof -
  obtain p s1 ct' q s2 where c: "task_clone mo s (th_task th) (ks_curr s) = ret (p, s1)" and p1: "ks_tasks s1 p = Some ct'" "kl_get (t_threads ct') 0 = Inr q"
    and s2: "set_thread s1 q (\<lambda>t. t\<lparr>th_regs := (th_sysregs th)(RAX := 0)\<rparr>) = Inr s2" and s': "sched_start s2 p = Inr s'" and pid: "pid = t_pid ct'"
    using r th unfolding sys_fork_def by (auto simp: bindR_ret task_curr_def load_Inr)
  obtain m F G q' ct k fin where e: "s1 = s\<lparr>ks_mem := m, ks_files := F, ks_gids := G, ks_pid := add32 (ks_pid s) 1,
      ks_tasks := (ks_tasks s)(p \<mapsto> ct, th_task th \<mapsto> t\<lparr>t_children := kl_enqueue (t_children t) p\<rparr>),
      ks_threads := (ks_threads s)(q' \<mapsto> th\<lparr>th_task := p, th_state := THREAD_READY, th_kstack := k,
         th_sigqueue := kl_create, th_sigmask := 0, th_sigstack := fin\<rparr>)\<rparr>" and n: "ks_tasks s p = None" "ks_threads s q' = None"
    and F: "\<forall>a \<in> dom (ks_files s). F a = ks_files s a" and f: "forked s t (th_task th) (s32 (ks_pid s)) q' F G ct" and ok1: "objs_ok ptrs minv s1"
    using task_clone_spec[OF ok t(1,2) th(2) t(3) fds c] by (elim exE conjE) (rule that; assumption)
  have pm: "p \<noteq> th_task th" using n(1) t(1) by auto
  have ct: "ct' = ct" using p1(1) pm by (simp add: e)
  have ts: "kl_items (t_threads ct) = [q']" "t_pid ct = s32 (ks_pid s)" using f by (simp_all add: forked_def)
  then have q: "q = q'" using p1(2) unfolding ct kl_get_def by (auto split: if_splits)
  define cth where "cth = th\<lparr>th_task := p, th_kstack := k, th_sigqueue := kl_create,
         th_sigmask := 0, th_sigstack := fin, th_regs := (th_sysregs th)(RAX := 0), th_state := THREAD_READY\<rparr>"
  have "s' = s1\<lparr>ks_list := kl_enqueue (ks_list s) p, ks_threads := (ks_threads s)(q \<mapsto> cth), ks_ready := kl_enqueue (ks_ready s) q\<rparr>"
    using s2 s' pm ts unfolding q by (auto simp: e set_thread_def sched_start_def sched_spawnthread_def cth_def Let_def)
  moreover have "objs_ok ptrs minv s'" using ok1 calculation unfolding objs_ok_def e q by simp
  ultimately show ?thesis using n f F ts ct pid unfolding q
    by (intro exI[of _ p] exI[of _ q'] exI[of _ ct] exI[of _ cth]) (simp add: e cth_def)
qed

end

subsection \<open>The memory of the kernel meets the contract\<close>

text \<open>The operations on address spaces only add blocks to the kernel heap.\<close>

definition grows :: "mm \<Rightarrow> mm \<Rightarrow> bool" where
  "grows m m' \<longleftrightarrow> (heap_inv (mm_heap m) \<longrightarrow> heap_inv (mm_heap m') \<and> fst ` live (mm_heap m) \<subseteq> fst ` live (mm_heap m'))"

lemma grows_heap: "mm_heap m' = mm_heap m \<Longrightarrow> grows m m'"
  by (simp add: grows_def)

lemma grows_trans: "grows m m1 \<Longrightarrow> grows m1 m2 \<Longrightarrow> grows m m2"
  by (auto simp: grows_def)

lemma mm_kmalloc_new:
  assumes "heap_inv (mm_heap m)" "0 < n" "n \<le> 2 ^ 64 - 32" "mm_kmalloc m n = ret (p, m')"
  shows "heap_inv (mm_heap m') \<and> p \<noteq> 0 \<and> p \<notin> fst ` live (mm_heap m) \<and> insert p (fst ` live (mm_heap m)) \<subseteq> fst ` live (mm_heap m')"
proof -
  obtain h where h: "kmalloc (mm_heap m) n = Some (Inr (p, h))" "m' = m\<lparr>mm_heap := h\<rparr>" using assms(4) by (auto simp: mm_kmalloc_def bindR_ret)
  note s = kmalloc_sound[OF assms(1-3) h(1)]
  show ?thesis using s(1,2,4,6) h(2) by auto
qed

lemma grows_kmalloc:
  assumes "n \<le> 2 ^ 64 - 32" "mm_kmalloc m n = ret (p, m')"
  shows "grows m m'"
proof (cases "n = 0")
  case True
  then show ?thesis using assms(2) by (auto simp: mm_kmalloc_def kmalloc_def grows_def bindR_ret)
next
  case False
  then show ?thesis unfolding grows_def using mm_kmalloc_new[OF _ _ assms] by blast
qed

lemma kalloc_mark_heap: "kalloc_mark m i j n = Inr m' \<Longrightarrow> mm_heap m' = mm_heap m"
  by (induction m i j n rule: kalloc_mark.induct) (auto simp: Let_def split: if_splits)

lemma set_dir_heap [simp]: "mm_heap (set_dir m i) = mm_heap m"
  by (simp add: set_dir_def)

lemma kalloc_mark_new_heap: "kalloc_mark_new m i j n = Inr m' \<Longrightarrow> mm_heap m' = mm_heap m"
  by (induction m i j n rule: kalloc_mark_new.induct) (auto simp: Let_def split: if_splits)

lemma kalloc_heap [keeps]: "mmu_kalloc m n = Inr (p, m') \<Longrightarrow> mm_heap m' = mm_heap m"
  by (auto simp: mmu_kalloc_def bindS_Inr dest!: kalloc_mark_heap kalloc_mark_new_heap split: if_splits option.splits)

lemma kmap_heap [simp]: "mm_heap (mmu_kmap m a b c) = mm_heap m"
  by (simp add: mmu_kmap_def)

lemma kfree_heap [simp]: "mm_heap (mmu_kfree m a n) = mm_heap m"
  by (induction m a n rule: mmu_kfree.induct) simp_all

lemma alloc_phys_heap [keeps]: "mmu_alloc_phys m = Inr (p, m') \<Longrightarrow> mm_heap m' = mm_heap m"
  by (auto simp: mmu_alloc_phys_def mmu_alloc_phys_at_def bindS_Inr split: option.splits)

lemma kpage_set_heap [keeps]: "kpage_set m p f = Inr m' \<Longrightarrow> mm_heap m' = mm_heap m"
  by (auto simp: kpage_set_def split: if_splits)

lemma kstore_heap [keeps]: "kstore m p i e = Inr m' \<Longrightarrow> mm_heap m' = mm_heap m"
  by (auto simp: kstore_def split: if_splits)

lemma mktable_heap [keeps]: "mktable m v i j = Inr (m', v') \<Longrightarrow> mm_heap m' = mm_heap m"
  by (auto simp: mktable_def bindS_Inr dest!: keeps)

lemma mmu_map_heap: "mmu_map m v a p fl = Inr (m', v') \<Longrightarrow> mm_heap m' = mm_heap m"
  by (auto simp: mmu_map_def Let_def bindS_Inr dest!: keeps split: if_splits)

lemma clone_page_heap: "clone_page m v i j k e = Inr m' \<Longrightarrow> mm_heap m' = mm_heap m"
  by (auto simp: clone_page_def Let_def bindS_Inr dest!: keeps split: if_splits)

lemma clone_table_heap: "clone_table m v pt i j ks = Inr m' \<Longrightarrow> mm_heap m' = mm_heap m"
  by (induction ks arbitrary: m) (auto simp: bindS_Inr dest!: clone_page_heap split: if_splits)

lemma clone_tables_heap: "clone_tables m v src ps = Inr (m', v') \<Longrightarrow> mm_heap m' = mm_heap m"
  by (induction m v src ps rule: clone_tables.induct) (auto simp: bindS_Inr dest!: clone_table_heap mktable_heap kstore_heap split: if_splits)

lemma create_pds_grows: "create_pds m v is = ret (m', v') \<Longrightarrow> grows m m'"
proof (induction "is" arbitrary: m v)
  case (Cons i "is")
  obtain pd m1 ph m2 m3 m4 row m5 v5 where 1: "mmu_kalloc m 1 = Inr (pd, m1)" "mmu_alloc_phys m1 = Inr (ph, m2)"
    "kpage_set (mmu_kmap m2 pd ph (PAGE_PR OR PAGE_RW)) pd (\<lambda>_. 0) = Inr m3" "kstore m3 (vm_pdpt v) i (ph OR PAGE_PR OR PAGE_RW OR PAGE_USR) = Inr m4"
    "mm_kmalloc m4 4096 = ret (row, m5)" "create_pds m5 v5 is = ret (m', v')"
    using Cons.prems by (auto simp: bindR_ret)
  have "mm_heap m1 = mm_heap m" "mm_heap m2 = mm_heap m1" using 1(1,2) by (auto dest!: keeps)
  moreover have "mm_heap m3 = mm_heap m2" "mm_heap m4 = mm_heap m3" using 1(3,4) by (auto dest!: keeps)
  ultimately have "grows m m4" by (intro grows_heap) simp
  moreover have "grows m4 m5" by (rule grows_kmalloc[OF _ 1(5)]) simp
  ultimately show ?case using Cons.IH[OF 1(6)] grows_trans by blast
qed (simp add: grows_heap)

lemma create_grows:
  assumes "mmu_create_vmmap m junk = ret (m', v')"
  shows "grows m m'"
proof -
  obtain self m1 pml4 m2 pdpt m3 pds m4 pts m5 a m6 b m7 m8 m9 m10 v where 1: "mm_kmalloc m sizeof_vm_map = ret (self, m1)"
      "mmu_kalloc m1 1 = Inr (pml4, m2)" "mmu_kalloc m2 1 = Inr (pdpt, m3)"
    and 2: "mm_kmalloc m3 PAGE4K = ret (pds, m4)" "mm_kmalloc m4 PAGE4K = ret (pts, m5)"
    and 3: "mmu_alloc_phys m5 = Inr (a, m6)" "mmu_alloc_phys m6 = Inr (b, m7)"
      "kpage_set (mmu_kmap (mmu_kmap m7 pml4 a (PAGE_PR OR PAGE_RW)) pdpt b (PAGE_PR OR PAGE_RW)) pml4 (kpml4 (mmu_kmap (mmu_kmap m7 pml4 a (PAGE_PR OR PAGE_RW)) pdpt b (PAGE_PR OR PAGE_RW))) = Inr m8"
      "kpage_set m8 pdpt (\<lambda>_. 0) = Inr m9" "kstore m9 pml4 0 (b OR PAGE_PR OR PAGE_RW OR PAGE_USR) = Inr m10"
    and 4: "create_pds m10 v [0..<ENTCNT] = ret (m', v')"
    using assms unfolding mmu_create_vmmap_def by (auto simp: bindR_ret Let_def)
  have "grows m m1" "grows m3 m4" "grows m4 m5" using grows_kmalloc[OF _ 1(1)] grows_kmalloc[OF _ 2(1)] grows_kmalloc[OF _ 2(2)] by simp_all
  moreover have "grows m1 m3" using 1(2,3) by (auto intro!: grows_heap dest!: keeps)
  moreover have "grows m5 m7" using 3(1,2) by (auto intro!: grows_heap dest!: keeps)
  moreover have "grows m7 m10" by (intro grows_heap) (use 3(3-5) in \<open>auto dest!: keeps\<close>)
  ultimately show ?thesis using create_pds_grows[OF 4] grows_trans by meson
qed

lemma clone_grows: "mmu_clone_vmmap m junk src = ret (m', v') \<Longrightarrow> grows m m'"
proof -
  assume "mmu_clone_vmmap m junk src = ret (m', v')"
  then obtain m1 v1 where "mmu_create_vmmap m junk = ret (m1, v1)" "clone_tables m1 v1 src (List.product [0..<ENTCNT] [0..<ENTCNT]) = Inr (m', v')"
    unfolding mmu_clone_vmmap_def by (auto simp: bindR_ret)
  then show ?thesis using grows_trans[OF create_grows grows_heap[OF clone_tables_heap]] by blast
qed

lemma kernel_stack_grows: "kernel_stack m = Inr (k, m') \<Longrightarrow> grows m m'"
  by (rule grows_heap) (auto simp: kernel_stack_def bindS_Inr dest!: keeps)

lemma area_create_grows: "vm_area_create m b f x = ret (a, m') \<Longrightarrow> grows m m'"
  by (auto simp: vm_area_create_def bindR_ret split: if_splits intro: grows_kmalloc[rotated])

lemma area_insert_grows: "area_insert (m, v) i a = ret (r, m', v') \<Longrightarrow> grows m m'"
  by (auto simp: area_insert_def bindR_ret intro: grows_kmalloc[rotated])

lemma area_enqueue_grows: "area_enqueue (m, v) a = ret (r, m', v') \<Longrightarrow> grows m m'"
  by (auto simp: area_enqueue_def bindR_ret split: if_splits intro: grows_kmalloc[rotated])

lemma vm_map_alloc_grows: "vm_map_alloc (m, v) sz = ret (r, m', v') \<Longrightarrow> grows m m'"
  by (auto simp: vm_map_alloc_def bindR_ret grows_heap split: prod.splits option.splits if_splits
    dest!: area_create_grows area_insert_grows area_enqueue_grows intro: grows_trans)

lemma area_set_obj_heap: "area_set_obj s n x = Inr s' \<Longrightarrow> fst s' = fst s"
  by (auto simp: area_set_obj_def bindS_Inr)

lemma page_put_heap:
  assumes "page_put s n i ph = Inr s'"
  shows "fst s' = fst s"
proof -
  obtain a where a: "area_at s (Some n) = Inr a" using assms by (auto simp: page_put_def bindS_Inr)
  have u: "page_put s n i ph = (case va_obj a of None \<Rightarrow> Inl BadAccess | Some (InodeVmo p pages ino) \<Rightarrow> Inl Overrun
    | Some (AnonVmo p pages) \<Rightarrow> if p = 0 then Inl BadAccess else if i \<ge> length pages then Inl Overrun
         else area_set_obj s (Some n) (AnonVmo p (pages[i := Some ph])))" by (simp add: page_put_def a)
  obtain p pages where "va_obj a = Some (AnonVmo p pages)" using assms u by (cases "va_obj a"; cases "the (va_obj a)") auto
  then show ?thesis using assms u by (auto split: if_splits dest: area_set_obj_heap)
qed

lemma anon_alloc_loop_heap: "anon_alloc_loop s n base is = Inr s' \<Longrightarrow> mm_heap (fst s') = mm_heap (fst s)"
proof (induction "is" arbitrary: s)
  case (Cons i "is")
  obtain ph m s1 s2 where 1: "mmu_alloc_phys (fst s) = Inr (ph, m)" "page_put (m, snd s) n i ph = Inr s1"
    "mmu_map (fst s1) (snd s1) (add64 (i * PAGE4K) base) ph (PAGE_PR OR PAGE_RW) = Inr s2" "anon_alloc_loop s2 n base is = Inr s'"
    using Cons.prems by (auto simp: bindS_Inr)
  have "mm_heap (fst s2) = mm_heap (fst s1)" using 1(3) mmu_map_heap by (metis prod.collapse)
  then show ?case using Cons.IH[OF 1(4)] alloc_phys_heap[OF 1(1)] page_put_heap[OF 1(2)] by simp
qed simp

lemma anon_grows:
  assumes "vm_map_anon (m, v) 0 sz fx = ret (r, m', v')"
  shows "grows m m'"
proof -
  obtain m1 v1 p m2 q pg m3 where 1: "vm_map_alloc (m, v) sz = ret (r, m1, v1)" "mm_kmalloc m1 sizeof_anon_vmo = ret (p, m2)"
    "pages_alloc m2 sz = ret (q, pg, m3)" "area_set_obj (m3, v1) r (AnonVmo q pg) = Inr (m', v')"
    using assms by (auto simp: vm_map_anon_def alloc_vmarea_def bindR_ret split: if_splits)
  obtain m4 where 2: "mm_kmalloc m2 (mul64 8 sz div PAGE4K) = ret (q, m4)" "m4 = m3" using 1(3) by (auto simp: pages_alloc_def Let_def bindR_ret)
  have "mul64 8 sz div PAGE4K \<le> mul64 8 sz" "mul64 8 sz < 2 ^ 64" by (simp_all add: mul64_def)
  have "(mul64 8 sz div PAGE4K) * PAGE4K \<le> mul64 8 sz" by simp
  then have "mul64 8 sz div PAGE4K \<le> 2 ^ 64 - 32" using \<open>mul64 8 sz < 2 ^ 64\<close> by (simp add: mul64_def)
  from grows_kmalloc[OF this 2(1)] have "grows m2 m3" using 2(2) by simp
  moreover have "grows m1 m2" by (rule grows_kmalloc[OF _ 1(2)]) simp
  moreover have "m' = m3" using area_set_obj_heap[OF 1(4)] by simp
  ultimately show ?thesis using vm_map_alloc_grows[OF 1(1)] grows_trans by blast
qed

lemma signal_stack_grows:
  assumes "signal_stack m v = ret (k, m', v')"
  shows "grows m m'"
proof -
  obtain r m1 v1 b n where 1: "vm_map_anon (m, v) 0 PAGE4K False = ret (r, m1, v1)" "vm_map_anon_alloc (m1, v1) r b n = Inr (m', v')"
    using assms unfolding signal_stack_def by (auto simp: bindR_ret)
  have "mm_heap m' = mm_heap m1" using 1(2) by (auto simp: vm_map_anon_alloc_def Let_def bindS_Inr dest!: anon_alloc_loop_heap)
  then show ?thesis using anon_grows[OF 1(1)] grows_heap grows_trans by blast
qed

lemma kernel_memops_sel:
  "mo_kmalloc (kernel_memops junk) = mm_kmalloc" "mo_clone (kernel_memops junk) m v = mmu_clone_vmmap m junk v"
  "mo_kstack (kernel_memops junk) m = Some (kernel_stack m)" "mo_sigstack (kernel_memops junk) = signal_stack"
  by (simp_all add: kernel_memops_def)

interpretation km: task_memory "kernel_memops junk" "\<lambda>m. fst ` live (mm_heap m)" "\<lambda>m. heap_inv (mm_heap m)" for junk
proof (unfold_locales, unfold kernel_memops_sel)
  show "heap_inv (mm_heap m') \<and> p \<noteq> 0 \<and> p \<notin> fst ` live (mm_heap m) \<and> insert p (fst ` live (mm_heap m)) \<subseteq> fst ` live (mm_heap m')"
    if "heap_inv (mm_heap m)" "0 < n" "n \<le> 2 ^ 64 - 32" "mm_kmalloc m n = ret (p, m')" for m n p m'
    by (rule mm_kmalloc_new[OF that])
  show "heap_inv (mm_heap m') \<and> fst ` live (mm_heap m) \<subseteq> fst ` live (mm_heap m')"
    if "heap_inv (mm_heap m)" "mmu_clone_vmmap m junk v = ret (m', v')" for m v m' v'
    using clone_grows[OF that(2)] that(1) unfolding grows_def by (rule mp)
  show "heap_inv (mm_heap m') \<and> fst ` live (mm_heap m) \<subseteq> fst ` live (mm_heap m')"
    if "heap_inv (mm_heap m)" "Some (kernel_stack m) = ret (k, m')" for m k m'
    using kernel_stack_grows[of m k m'] that unfolding grows_def by blast
  show "heap_inv (mm_heap m') \<and> fst ` live (mm_heap m) \<subseteq> fst ` live (mm_heap m')"
    if "heap_inv (mm_heap m)" "signal_stack m v = ret (k, m', v')" for m v k m' v'
    using signal_stack_grows[OF that(2)] that(1) unfolding grows_def by (rule mp)
qed

subsection \<open>A fork that returns\<close>

text \<open>Copying an address space without user pages.\<close>

lemma clone_tables_bare:
  "\<forall>(i, j) \<in> set ps. vm_pts v i j = 0 \<Longrightarrow> clone_tables m w v ps = Inr (m', w') \<Longrightarrow>
     free_frames m' = free_frames m \<and> free_kpages m' = free_kpages m \<and> vm_areas w' = vm_areas w"
  by (induction m w v ps rule: clone_tables.induct) (fastforce simp: bindS_Inr kstore_def split: if_splits)+

lemma clone_bare:
  assumes mm: "mm_ok m" "vm_ok m v" and z: "\<forall>i<512. \<forall>j<512. vm_pts v i j = 0" and r: "roomy (mm_heap m) (2142472 + r)"
    and f: "514 + n \<le> card (free_frames m)" "516 + n \<le> card (free_kpages m)"
  shows "\<exists>m' w. mmu_clone_vmmap m junk v = ret (m', w) \<and> mm_ok m' \<and> vm_ok m' w \<and> roomy (mm_heap m') r \<and> vm_areas w = kl_create \<and>
    n \<le> card (free_frames m') \<and> n \<le> card (free_kpages m')"
proof -
  have e: "{(i, j). i < 512 \<and> j < 512 \<and> vm_pts v i j \<noteq> 0} = {}" using z by auto
  have "user_frames m v = {}" using z by (auto simp: user_frames_def leaf_def leaf_frame_def)
  then have u: "vm_user_ok m v" by (simp add: vm_user_ok_def)
  obtain m' w where c: "mmu_clone_vmmap m junk v = ret (m', w)" "clone_inv m m' w"
    using mmu_clone_vmmap_spec[OF mm u roomy_mono[OF r], of junk] f unfolding e by auto
  obtain m1 w1 where c1: "mmu_create_vmmap m junk = ret (m1, w1)" "roomy (mm_heap m1) r" "vm_areas w1 = kl_create"
      "card (free_frames m) \<le> card (free_frames m1) + 514" "card (free_kpages m) \<le> card (free_kpages m1) + 514"
    using mmu_create_vmmap_spec[OF mm(1) _ _ r, of junk] f by auto
  have t: "clone_tables m1 w1 v (List.product [0..<ENTCNT] [0..<ENTCNT]) = Inr (m', w)" using c(1) unfolding mmu_clone_vmmap_def c1(1) by simp
  have "\<forall>(i, j) \<in> set (List.product [0..<ENTCNT] [0..<ENTCNT]). vm_pts v i j = 0" using z by (auto simp del: upt_rec_numeral)
  note b = clone_tables_bare[OF this t]
  show ?thesis using c c1 b f clone_tables_heap[OF t] by (auto simp: clone_inv_def)
qed

lemma kernel_stack_ok:
  assumes mm: "mm_ok m" "vm_ok m v" and f: "Suc n \<le> card (free_frames m)" "Suc n \<le> card (free_kpages m)"
  shows "\<exists>k m'. kernel_stack m = Inr (k, m') \<and> mm_ok m' \<and> vm_ok m' v \<and> mm_heap m' = mm_heap m \<and> n \<le> card (free_frames m') \<and> n \<le> card (free_kpages m')"
proof -
  have ne: "free_frames m \<noteq> {}" "free_kpages m \<noteq> {}" using f by auto
  obtain q k m1 m2 where s: "q \<in> free_kpages m" "k \<in> free_frames m" "mmu_kalloc m 1 = Inr (kpage q, m1)" "mmu_alloc_phys m1 = Inr (4096 * k, m2)"
    and m3: "let m3 = mmu_kmap m2 (kpage q) (4096 * k) (PAGE_PR OR PAGE_RW) in kptr m3 (kpage q) k \<and> mm_pres {} m m3 \<and> used m3 k \<and> phys m3 = phys m \<and> mm_heap m3 = mm_heap m \<and>
      free_frames m3 = free_frames m - {k} \<and> free_kpages m3 = free_kpages m - {q}"
    using fresh_page[OF mm(1) ne] by (elim exE conjE) (rule that; assumption)
  define m3 where "m3 = mmu_kmap m2 (kpage q) (4096 * k) (PAGE_PR OR PAGE_RW)"
  have r: "mm_pres {} m m3" "mm_heap m3 = mm_heap m" "free_frames m3 = free_frames m - {k}" "free_kpages m3 = free_kpages m - {q}"
    using m3 unfolding m3_def[symmetric] Let_def by auto
  have "kernel_stack m = Inr (add64 (kpage q) PAGE4K, m3)" using s(3,4) by (simp add: kernel_stack_def m3_def)
  moreover have "n \<le> card (free_frames m3)" "n \<le> card (free_kpages m3)" using f s(1,2) r(3,4) by (simp_all add: card_Diff_singleton)
  ultimately show ?thesis using r vm_ok_pres(1)[OF mm(2) r(1)] by (auto simp: mm_pres_def)
qed

lemma signal_stack_ok:
  assumes mm: "mm_ok m" "vm_ok m v" and v: "vm_areas v = kl_create" and r: "roomy (mm_heap m) (328 + r)"
    and f: "2 \<le> card (free_frames m)" "1 \<le> card (free_kpages m)"
  shows "\<exists>k m' w. signal_stack m v = ret (k, m', w) \<and> roomy (mm_heap m') r"
proof -
  obtain p1 h1 where 1: "mm_kmalloc m 24 = ret (p1, m\<lparr>mm_heap := h1\<rparr>)" "roomy h1 (240 + r)" "p1 \<noteq> 0"
    using mm_kmalloc_roomy[of m 24 "240 + r"] mm_kmalloc_new[OF roomy_inv[OF r], of 24] r by auto
  obtain p2 h2 where 2: "mm_kmalloc (m\<lparr>mm_heap := h1\<rparr>) 24 = ret (p2, m\<lparr>mm_heap := h2\<rparr>)" "roomy h2 (152 + r)" "p2 \<noteq> 0"
    using mm_kmalloc_roomy[of "m\<lparr>mm_heap := h1\<rparr>" 24 "152 + r"] mm_kmalloc_new[of "m\<lparr>mm_heap := h1\<rparr>" 24] roomy_inv[OF 1(2)] 1(2) by auto
  obtain p3 h3 where 3: "mm_kmalloc (m\<lparr>mm_heap := h2\<rparr>) 16 = ret (p3, m\<lparr>mm_heap := h3\<rparr>)" "roomy h3 (72 + r)" "p3 \<noteq> 0"
    using mm_kmalloc_roomy[of "m\<lparr>mm_heap := h2\<rparr>" 16 "72 + r"] mm_kmalloc_new[of "m\<lparr>mm_heap := h2\<rparr>" 16] roomy_inv[OF 2(2)] 2(2) by auto
  obtain p4 h4 where 4: "mm_kmalloc (m\<lparr>mm_heap := h3\<rparr>) 8 = ret (p4, m\<lparr>mm_heap := h4\<rparr>)" "roomy h4 r" "p4 \<noteq> 0"
    using mm_kmalloc_roomy[of "m\<lparr>mm_heap := h3\<rparr>" 8 r] mm_kmalloc_new[of "m\<lparr>mm_heap := h3\<rparr>" 8] roomy_inv[OF 3(2)] 3(2) by auto
  define m4 where "m4 = m\<lparr>mm_heap := h4\<rparr>"
  have ok4: "mm_ok m4" "vm_ok m4 v" "free_frames m4 = free_frames m" "free_kpages m4 = free_kpages m"
    using mm vm_ok_pres(1)[OF mm(2) mm_pres_heap[OF mm(1), of "{}" h4]] by (simp_all add: m4_def)
  define a where "a = \<lparr>va_base = PAGE4K, va_end = 8192, va_obj = Some (AnonVmo p4 [None])\<rparr>"
  define w where "w = v\<lparr>vm_areas := \<lparr>kl_items = [a], kl_size = 1\<rparr>\<rparr>"
  define w' where "w' x = v\<lparr>vm_areas := \<lparr>kl_items = [a\<lparr>va_obj := Some (AnonVmo p4 [Some x])\<rparr>], kl_size = 1\<rparr>\<rparr>" for x
  have an: "vm_map_anon (m, v) 0 PAGE4K False = ret (Some 0, m4, w)"
    using 1 2 3 4 v
    by (simp add: vm_map_anon_def alloc_vmarea_def vm_map_alloc_def vm_area_create_def area_enqueue_def pages_alloc_def kl_create_def kl_enqueue_def
      add64_def mul64_def area_set_obj_def area_at_def kl_get_def m4_def a_def w_def)
  obtain k m5 where 5: "mmu_alloc_phys m4 = Inr (4096 * k, m5)" "mm_pres {} m4 m5" "k \<in> free_frames m4" "free_frames m5 = free_frames m4 - {k}" "free_kpages m5 = free_kpages m4"
    "mm_heap m5 = mm_heap m4" using alloc_step[OF ok4(1)] f ok4(3) by force
  have "vm_ok m5 v" using vm_ok_pres(1)[OF ok4(2) 5(2)] by simp
  then have ok5: "mm_ok m5" "vm_ok m5 (w' (4096 * k))" using 5(2) by (simp_all add: mm_pres_def w'_def)
  have "card (free_frames m5) \<noteq> 0" using 5(3-5) ok4(3,4) f by (simp add: card_Diff_singleton)
  then have "free_frames m5 \<noteq> {}" by auto
  moreover have "free_kpages m5 \<noteq> {}" using 5(5) ok4(4) f(2) by auto
  ultimately obtain m6 w6 where 6: "mmu_map m5 (w' (4096 * k)) PAGE4K (4096 * k) (PAGE_PR OR PAGE_RW) = Inr (m6, w6)" "mm_heap m6 = mm_heap m5"
    using mmu_map_spec[OF ok5] by metis
  have pp: "page_put (m5, w) 0 0 (4096 * k) = Inr (m5, w' (4096 * k))"
    using 4(3) by (simp add: page_put_def area_at_def kl_get_def w_def a_def area_set_obj_def w'_def)
  have "anon_alloc_loop (m4, w) 0 PAGE4K [0] = Inr (m6, w6)" using 5(1) pp 6(1) by (simp add: add64_def)
  then have "vm_map_anon_alloc (m4, w) (Some 0) PAGE4K (sub64 8192 PAGE4K) = Inr (m6, w6)"
    by (simp add: vm_map_anon_alloc_def area_at_def kl_get_def w_def a_def sub64_def add64_def)
  moreover have "area_at (m4, w) (Some 0) = Inr a" by (simp add: area_at_def kl_get_def w_def)
  ultimately have "signal_stack m v = ret (8192, m6, w6)" using an by (simp add: signal_stack_def a_def)
  then show ?thesis using 4(2) 5(6) 6(2) by (auto simp: m4_def)
qed

text \<open>A task with one thread and an address space without pages.\<close>

definition fork_task :: "vm_map \<Rightarrow> addr \<Rightarrow> vm_map task" where
  "fork_task v q = (fresh_task 1 0 v)\<lparr>t_main := q, t_threads := kl_enqueue kl_create q\<rparr>"

definition fork_thread :: "regs \<Rightarrow> addr \<Rightarrow> thread" where
  "fork_thread r p = (demo_thread THREAD_RUNNING p)\<lparr>th_sysregs := r\<rparr>"

definition fork_kst :: "regs \<Rightarrow> mm \<Rightarrow> vm_map \<Rightarrow> addr \<Rightarrow> addr \<Rightarrow> (mm, vm_map, nat) kst" where
  "fork_kst r m v p q = \<lparr>ks_mem = m, ks_vfs = pr_vfs tree_proc, ks_files = (\<lambda>_. None), ks_gids = (\<lambda>_. None),
     ks_tasks = [p \<mapsto> fork_task v q], ks_threads = [q \<mapsto> fork_thread r p], ks_list = kl_enqueue kl_create p,
     ks_ready = kl_create, ks_pid = 2, ks_up = True, ks_curr = q, ks_idle = 0, ks_rsp0 = 0, ks_cpu = (\<lambda>_. 0)\<rparr>"

lemma clone_fds_none: "clone_fds mo s (\<lambda>_. 0) p is = ret s"
  by (induction "is") auto

lemma mktask_ok:
  assumes "roomy (mm_heap (ks_mem s)) (3440 + r)" "ks_tasks s par = Some t" "par \<noteq> 0"
  shows "\<exists>p h s1. mktask (kernel_memops junk) s par v = ret (p, s1) \<and> ks_mem s1 = (ks_mem s)\<lparr>mm_heap := h\<rparr> \<and> roomy h r"
proof -
  obtain p h1 where 1: "mm_kmalloc (ks_mem s) sizeof_task = ret (p, (ks_mem s)\<lparr>mm_heap := h1\<rparr>)" "roomy h1 (2112 + r)" "p \<noteq> 0"
    using mm_kmalloc_roomy[of "ks_mem s" 1264 "2112 + r"] mm_kmalloc_new[OF roomy_inv[OF assms(1)], of 1264] assms(1) by auto
  obtain q h2 where 2: "mm_kmalloc ((ks_mem s)\<lparr>mm_heap := h1\<rparr>) (8 * FD_MAX) = ret (q, (ks_mem s)\<lparr>mm_heap := h2\<rparr>)" "roomy h2 r" "q \<noteq> 0"
    using mm_kmalloc_roomy[of "(ks_mem s)\<lparr>mm_heap := h1\<rparr>" "8 * FD_MAX" r] mm_kmalloc_new[of "(ks_mem s)\<lparr>mm_heap := h1\<rparr>" "8 * FD_MAX"]
      roomy_inv[OF 1(2)] 1(2) by auto
  let ?T = "(ks_tasks s)(p \<mapsto> fresh_task (s32 (ks_pid s)) par v)"
  obtain t' where t': "?T par = Some t'" using assms(2) by (cases "p = par") auto
  define s1 where "s1 = s\<lparr>ks_mem := (ks_mem s)\<lparr>mm_heap := h2\<rparr>, ks_pid := add32 (ks_pid s) 1,
      ks_tasks := ?T(par \<mapsto> t'\<lparr>t_children := kl_enqueue (t_children t') p\<rparr>)\<rparr>"
  have "mktask (kernel_memops junk) s par v = ret (p, s1)"
    using 1 2 assms(3) t' by (simp add: mktask_def Let_def set_task_def kernel_memops_sel load_def s1_def)
  moreover have "ks_mem s1 = (ks_mem s)\<lparr>mm_heap := h2\<rparr>" by (simp add: s1_def)
  ultimately show ?thesis using 2(2) by blast
qed

lemma thread_clone_ok:
  assumes t: "ks_tasks s task = Some t" "ks_threads s src = Some th" and mm: "mm_ok (ks_mem s)" "vm_ok (ks_mem s) (t_vm t)" "vm_areas (t_vm t) = kl_create"
    and r: "roomy (mm_heap (ks_mem s)) 776" and f: "3 \<le> card (free_frames (ks_mem s))" "3 \<le> card (free_kpages (ks_mem s))"
  shows "\<exists>q s1. thread_clone (kernel_memops junk) s task src = ret (q, s1)"
proof -
  obtain q h where 1: "mm_kmalloc (ks_mem s) sizeof_thread = ret (q, (ks_mem s)\<lparr>mm_heap := h\<rparr>)" "roomy h 328" "q \<noteq> 0"
    using mm_kmalloc_roomy[of "ks_mem s" 384 328] mm_kmalloc_new[OF roomy_inv[OF r], of 384] r by auto
  let ?m = "(ks_mem s)\<lparr>mm_heap := h\<rparr>"
  have mm1: "mm_ok ?m" "vm_ok ?m (t_vm t)" "Suc 2 \<le> card (free_frames ?m)" "Suc 2 \<le> card (free_kpages ?m)"
    using vm_ok_pres(1)[OF mm(2) mm_pres_heap[OF mm(1), of "{}" h]] mm(1) f by simp_all
  obtain k m2 where 2: "kernel_stack ?m = Inr (k, m2)" "mm_ok m2" "vm_ok m2 (t_vm t)" "mm_heap m2 = h" "2 \<le> card (free_frames m2)" "2 \<le> card (free_kpages m2)"
    using kernel_stack_ok[OF mm1] by auto
  obtain x m3 w where 3: "signal_stack m2 (t_vm t) = ret (x, m3, w)" using signal_stack_ok[OF 2(2,3) mm(3), of 0] 1(2) 2(4-6) by auto
  show ?thesis using t 1 2(1) 3
    by (auto simp: thread_clone_def new_thread_def init_thread_meta_def kernel_memops_sel set_task_def set_thread_def)
qed

lemma boot_fork:
  "\<exists>m0 m v p q pid s'. mmu_create_vmmap boot_mm no_map = ret (m0, v) \<and> p \<noteq> 0 \<and> q \<noteq> 0 \<and>
     objs_ok (\<lambda>m. fst ` live (mm_heap m)) (\<lambda>m. heap_inv (mm_heap m)) (fork_kst r m v p q) \<and> sys_fork (kernel_memops no_map) (fork_kst r m v p q) = ret (pid, s')"
proof -
  obtain m0 v where c: "mmu_create_vmmap boot_mm no_map = ret (m0, v)" "vm_part boot_mm 512 m0 v" "roomy (mm_heap m0) 30000000"
      "1000000 \<le> card (free_frames m0)" "200000 \<le> card (free_kpages m0)"
    using boot_create by blast
  obtain p h1 where 1: "mm_kmalloc m0 1264 = ret (p, m0\<lparr>mm_heap := h1\<rparr>)" "roomy h1 20000000" "p \<noteq> 0" "p \<in> fst ` live h1"
    using mm_kmalloc_roomy[of m0 1264 "20000000"] mm_kmalloc_new[OF roomy_inv[OF c(3)], of 1264] roomy_mono[OF c(3), of 20001328] by auto
  obtain q h2 where 2: "mm_kmalloc (m0\<lparr>mm_heap := h1\<rparr>) 384 = ret (q, m0\<lparr>mm_heap := h2\<rparr>)" "roomy h2 10000000" "q \<noteq> 0" "q \<notin> fst ` live h1" "insert q (fst ` live h1) \<subseteq> fst ` live h2"
    using mm_kmalloc_roomy[of "m0\<lparr>mm_heap := h1\<rparr>" 384 "10000000"] mm_kmalloc_new[of "m0\<lparr>mm_heap := h1\<rparr>" 384] roomy_inv[OF 1(2)] roomy_mono[OF 1(2), of 10000448] by auto
  define m where "m = m0\<lparr>mm_heap := h2\<rparr>"
  have mm: "mm_ok m" "vm_ok m v" using c(2) vm_ok_pres(1)[OF vm_part_ok(1)[OF c(2)] mm_pres_heap, of "{}" h2] by (simp_all add: m_def vm_part_def)
  have z: "\<forall>i<512. \<forall>j<512. vm_pts v i j = 0" using c(2) by (simp add: vm_part_def)
  obtain m1 w where 3: "mmu_clone_vmmap m no_map v = ret (m1, w)" "mm_ok m1" "vm_ok m1 w" "roomy (mm_heap m1) 100000" "vm_areas w = kl_create"
     "10 \<le> card (free_frames m1)" "10 \<le> card (free_kpages m1)"
    using clone_bare[OF mm z, of 100000 10 no_map] roomy_mono[OF 2(2), of 2242472] c(4,5) by (auto simp: m_def)
  define s where "s = fork_kst r m v p q"
  have ok: "objs_ok (\<lambda>m. fst ` live (mm_heap m)) (\<lambda>m. heap_inv (mm_heap m)) s"
    using roomy_inv[OF 2(2)] 1(4) 2(5) by (auto simp: objs_ok_def fork_kst_def m_def s_def)
  have t: "ks_tasks s p = Some (fork_task v q)" "ks_threads s q = Some (fork_thread r p)" "ks_curr s = q" "ks_mem s = m" by (simp_all add: s_def fork_kst_def)
  have cl: "mo_clone (kernel_memops no_map) (ks_mem s) (t_vm (fork_task v q)) = ret (m1, w)"
    using 3(1) by (simp add: kernel_memops_sel t fork_task_def fresh_task_def)
  obtain p' h s2 where s2: "mktask (kernel_memops no_map) (s\<lparr>ks_mem := m1\<rparr>) p w = ret (p', s2)" "ks_mem s2 = m1\<lparr>mm_heap := h\<rparr>" "roomy h 90000"
    using mktask_ok[of "s\<lparr>ks_mem := m1\<rparr>" 90000 p "fork_task v q" no_map w] roomy_mono[OF 3(4), of 93440] t(1) 1(3) by auto
  have ok1: "objs_ok (\<lambda>m. fst ` live (mm_heap m)) (\<lambda>m. heap_inv (mm_heap m)) (s\<lparr>ks_mem := m1\<rparr>)"
    by (rule objs_ok_step[OF ok]) (use clone_grows[OF 3(1)] roomy_inv[OF 2(2)] in \<open>auto simp: grows_def t m_def\<close>)
  have p': "p' \<noteq> p" using km.mktask_spec[OF ok1 _ 1(3) s2(1), of "fork_task v q"] t(1) objs_okD[OF ok1, of p'] by auto
  have "\<exists>m2. s2 = s\<lparr>ks_mem := m2, ks_pid := add32 (ks_pid s) 1,
      ks_tasks := (ks_tasks s)(p' \<mapsto> fresh_task (s32 (ks_pid s)) p w, p \<mapsto> (fork_task v q)\<lparr>t_children := kl_enqueue (t_children (fork_task v q)) p'\<rparr>)\<rparr>"
    using km.mktask_spec[OF ok1 _ 1(3) s2(1), of "fork_task v q"] t(1) by auto
  then obtain m2 where s2e: "s2 = s\<lparr>ks_mem := m2, ks_pid := add32 (ks_pid s) 1,
      ks_tasks := (ks_tasks s)(p' \<mapsto> fresh_task (s32 (ks_pid s)) p w, p \<mapsto> (fork_task v q)\<lparr>t_children := kl_enqueue (t_children (fork_task v q)) p'\<rparr>)\<rparr>" by blast
  have t2: "ks_tasks s2 p' = Some (fresh_task (s32 (ks_pid s)) p w)" "ks_threads s2 q = Some (fork_thread r p)" using t(2) p' by (simp_all add: s2e)
  have v2: "t_vm (fresh_task (s32 (ks_pid s)) p w) = w" by (simp add: fresh_task_def)
  have "vm_ok (ks_mem s2) w" using vm_ok_pres(1)[OF 3(3) mm_pres_heap[OF 3(2)], of "{}" h] by (simp add: s2(2))
  then obtain q' s3 where s3: "thread_clone (kernel_memops no_map) s2 p' q = ret (q', s3)"
    using thread_clone_ok[OF t2, of no_map] 3 s2(2) roomy_mono[OF s2(3), of 776] unfolding v2 by auto
  obtain m3 k fin w' where s3e: "s3 = s\<lparr>ks_mem := m3, ks_pid := add32 (ks_pid s) 1,
      ks_tasks := (ks_tasks s)(p' \<mapsto> (fresh_task (s32 (ks_pid s)) p w)\<lparr>t_vm := w'\<rparr>, p \<mapsto> (fork_task v q)\<lparr>t_children := kl_enqueue (t_children (fork_task v q)) p'\<rparr>),
      ks_threads := (ks_threads s)(q' \<mapsto> (fork_thread r p)\<lparr>th_task := p', th_state := THREAD_READY, th_kstack := k,
         th_sigqueue := kl_create, th_sigmask := 0, th_sigstack := fin\<rparr>)\<rparr>"
    using km.clone_begin_spec[OF ok t(1) 1(3) t(2) cl s2(1) s3] by blast
  have fk: "t_fds (fork_task v q) = (\<lambda>_. 0)" "t_groupcnt (fork_task v q) = 0" by (simp_all add: fork_task_def fresh_task_def)
  have ne: "ks_tasks s3 p' \<noteq> None" "ks_threads s3 q' \<noteq> None" using p' by (simp_all add: s3e)
  have "\<exists>s4. task_clone (kernel_memops no_map) s p q = ret (p', s4) \<and> (\<exists>c. ks_tasks s4 p' = Some c \<and> kl_items (t_threads c) = [q']) \<and> ks_threads s4 q' \<noteq> None"
    using cl s2(1) s3 p' t(1) unfolding task_clone_def
    by (simp add: fk clone_fds_none clone_groups_def set_task_def s3e kl_enqueue_def kl_create_def fresh_task_def)
  then obtain s4 ct th4 where s4: "task_clone (kernel_memops no_map) s p q = ret (p', s4)" "ks_tasks s4 p' = Some ct" "kl_items (t_threads ct) = [q']" "ks_threads s4 q' = Some th4" by blast
  have "th_task (fork_thread r p) = p" by (simp add: fork_thread_def demo_thread_def)
  then have "\<exists>pid s'. sys_fork (kernel_memops no_map) s = ret (pid, s')"
    using s4 t 2(3) by (simp add: sys_fork_def task_curr_def kl_get_def set_thread_def sched_start_def sched_spawnthread_def)
  then show ?thesis using c(1) 1(3) 2(3) ok unfolding s_def by blast
qed

text \<open>
  C13: \<^verbatim>\<open>fork\<close> makes exactly one task and one thread. The task gets the next process identifier, is
  the last child of the caller, shares the caller's identity, groups, directory and signal actions,
  and has its own copy of every open file; its thread is ready, at the end of the queue, and resumes
  with the registers of the call and result 0. Every other task, thread and open file is unchanged.
\<close>

theorem fork_child:
  assumes "objs_ok (\<lambda>m. fst ` live (mm_heap m)) (\<lambda>m. heap_inv (mm_heap m)) s"
    and "ks_curr s \<noteq> 0" "ks_threads s (ks_curr s) = Some th"
    and "ks_tasks s (th_task th) = Some t" "th_task th \<noteq> 0" "t_groupcnt t < 2 ^ 32"
    and "\<forall>i. t_fds t i \<noteq> 0 \<longrightarrow> t_fds t i \<in> dom (ks_files s)"
    and "sys_fork (kernel_memops junk) s = ret (pid, s')"
  shows "\<exists>p q ct cth. pid = s32 (ks_pid s) \<and> ks_tasks s p = None \<and> ks_threads s q = None \<and>
    ks_tasks s' = (ks_tasks s)(p \<mapsto> ct, th_task th \<mapsto> t\<lparr>t_children := kl_enqueue (t_children t) p\<rparr>) \<and>
    ks_threads s' = (ks_threads s)(q \<mapsto> cth) \<and> forked s t (th_task th) pid q (ks_files s') (ks_gids s') ct \<and>
    th_task cth = p \<and> th_state cth = THREAD_READY \<and> th_regs cth = (th_sysregs th)(RAX := 0) \<and>
    ks_list s' = kl_enqueue (ks_list s) p \<and> ks_ready s' = kl_enqueue (ks_ready s) q \<and> ks_curr s' = ks_curr s \<and>
    (\<forall>a \<in> dom (ks_files s). ks_files s' a = ks_files s a) \<and>
    objs_ok (\<lambda>m. fst ` live (mm_heap m)) (\<lambda>m. heap_inv (mm_heap m)) s'"
  by (rule km.fork_spec[OF assms])

theorem fork_child_witness:
  "\<exists>m v p q s' q' cth. sys_fork (kernel_memops no_map) (fork_kst (\<lambda>_. 0) m v p q) = ret (2, s') \<and>
     kl_items (ks_ready s') = [q'] \<and> ks_threads s' q' = Some cth \<and> th_regs cth RAX = 0 \<and> length (kl_items (ks_list s')) = 2"
proof -
  obtain m v p q pid s' where h: "p \<noteq> 0" "q \<noteq> 0" "objs_ok (\<lambda>m. fst ` live (mm_heap m)) (\<lambda>m. heap_inv (mm_heap m)) (fork_kst (\<lambda>_. 0) m v p q)"
      "sys_fork (kernel_memops no_map) (fork_kst (\<lambda>_. 0) m v p q) = ret (pid, s')" using boot_fork[of "\<lambda>_. 0"] by blast
  have s: "ks_curr (fork_kst (\<lambda>_. 0) m v p q) \<noteq> 0" "ks_threads (fork_kst (\<lambda>_. 0) m v p q) (ks_curr (fork_kst (\<lambda>_. 0) m v p q)) = Some (fork_thread (\<lambda>_. 0) p)"
    "ks_tasks (fork_kst (\<lambda>_. 0) m v p q) (th_task (fork_thread (\<lambda>_. 0) p)) = Some (fork_task v q)" "th_task (fork_thread (\<lambda>_. 0) p) \<noteq> 0"
    "t_groupcnt (fork_task v q) < 2 ^ 32" "\<forall>i. t_fds (fork_task v q) i \<noteq> 0 \<longrightarrow> t_fds (fork_task v q) i \<in> dom (ks_files (fork_kst (\<lambda>_. 0) m v p q))"
    using h(1,2) by (simp_all add: fork_kst_def fork_thread_def demo_thread_def fork_task_def fresh_task_def)
  obtain p' q' ct cth where r: "pid = s32 (ks_pid (fork_kst (\<lambda>_. 0) m v p q))" "ks_threads s' = (ks_threads (fork_kst (\<lambda>_. 0) m v p q))(q' \<mapsto> cth)"
    "th_regs cth = (th_sysregs (fork_thread (\<lambda>_. 0) p))(RAX := 0)" "ks_list s' = kl_enqueue (ks_list (fork_kst (\<lambda>_. 0) m v p q)) p'"
    "ks_ready s' = kl_enqueue (ks_ready (fork_kst (\<lambda>_. 0) m v p q)) q'"
    using fork_child[OF h(3) s h(4)] by (elim exE conjE) (rule that; assumption)
  have "pid = 2" "kl_items (ks_ready s') = [q']" "ks_threads s' q' = Some cth" "th_regs cth RAX = 0" "length (kl_items (ks_list s')) = 2"
    using r by (simp_all add: fork_kst_def kl_enqueue_def kl_create_def s32_def)
  then show ?thesis using h(4) by blast
qed

end
