(* ===== verification/Syscalls.thy ===== *)
theory Syscalls
  imports Fork
begin

text \<open>
  The calls of \<^verbatim>\<open>kernel/kern/sys.c\<close>: identities, groups, process groups and sessions, and the gate
  \<open>syscall_handler\<close> through which every program enters the kernel. The lemmas show that identities are
  never regained, what is wrong with \<open>setgroups\<close>, and that a fork through the gate returns twice.
\<close>

unbundle bit_operations_syntax

subsection \<open>Identity and groups\<close>

definition curr_task :: "('m, 'v, 'w) kst \<Rightarrow> (addr \<times> 'v task) res" where
  "curr_task s = bindS (task_curr s) (\<lambda>me. bindS (load (ks_tasks s) me) (\<lambda>t. Inr (me, t)))"

definition sys_getpid :: "('m, 'v, 'w) kst \<Rightarrow> int res" where
  "sys_getpid s = bindS (curr_task s) (\<lambda>(_, t). Inr (t_pid t))"

definition sys_getuid :: "('m, 'v, 'w) kst \<Rightarrow> int res" where
  "sys_getuid s = bindS (curr_task s) (\<lambda>(_, t). Inr (int (t_ruid t)))"

definition sys_geteuid :: "('m, 'v, 'w) kst \<Rightarrow> int res" where
  "sys_geteuid s = bindS (curr_task s) (\<lambda>(_, t). Inr (int (t_euid t)))"

definition sys_getgid :: "('m, 'v, 'w) kst \<Rightarrow> int res" where
  "sys_getgid s = bindS (curr_task s) (\<lambda>(_, t). Inr (int (t_rgid t)))"

definition sys_getegid :: "('m, 'v, 'w) kst \<Rightarrow> int res" where
  "sys_getegid s = bindS (curr_task s) (\<lambda>(_, t). Inr (int (t_egid t)))"

definition sys_getppid :: "('m, 'v, 'w) kst \<Rightarrow> int res" where
  "sys_getppid s = bindS (curr_task s) (\<lambda>(_, t). bindS (load (ks_tasks s) (t_parent t)) (\<lambda>p. Inr (t_pid p)))"

definition sys_getpgid :: "('m, 'v, 'w) kst \<Rightarrow> int \<Rightarrow> int res" where
  "sys_getpgid s pid =
     bindS (if pid \<noteq> 0 then sched_task_fromid s pid else task_curr s) (\<lambda>p.
       if p = 0 then Inr (- ESRCH) else bindS (load (ks_tasks s) p) (\<lambda>t. Inr (t_pgid t)))"

definition sys_setpgid :: "('m, 'v, 'w) kst \<Rightarrow> int \<Rightarrow> int \<Rightarrow> (int \<times> ('m, 'v, 'w) kst) res" where
  "sys_setpgid s pid pgid =
     (if pgid < 0 then Inr (- EINVAL, s)
      else
        bindS (if pid = 0 then bindS (curr_task s) (\<lambda>(_, t). Inr (t_pid t)) else Inr pid) (\<lambda>pid.
        bindS (sched_task_fromid s pid) (\<lambda>p.
          if p = 0 then Inr (- ESRCH, s)
          else
            bindS (load (ks_tasks s) p) (\<lambda>t.
            bindS (task_curr s) (\<lambda>me.
              if p \<noteq> me \<and> t_parent t \<noteq> me then Inr (- ESRCH, s)
              else if t_sid t = t_pid t then Inr (- EPERM, s)
              else
                bindS (set_task s p (t_pgid_update (\<lambda>_. if pgid = 0 then pid else pgid))) (\<lambda>s. Inr (0, s)))))))"

definition sys_getsid :: "('m, 'v, 'w) kst \<Rightarrow> int \<Rightarrow> int res" where
  "sys_getsid s pid =
     bindS (sched_task_fromid s pid) (\<lambda>p.
       if p = 0 then Inr (- ESRCH) else bindS (load (ks_tasks s) p) (\<lambda>t. Inr (t_sid t)))"

definition sys_setsid :: "('m, 'v, 'w) kst \<Rightarrow> (int \<times> ('m, 'v, 'w) kst) res" where
  "sys_setsid s =
     bindS (curr_task s) (\<lambda>(me, t).
       if t_pgid t = t_pid t then Inr (- EPERM, s)
       else bindS (set_task s me (\<lambda>t. t\<lparr>t_sid := t_pid t, t_pgid := t_pid t\<rparr>)) (\<lambda>s. Inr (t_pid t, s)))"

abbreviation (input) NOID :: nat where "NOID \<equiv> 0xffffffff"

definition sys_setreuid :: "('m, 'v, 'w) kst \<Rightarrow> nat \<Rightarrow> nat \<Rightarrow> (int \<times> ('m, 'v, 'w) kst) res" where
  "sys_setreuid s ruid eu =
     bindS (curr_task s) (\<lambda>(me, t).
       if ruid \<noteq> NOID \<and> t_euid t \<noteq> 0 then Inr (- EPERM, s)
       else
         bindS (if ruid \<noteq> NOID then set_task s me (t_ruid_update (\<lambda>_. ruid)) else Inr s) (\<lambda>s.
           if eu \<noteq> NOID then
             if t_euid t \<noteq> 0 then Inr (- EPERM, s)
             else bindS (set_task s me (t_euid_update (\<lambda>_. eu))) (\<lambda>s. Inr (0, s))
           else Inr (0, s)))"

definition sys_setregid :: "('m, 'v, 'w) kst \<Rightarrow> nat \<Rightarrow> nat \<Rightarrow> (int \<times> ('m, 'v, 'w) kst) res" where
  "sys_setregid s rgid eg =
     bindS (curr_task s) (\<lambda>(me, t).
       if rgid \<noteq> NOID \<and> t_egid t \<noteq> 0 then Inr (- EPERM, s)
       else
         bindS (if rgid \<noteq> NOID then set_task s me (t_rgid_update (\<lambda>_. rgid)) else Inr s) (\<lambda>s.
           if eg \<noteq> NOID then
             if t_egid t \<noteq> 0 then Inr (- EPERM, s)
             else bindS (set_task s me (t_egid_update (\<lambda>_. eg))) (\<lambda>s. Inr (0, s))
           else Inr (0, s)))"

definition sys_setuid :: "('m, 'v, 'w) kst \<Rightarrow> nat \<Rightarrow> (int \<times> ('m, 'v, 'w) kst) res" where
  "sys_setuid s uid = bindS (sys_setreuid s NOID uid) (\<lambda>(_, s). Inr (0, s))"

definition sys_setgid :: "('m, 'v, 'w) kst \<Rightarrow> nat \<Rightarrow> (int \<times> ('m, 'v, 'w) kst) res" where
  "sys_setgid s gid = bindS (sys_setregid s NOID gid) (\<lambda>(_, s). Inr (0, s))"

text \<open>The second component is what is stored in the array of the caller.\<close>

definition sys_getgroups :: "('m, 'v, 'w) kst \<Rightarrow> int \<Rightarrow> unit uptr \<Rightarrow> (int \<times> nat list option) res" where
  "sys_getgroups s sz lst =
     (if lst = Null \<or> lst = Unmapped then Inr (- EFAULT, None)
      else if sz < 0 then Inr (- EINVAL, None)
      else
        bindS (curr_task s) (\<lambda>(_, t).
          if t_groupcnt t > nat sz then Inr (- EINVAL, None)
          else if t_groupcnt t = 0 then Inr (0, Some [])
          else
            bindS (load (ks_gids s) (t_groups t)) (\<lambda>gs.
              if length gs < t_groupcnt t then Inl BadAccess
              else Inr (int (t_groupcnt t), Some (take (t_groupcnt t) gs)))))"

text \<open>
  The copy loop of \<open>setgroups\<close>: \<open>f\<close> is the array of the caller, undefined where it is not mapped,
  \<open>gs\<close> the new block at \<open>p\<close>. \<open>False\<close> is the return with an error in the middle.
\<close>

fun copy_gids :: "addr \<Rightarrow> (nat \<rightharpoonup> nat) \<Rightarrow> nat \<Rightarrow> nat \<Rightarrow> nat list \<Rightarrow> (bool \<times> nat list) res" where
  "copy_gids p f i 0 gs = Inr (True, gs)"
| "copy_gids p f i (Suc n) gs =
     (case f i of
        None \<Rightarrow> Inr (False, gs)
      | Some g \<Rightarrow>
          if p = 0 then Inl BadAccess
          else if i \<ge> length gs then Inl Overrun
          else copy_gids p f (i + 1) n (gs[i := g]))"

text \<open>\<open>junk\<close> is what the new block holds before the copy.\<close>

definition sys_setgroups :: "('m, 'v) memops \<Rightarrow> (nat \<Rightarrow> nat) \<Rightarrow> ('m, 'v, 'w) kst \<Rightarrow> nat \<Rightarrow> (nat \<rightharpoonup> nat) uptr \<Rightarrow> (int \<times> ('m, 'v, 'w) kst) run" where
  "sys_setgroups mo junk s sz lst =
     bindR (Some (curr_task s)) (\<lambda>(me, t).
     bindR (mo_kfree mo (ks_mem s) (t_groups t)) (\<lambda>m.
     bindR (Some (set_task (s\<lparr>ks_mem := m, ks_gids := (ks_gids s)(t_groups t := None)\<rparr>) me (t_groupcnt_update (\<lambda>_. sz)))) (\<lambda>s.
     if lst = Null then ret (0, s)
     else
       bindR (mo_kmalloc mo (ks_mem s) (mul64 sz 4)) (\<lambda>(p, m).
       bindR (Some (set_task (s\<lparr>ks_mem := m\<rparr>) me (t_groups_update (\<lambda>_. p)))) (\<lambda>s.
       let gs = map junk [0..<mul64 sz 4 div 4] in
       case lst of
         Mapped f \<Rightarrow>
           bindR (Some (if f 0 = None then Inr (False, gs) else copy_gids p f 0 sz gs)) (\<lambda>(ok, gs).
             ret (if ok then 0 else - EFAULT, if p = 0 then s else s\<lparr>ks_gids := (ks_gids s)(p \<mapsto> gs)\<rparr>))
       | _ \<Rightarrow> ret (- EFAULT, if p = 0 then s else s\<lparr>ks_gids := (ks_gids s)(p \<mapsto> gs)\<rparr>))))))"

definition sys_umask :: "('m, 'v, 'w) kst \<Rightarrow> nat \<Rightarrow> (int \<times> ('m, 'v, 'w) kst) res" where
  "sys_umask s um =
     bindS (curr_task s) (\<lambda>(me, t). bindS (set_task s me (t_umask_update (\<lambda>_. um))) (\<lambda>s. Inr (int (t_umask t), s)))"

text \<open>\<open>uname\<close> and \<open>set_tid_address\<close> store through the pointer of the caller without a check.\<close>

definition sys_uname :: "unit uptr \<Rightarrow> (int \<times> string list) res" where
  "sys_uname buf =
     (if buf = Mapped () then Inr (0, [''Micro'', ''0.0.1'', ''INITIAL VERSION'', ''x86_64'', ''micro'']) else Inl BadAccess)"

definition sys_prctl :: "int \<Rightarrow> nat \<Rightarrow> nat \<Rightarrow> nat \<Rightarrow> nat \<Rightarrow> int" where
  "sys_prctl opt a2 a3 a4 a5 = 0"

definition sys_gettid :: "('m, 'v, 'w) kst \<Rightarrow> int res" where
  "sys_gettid s = bindS (curr_task s) (\<lambda>(_, t). Inr (t_pid t))"

definition sys_set_tid_address :: "('m, 'v, 'w) kst \<Rightarrow> unit uptr \<Rightarrow> (int \<times> int) res" where
  "sys_set_tid_address s tidptr =
     (if tidptr = Mapped () then bindS (curr_task s) (\<lambda>(_, t). Inr (t_pid t, 0)) else Inl BadAccess)"

definition sys_exit_group :: "('m, 'v) memops \<Rightarrow> ('m, 'v, 'w) kst \<Rightarrow> nat \<Rightarrow> ('m, 'v, 'w) kst run" where
  "sys_exit_group mo s status = sys_exit mo s status"

subsection \<open>The system call gate\<close>

definition syscalls :: "(nat \<times> string) list" where
  "syscalls = [
     (2, ''open''), (3, ''close''), (0, ''read''), (1, ''write''), (57, ''fork''), (59, ''execve''),
     (60, ''exit''), (62, ''kill''), (39, ''getpid''), (21, ''access''), (8, ''lseek''), (9, ''mmap''),
     (11, ''munmap''), (80, ''chdir''), (79, ''getcwd''), (217, ''getdents''), (83, ''mkdir''), (16, ''ioctl''),
     (201, ''time''), (32, ''dup''), (33, ''dup2''), (175, ''init_module''), (313, ''finit_module''), (176, ''delete_module''),
     (165, ''mount''), (166, ''umount''), (17, ''pread''), (18, ''pwrite''), (96, ''gettimeofday''), (101, ''ptrace''),
     (4, ''stat''), (5, ''fstat''), (6, ''lstat''), (87, ''unlink''), (90, ''chmod''), (113, ''setreuid''),
     (92, ''chown''), (89, ''readlink''), (102, ''getuid''), (107, ''geteuid''), (104, ''getgid''), (108, ''getegid''),
     (115, ''getgroups''), (116, ''setgroups''), (114, ''setregid''), (88, ''symlink''), (86, ''link''), (13, ''sigaction''),
     (15, ''sigreturn''), (14, ''sigprocmask''), (95, ''umask''), (22, ''pipe''), (82, ''rename''), (84, ''rmdir''),
     (169, ''reboot''), (63, ''uname''), (110, ''getppid''), (91, ''fchmod''), (133, ''mknod''), (105, ''setuid''),
     (106, ''setgid''), (72, ''fcntl''), (132, ''utime''), (235, ''utimes''), (121, ''getpgid''), (109, ''setpgid''),
     (124, ''getsid''), (112, ''setsid''), (158, ''prctl''), (61, ''wait4''), (186, ''gettid''), (19, ''readv''),
     (20, ''writev''), (200, ''tkill''), (12, ''brk''), (10, ''mprotect''), (218, ''set_tid_address''), (231, ''exit_group''),
     (41, ''socket''), (49, ''bind''), (43, ''accept''), (93, ''fchown''), (94, ''lchown'')]"

text \<open>
  \<open>sc\<close> runs the routine of the given name on the registers of the caller. A call that gives up the
  processor and is resumed later returns through the same end.
\<close>

definition syscall_handler :: "(string \<Rightarrow> regs \<Rightarrow> ('m, 'v, 'w) kst \<Rightarrow> (int \<times> ('m, 'v, 'w) kst) run) \<Rightarrow> ('m, 'v, 'w) kst \<Rightarrow> regs \<Rightarrow> (regs \<times> ('m, 'v, 'w) kst) run" where
  "syscall_handler sc s r =
     (case map_of syscalls (r RAX) of
        None \<Rightarrow> ret (r(RAX := u64_of (- ENOSYS)), s)
      | Some name \<Rightarrow>
          bindR (Some (set_thread s (ks_curr s) (th_sysregs_update (\<lambda>_. r)))) (\<lambda>s.
          bindR (sc name r s) (\<lambda>(v, s). ret (r(RAX := u64_of v), s))))"

subsection \<open>What an unprivileged task keeps\<close>

lemma curr_task_Inr: "curr_task s = Inr (me, t) \<Longrightarrow> ks_tasks s me = Some t \<and> task_curr s = Inr me"
  by (auto simp: curr_task_def bindS_Inr load_Inr)

text \<open>Any sequence of calls that change identities, by any threads; between two calls another thread may run.\<close>

inductive id_reach :: "('m, 'v, 'w) kst \<Rightarrow> ('m, 'v, 'w) kst \<Rightarrow> bool" for s0 where
  start: "id_reach s0 s0"
| other: "id_reach s0 s \<Longrightarrow> id_reach s0 (s\<lparr>ks_curr := c\<rparr>)"
| reuid: "id_reach s0 s \<Longrightarrow> sys_setreuid s a b = Inr (e, s') \<Longrightarrow> id_reach s0 s'"
| regid: "id_reach s0 s \<Longrightarrow> sys_setregid s a b = Inr (e, s') \<Longrightarrow> id_reach s0 s'"
| uid: "id_reach s0 s \<Longrightarrow> sys_setuid s a = Inr (e, s') \<Longrightarrow> id_reach s0 s'"
| gid: "id_reach s0 s \<Longrightarrow> sys_setgid s a = Inr (e, s') \<Longrightarrow> id_reach s0 s'"
| pgid: "id_reach s0 s \<Longrightarrow> sys_setpgid s x y = Inr (e, s') \<Longrightarrow> id_reach s0 s'"
| sid: "id_reach s0 s \<Longrightarrow> sys_setsid s = Inr (e, s') \<Longrightarrow> id_reach s0 s'"
| mask: "id_reach s0 s \<Longrightarrow> sys_umask s a = Inr (e, s') \<Longrightarrow> id_reach s0 s'"

text \<open>The identities of all tasks that a call with the effect \<open>s \<rightarrow> s'\<close> must keep.\<close>

definition ids_kept :: "('m, 'v, 'w) kst \<Rightarrow> ('m, 'v, 'w) kst \<Rightarrow> bool" where
  "ids_kept s s' \<longleftrightarrow> (\<forall>p t. ks_tasks s p = Some t \<longrightarrow> (\<exists>t'. ks_tasks s' p = Some t' \<and>
     (t_euid t \<noteq> 0 \<longrightarrow> (t_ruid t', t_euid t') = (t_ruid t, t_euid t)) \<and>
     (t_egid t \<noteq> 0 \<longrightarrow> (t_rgid t', t_egid t') = (t_rgid t, t_egid t))))"

lemma ids_kept_refl: "ks_tasks s' = ks_tasks s \<Longrightarrow> ids_kept s s'"
  by (simp add: ids_kept_def)

lemma ids_kept_trans:
  assumes "ids_kept s s1" "ids_kept s1 s2"
  shows "ids_kept s s2"
  unfolding ids_kept_def
proof (intro allI impI)
  fix p t assume "ks_tasks s p = Some t"
  then obtain t1 where 1: "ks_tasks s1 p = Some t1" "t_euid t \<noteq> 0 \<longrightarrow> (t_ruid t1, t_euid t1) = (t_ruid t, t_euid t)"
      "t_egid t \<noteq> 0 \<longrightarrow> (t_rgid t1, t_egid t1) = (t_rgid t, t_egid t)" using assms(1) unfolding ids_kept_def by blast
  then obtain t2 where 2: "ks_tasks s2 p = Some t2" "t_euid t1 \<noteq> 0 \<longrightarrow> (t_ruid t2, t_euid t2) = (t_ruid t1, t_euid t1)"
      "t_egid t1 \<noteq> 0 \<longrightarrow> (t_rgid t2, t_egid t2) = (t_rgid t1, t_egid t1)" using assms(2) unfolding ids_kept_def by blast
  show "\<exists>t'. ks_tasks s2 p = Some t' \<and> (t_euid t \<noteq> 0 \<longrightarrow> (t_ruid t', t_euid t') = (t_ruid t, t_euid t)) \<and>
      (t_egid t \<noteq> 0 \<longrightarrow> (t_rgid t', t_egid t') = (t_rgid t, t_egid t))"
    using 1(2,3) 2 by (intro exI[of _ t2]) auto
qed

lemma ids_kept_upd:
  assumes "ks_tasks s p = Some t"
    and "t_euid t \<noteq> 0 \<longrightarrow> (t_ruid t', t_euid t') = (t_ruid t, t_euid t)" "t_egid t \<noteq> 0 \<longrightarrow> (t_rgid t', t_egid t') = (t_rgid t, t_egid t)"
  shows "ids_kept s (s\<lparr>ks_tasks := (ks_tasks s)(p \<mapsto> t')\<rparr>)"
  using assms by (simp add: ids_kept_def)

lemma setreuid_keeps:
  assumes "sys_setreuid s a b = Inr (e, s')"
  shows "ids_kept s s'"
proof -
  obtain me t where c: "curr_task s = Inr (me, t)" using assms by (auto simp: sys_setreuid_def bindS_Inr)
  note t = curr_task_Inr[OF c, THEN conjunct1]
  show ?thesis
  proof (cases "t_euid t = 0")
    case True
    then show ?thesis using assms t by (auto simp: sys_setreuid_def c set_task_def ids_kept_refl split: if_splits intro!: ids_kept_upd[OF t])
  qed (use assms t in \<open>auto simp: sys_setreuid_def c ids_kept_refl split: if_splits\<close>)
qed

lemma setregid_keeps:
  assumes "sys_setregid s a b = Inr (e, s')"
  shows "ids_kept s s'"
proof -
  obtain me t where c: "curr_task s = Inr (me, t)" using assms by (auto simp: sys_setregid_def bindS_Inr)
  note t = curr_task_Inr[OF c, THEN conjunct1]
  show ?thesis
  proof (cases "t_egid t = 0")
    case True
    then show ?thesis using assms t by (auto simp: sys_setregid_def c set_task_def ids_kept_refl split: if_splits intro!: ids_kept_upd[OF t])
  qed (use assms t in \<open>auto simp: sys_setregid_def c ids_kept_refl split: if_splits\<close>)
qed

lemma set_task_kept:
  assumes "set_task s p f = Inr s'" "\<And>t. (t_ruid (f t), t_euid (f t)) = (t_ruid t, t_euid t) \<and> (t_rgid (f t), t_egid (f t)) = (t_rgid t, t_egid t)"
  shows "ids_kept s s'"
proof -
  obtain t where "ks_tasks s p = Some t" "s' = s\<lparr>ks_tasks := (ks_tasks s)(p \<mapsto> f t)\<rparr>" using assms(1) by (auto simp: set_task_def bindS_Inr load_Inr)
  then show ?thesis using ids_kept_upd[of s p t "f t"] assms(2)[of t] by simp
qed

lemma setpgid_keeps:
  assumes "sys_setpgid s x y = Inr (e, s')"
  shows "ids_kept s s'"
proof -
  have "s' = s \<or> (\<exists>p g. set_task s p (t_pgid_update g) = Inr s')"
    using assms unfolding sys_setpgid_def bindS_Inr by (auto simp: bindS_Inr split: if_splits)
  then show ?thesis
  proof (elim disjE exE)
    fix p g assume "set_task s p (t_pgid_update g) = Inr s'"
    then show ?thesis by (rule set_task_kept) simp
  qed (simp add: ids_kept_refl)
qed

lemma setsid_keeps: "sys_setsid s = Inr (e, s') \<Longrightarrow> ids_kept s s'"
  by (auto simp: sys_setsid_def bindS_Inr ids_kept_refl split: if_splits elim!: set_task_kept)

lemma umask_keeps: "sys_umask s a = Inr (e, s') \<Longrightarrow> ids_kept s s'"
  by (auto simp: sys_umask_def bindS_Inr elim!: set_task_kept)

lemma id_reach_kept: "id_reach s0 s \<Longrightarrow> ids_kept s0 s"
proof (induction rule: id_reach.induct)
  case (other s c)
  show ?case by (rule ids_kept_trans[OF other.IH ids_kept_refl]) simp
next
  case (reuid s a b e s')
  then show ?case using ids_kept_trans setreuid_keeps by blast
next
  case (uid s a e s')
  then obtain e' where "sys_setreuid s NOID a = Inr (e', s')" by (auto simp: sys_setuid_def bindS_Inr)
  then show ?case using ids_kept_trans setreuid_keeps uid.IH by blast
next
  case (regid s a b e s')
  then show ?case using ids_kept_trans setregid_keeps by blast
next
  case (gid s a e s')
  then obtain e' where "sys_setregid s NOID a = Inr (e', s')" by (auto simp: sys_setgid_def bindS_Inr)
  then show ?case using ids_kept_trans setregid_keeps gid.IH by blast
next
  case (pgid s x y e s')
  then show ?case using ids_kept_trans setpgid_keeps by blast
next
  case (sid s e s')
  then show ?case using ids_kept_trans setsid_keeps by blast
next
  case (mask s a e s')
  then show ?case using ids_kept_trans umask_keeps by blast
qed (simp add: ids_kept_refl)

text \<open>
  C18: a task without the user identity of root can never change its user identities again: in every
  sequence of \<open>setreuid\<close>, \<open>setregid\<close>, \<open>setuid\<close>, \<open>setgid\<close>, \<open>setpgid\<close>, \<open>setsid\<close> and \<open>umask\<close> calls,
  by whichever threads, its real and effective user stay what they are. Its group identities are
  guarded by its effective group alone, whoever the user is.
\<close>

theorem identity_not_regained:
  assumes "id_reach s0 s" and "ks_tasks s0 p = Some t"
  shows "\<exists>t'. ks_tasks s p = Some t' \<and> (t_euid t \<noteq> 0 \<longrightarrow> (t_ruid t', t_euid t') = (t_ruid t, t_euid t)) \<and>
    (t_egid t \<noteq> 0 \<longrightarrow> (t_rgid t', t_egid t') = (t_rgid t, t_egid t))"
  using id_reach_kept[OF assms(1)] assms(2) unfolding ids_kept_def by blast

theorem identity_not_regained_witness:
  "\<exists>s t. sys_setuid (demo_kst\<lparr>ks_tasks := [1000 \<mapsto> (demo_task 1 0 2000 [])\<lparr>t_euid := 7, t_ruid := 8\<rparr>]\<rparr>) 0 = Inr (0, s) \<and>
     ks_tasks s 1000 = Some t \<and> t_euid t = 7 \<and> t_ruid t = 8"
proof -
  define d where "d = (demo_task 1 0 2000 [])\<lparr>t_euid := 7, t_ruid := 8\<rparr>"
  define s0 where "s0 = demo_kst\<lparr>ks_tasks := [1000 \<mapsto> d]\<rparr>"
  have c: "sys_setuid s0 0 = Inr (0, s0)"
    by (simp add: sys_setuid_def sys_setreuid_def curr_task_def task_curr_def s0_def d_def demo_kst_def demo_thread_def)
  have "id_reach s0 s0" by (rule id_reach.uid[OF id_reach.start c])
  from identity_not_regained[OF this, of 1000 d] obtain t where "ks_tasks s0 1000 = Some t" "t_euid t = 7" "t_ruid t = 8"
    by (auto simp: s0_def d_def)
  then show ?thesis using c unfolding s0_def d_def by blast
qed

subsection \<open>Groups\<close>

lemma curr_task_set:
  assumes "curr_task s = Inr (me, t)" "ks_threads s' = ks_threads s" "ks_curr s' = ks_curr s" "ks_tasks s' me = Some t'"
  shows "curr_task s' = Inr (me, t')"
  using assms by (auto simp: curr_task_def bindS_Inr load_Inr task_curr_def load_def split: if_splits)

lemma setgroups_null:
  assumes "curr_task s = Inr (me, t)" "t_groups t = 0" "\<not> h_lock (mm_heap (ks_mem s))" "h_blks (mm_heap (ks_mem s)) (2 ^ 64 - sizeof_block) = None"
  shows "sys_setgroups (kernel_memops junk) fill s sz lst = Some (Inl BadAccess)"
proof -
  have "sub64 0 sizeof_block = 2 ^ 64 - sizeof_block" by (simp add: sub64_def)
  then have "kfree (mm_heap (ks_mem s)) 0 = Some (Inl BadAccess)" using assms(3,4) by (simp add: kfree_def set_used_def)
  then show ?thesis using assms(1,2) by (simp add: sys_setgroups_def kernel_memops_def mm_kfree_def)
qed

text \<open>
  \<open>setgroups\<close> frees the old array without a test, and needs no privilege. A task that has no
  supplementary groups, as every task that does not inherit some, takes the kernel down with its
  first call: \<open>kfree\<close> of the null pointer reads a header at the top of the address space. With the
  list left out, the call leaves a task with a number of groups and a freed array, and the next
  \<open>getgroups\<close> reads that array.
\<close>

theorem setgroups_dangles:
  assumes "curr_task s = Inr (me, t)" and "\<not> h_lock (mm_heap (ks_mem s))" and "h_blks (mm_heap (ks_mem s)) (2 ^ 64 - sizeof_block) = None"
  shows "if t_groups t = 0 then sys_setgroups (kernel_memops junk) fill s sz lst = Some (Inl BadAccess)
    else \<forall>e s'. sys_setgroups (kernel_memops junk) fill s sz Null = ret (e, s') \<longrightarrow> e = 0 \<and>
      (\<forall>n. 0 < sz \<and> int sz \<le> n \<longrightarrow> sys_getgroups s' n (Mapped ()) = Inl BadAccess)"
proof -
  have "e = 0 \<and> (\<forall>n. 0 < sz \<and> int sz \<le> n \<longrightarrow> sys_getgroups s' n (Mapped ()) = Inl BadAccess)"
    if r: "sys_setgroups (kernel_memops junk) fill s sz Null = ret (e, s')" for e s'
  proof -
    obtain m where s': "s' = s\<lparr>ks_mem := m, ks_gids := (ks_gids s)(t_groups t := None), ks_tasks := (ks_tasks s)(me \<mapsto> t\<lparr>t_groupcnt := sz\<rparr>)\<rparr>" and e: "e = 0"
      using r assms(1) curr_task_Inr[OF assms(1)] by (auto simp: sys_setgroups_def bindR_ret set_task_def bindS_Inr load_Inr)
    have "curr_task s' = Inr (me, t\<lparr>t_groupcnt := sz\<rparr>)" by (rule curr_task_set[OF assms(1)]) (simp_all add: s')
    then show ?thesis using e by (auto simp: sys_getgroups_def s' load_def)
  qed
  then show ?thesis using setgroups_null[OF assms(1) _ assms(2,3)] by simp
qed

definition bare_kst :: "(mm, vm_map, nat) kst" where
  "bare_kst = fork_kst (\<lambda>_. 0) boot_mm no_map 1000 2000"

theorem setgroups_dangles_witness:
  "sys_setgroups (kernel_memops no_map) (\<lambda>_. 0) bare_kst 1 Null = Some (Inl BadAccess)"
proof -
  have c: "curr_task bare_kst = Inr (1000, fork_task no_map 2000)"
    by (simp add: curr_task_def task_curr_def bare_kst_def fork_kst_def fork_thread_def demo_thread_def)
  have h: "\<not> h_lock (mm_heap (ks_mem bare_kst))" "h_blks (mm_heap (ks_mem bare_kst)) (2 ^ 64 - sizeof_block) = None"
    by (simp_all add: bare_kst_def fork_kst_def boot_mm_def boot_heap_def heap_setup_def)
  have "t_groups (fork_task no_map 2000) = 0" by (simp add: fork_task_def fresh_task_def)
  then show ?thesis using setgroups_dangles[OF c h, of no_map "\<lambda>_. 0" 1 Null] by simp
qed

subsection \<open>Fork through the gate\<close>

lemma fork_number: "map_of syscalls 57 = Some ''fork''"
  by (simp add: syscalls_def)

lemma handler_fork:
  assumes "r RAX = 57" "\<And>r s. sc ''fork'' r s = sys_fork mo s" "ks_threads s (ks_curr s) = Some th"
  shows "syscall_handler sc s r =
    bindR (sys_fork mo (s\<lparr>ks_threads := (ks_threads s)(ks_curr s \<mapsto> th\<lparr>th_sysregs := r\<rparr>)\<rparr>)) (\<lambda>(v, s). ret (r(RAX := u64_of v), s))"
  using assms by (simp add: syscall_handler_def fork_number set_thread_def)

text \<open>
  C33: a fork returns twice. When a program traps into the kernel with the registers \<open>r\<close> and the
  number of \<^verbatim>\<open>fork\<close>, the gate resumes it with the same registers and the identifier of the child as
  result, and the only new thread is a ready one, last in the queue, that has the same registers and
  the result 0.
\<close>

theorem fork_returns_twice:
  assumes "r RAX = 57" and "\<forall>r s. sc ''fork'' r s = sys_fork (kernel_memops junk) s"
    and "objs_ok (\<lambda>m. fst ` live (mm_heap m)) (\<lambda>m. heap_inv (mm_heap m)) s"
    and "ks_curr s \<noteq> 0" "ks_threads s (ks_curr s) = Some th"
    and "ks_tasks s (th_task th) = Some t" "th_task th \<noteq> 0" "t_groupcnt t < 2 ^ 32"
    and "\<forall>i. t_fds t i \<noteq> 0 \<longrightarrow> t_fds t i \<in> dom (ks_files s)"
    and "syscall_handler sc s r = ret (r', s')"
  shows "\<exists>q cth. r' = r(RAX := u64_of (s32 (ks_pid s))) \<and> ks_threads s q = None \<and>
    ks_threads s' = (ks_threads s)(ks_curr s \<mapsto> th\<lparr>th_sysregs := r\<rparr>, q \<mapsto> cth) \<and>
    th_regs cth = r(RAX := 0) \<and> th_state cth = THREAD_READY \<and> ks_ready s' = kl_enqueue (ks_ready s) q"
proof -
  define s1 where "s1 = s\<lparr>ks_threads := (ks_threads s)(ks_curr s \<mapsto> th\<lparr>th_sysregs := r\<rparr>)\<rparr>"
  obtain pid where f: "sys_fork (kernel_memops junk) s1 = ret (pid, s')" "r' = r(RAX := u64_of pid)"
    using assms(10) handler_fork[of r sc "kernel_memops junk" s th] assms(1,2,5) by (auto simp: bindR_ret s1_def)
  have ok: "objs_ok (\<lambda>m. fst ` live (mm_heap m)) (\<lambda>m. heap_inv (mm_heap m)) s1"
    by (rule objs_ok_step[OF assms(3)]) (use assms(3,5) in \<open>auto simp: s1_def objs_ok_def\<close>)
  have t1: "ks_curr s1 \<noteq> 0" "ks_threads s1 (ks_curr s1) = Some (th\<lparr>th_sysregs := r\<rparr>)" "ks_tasks s1 (th_task (th\<lparr>th_sysregs := r\<rparr>)) = Some t"
    "th_task (th\<lparr>th_sysregs := r\<rparr>) \<noteq> 0" "\<forall>i. t_fds t i \<noteq> 0 \<longrightarrow> t_fds t i \<in> dom (ks_files s1)"
    using assms(4-9) by (simp_all add: s1_def)
  obtain p q ct cth where n: "pid = s32 (ks_pid s1)" "ks_threads s1 q = None" "ks_threads s' = (ks_threads s1)(q \<mapsto> cth)" "th_state cth = THREAD_READY"
      "th_regs cth = (th_sysregs (th\<lparr>th_sysregs := r\<rparr>))(RAX := 0)" "ks_ready s' = kl_enqueue (ks_ready s1) q"
    using km.fork_spec[OF ok t1(1-4) assms(8) t1(5) f(1)] by (elim exE conjE) (rule that; assumption)
  have "ks_threads s q = None" using n(2) by (auto simp: s1_def split: if_splits)
  then show ?thesis using n f(2) by (intro exI[of _ q] exI[of _ cth]) (simp add: s1_def)
qed

theorem fork_returns_twice_witness:
  "\<exists>m v p q s' q' cth. syscall_handler (\<lambda>_ _. sys_fork (kernel_memops no_map)) (fork_kst (\<lambda>_. 57) m v p q) (\<lambda>_. 57) = ret ((\<lambda>_. 57)(RAX := 2), s') \<and>
     ks_threads s' q' = Some cth \<and> th_regs cth = (\<lambda>_. 57)(RAX := 0)"
proof -
  obtain m v p q pid s' where h: "p \<noteq> 0" "q \<noteq> 0" "objs_ok (\<lambda>m. fst ` live (mm_heap m)) (\<lambda>m. heap_inv (mm_heap m)) (fork_kst (\<lambda>_. 57) m v p q)"
      "sys_fork (kernel_memops no_map) (fork_kst (\<lambda>_. 57) m v p q) = ret (pid, s')" using boot_fork[of "\<lambda>_. 57"] by blast
  let ?s = "fork_kst (\<lambda>_. 57) m v p q" let ?th = "fork_thread (\<lambda>_. 57) p"
  have s: "ks_curr ?s \<noteq> 0" "ks_threads ?s (ks_curr ?s) = Some ?th" "ks_tasks ?s (th_task ?th) = Some (fork_task v q)" "th_task ?th \<noteq> 0"
    "t_groupcnt (fork_task v q) < 2 ^ 32" "\<forall>i. t_fds (fork_task v q) i \<noteq> 0 \<longrightarrow> t_fds (fork_task v q) i \<in> dom (ks_files ?s)"
    using h(1,2) by (simp_all add: fork_kst_def fork_thread_def demo_thread_def fork_task_def fresh_task_def)
  have same: "?s\<lparr>ks_threads := (ks_threads ?s)(ks_curr ?s \<mapsto> ?th\<lparr>th_sysregs := (\<lambda>_. 57)\<rparr>)\<rparr> = ?s"
    by (simp add: fork_kst_def fork_thread_def)
  have sc: "\<forall>r s. (\<lambda>_ _. sys_fork (kernel_memops no_map)) ''fork'' r s = sys_fork (kernel_memops no_map) s" by simp
  have r: "syscall_handler (\<lambda>_ _. sys_fork (kernel_memops no_map)) ?s (\<lambda>_. 57) = ret ((\<lambda>_. 57)(RAX := u64_of pid), s')"
    using handler_fork[of "\<lambda>_. 57" "\<lambda>_ _. sys_fork (kernel_memops no_map)" "kernel_memops no_map" ?s ?th] s(2) h(4) unfolding same by simp
  obtain q' cth where n: "(\<lambda>_. 57)(RAX := u64_of pid) = (\<lambda>_. 57)(RAX := u64_of (s32 (ks_pid ?s)))" "th_regs cth = (\<lambda>_. 57)(RAX := 0)"
      "ks_threads s' = (ks_threads ?s)(ks_curr ?s \<mapsto> ?th\<lparr>th_sysregs := (\<lambda>_. 57)\<rparr>, q' \<mapsto> cth)"
    using fork_returns_twice[OF _ sc h(3) s r] by auto
  have "u64_of (s32 (ks_pid ?s)) = 2" by (simp add: fork_kst_def s32_def u64_of_def)
  then show ?thesis using r n by (intro exI[of _ m] exI[of _ v] exI[of _ p] exI[of _ q] exI[of _ s'] exI[of _ q'] exI[of _ cth]) simp
qed

end
