(* ===== verification/Spec2Isabelle.thy ===== *)
theory Spec2Isabelle
  imports Kheap Klist Kstring Ringbuf Pipe Vfs Ext2_Dirs Fsys Pagetable Vmarea Task Sched Fork Syscalls
begin

text \<open>
  Verification library of the micro operating system.
\<close>

end
